(* ===== verification/FW_Prelude.thy ===== *)
theory FW_Prelude
  imports Complex_Main "HOL-Library.Word"
begin

text \<open>
  Shared material of the development: the machine-integer types of the C code, the run of a
  fallible operation over a list of events (a C loop whose body may leave the program), counters
  kept in fixed-size arrays, floating-point rounding, and the fact collections
  \<open>fw_defs\<close> (definitions of the model) and \<open>fw_wf\<close> (shape facts of arrays).
\<close>

unbundle bit_operations_syntax

named_theorems fw_defs "definitions of the model that proofs unfold"
named_theorems fw_wf "shape facts: array lengths and field frames"

type_synonym u8 = "8 word"
type_synonym u16 = "16 word"
type_synonym u32 = "32 word"
type_synonym u64 = "64 word"

section \<open>Ways a run of the program ends early\<close>

text \<open>
  \<open>Exit_failure\<close> is a call of \<^verbatim>\<open>rte_exit\<close> or \<^verbatim>\<open>rte_panic\<close>, \<open>Undefined\<close> is an access the C
  standard gives no meaning (out of bounds, uninitialised pointer, division by zero), \<open>Failed\<close> is a
  function's return of -1, which its caller tests.
\<close>

datatype fw_error = Exit_failure string | Undefined string | Failed string

section \<open>Running a fallible operation over a list of events\<close>

fun run :: "('e \<Rightarrow> 's \<Rightarrow> 'x + 's) \<Rightarrow> 'e list \<Rightarrow> 's \<Rightarrow> 'x + 's" where
  "run f [] s = Inr s"
| "run f (e # es) s = (case f e s of Inl x \<Rightarrow> Inl x | Inr s' \<Rightarrow> run f es s')"

lemma run_ConsE:
  assumes "run f (e # es) s = Inr s'"
  obtains t where "f e s = Inr t" and "run f es t = Inr s'"
  using assms by (auto split: sum.splits)

lemma run_append:
  "run f (xs @ ys) s = (case run f xs s of Inl x \<Rightarrow> Inl x | Inr t \<Rightarrow> run f ys t)"
  by (induction xs arbitrary: s) (auto split: sum.splits)

lemma run_appendE:
  assumes "run f (xs @ ys) s = Inr u"
  obtains t where "run f xs s = Inr t" and "run f ys t = Inr u"
  using assms by (auto simp: run_append split: sum.splits)

text \<open>An operation that never fails runs as a plain fold.\<close>

lemma run_total: "run (\<lambda>e s. Inr (f e s)) es s = Inr (fold f es s)"
  by (induction es arbitrary: s) auto

text \<open>Invariants of one step are invariants of the run.\<close>

lemma run_invariant:
  assumes "run f es s = Inr s'" and "I s"
    and "\<And>e s s'. e \<in> set es \<Longrightarrow> I s \<Longrightarrow> f e s = Inr s' \<Longrightarrow> I s'"
  shows "I s'"
  using assms
proof (induction es arbitrary: s)
  case Nil
  then show ?case by simp
next
  case (Cons e es)
  from Cons.prems(1) obtain t where t: "f e s = Inr t" "run f es t = Inr s'"
    by (rule run_ConsE)
  have "I t" by (rule Cons.prems(3) [of e s]) (use t Cons.prems(2) in auto)
  with t(2) show ?case by (rule Cons.IH) (use Cons.prems(3) in auto)
qed

text \<open>A run succeeds when every step from a state of the invariant does.\<close>

lemma run_progress:
  assumes "I s"
    and "\<And>e s. e \<in> set es \<Longrightarrow> I s \<Longrightarrow> \<exists>s'. f e s = Inr s' \<and> I s'"
  shows "\<exists>s'. run f es s = Inr s' \<and> I s'"
  using assms
proof (induction es arbitrary: s)
  case Nil
  then show ?case by simp
next
  case (Cons e es)
  from Cons.prems(2) [of e s] Cons.prems(1) obtain t where t: "f e s = Inr t" "I t" by auto
  have "\<exists>s'. run f es t = Inr s' \<and> I s'"
    by (rule Cons.IH [OF t(2)]) (use Cons.prems(2) in auto)
  with t(1) show ?case by simp
qed

text \<open>A run that keeps its invariant stops only where a step stops, with that step's error.\<close>

lemma run_safe:
  assumes "I s"
    and "\<And>e s. e \<in> set es \<Longrightarrow> I s \<Longrightarrow>
      (\<exists>s'. f e s = Inr s' \<and> I s') \<or> (\<exists>x. f e s = Inl x \<and> Q e x)"
  shows "(\<exists>s'. run f es s = Inr s' \<and> I s') \<or> (\<exists>e \<in> set es. \<exists>x. run f es s = Inl x \<and> Q e x)"
  using assms
proof (induction es arbitrary: s)
  case Nil
  then show ?case by simp
next
  case (Cons e es)
  from Cons.prems have "(\<exists>s'. f e s = Inr s' \<and> I s') \<or> (\<exists>x. f e s = Inl x \<and> Q e x)" by simp
  then show ?case
  proof (elim disjE exE conjE)
    fix u
    assume u: "f e s = Inr u" "I u"
    have "(\<exists>s'. run f es u = Inr s' \<and> I s') \<or> (\<exists>e \<in> set es. \<exists>x. run f es u = Inl x \<and> Q e x)"
      by (rule Cons.IH [OF u(2)]) (use Cons.prems(2) in auto)
    with u(1) show ?thesis by auto
  next
    fix x
    assume "f e s = Inl x" "Q e x"
    then show ?thesis by auto
  qed
qed

text \<open>Sequencing of two fallible steps.\<close>

definition sbind :: "'x + 'a \<Rightarrow> ('a \<Rightarrow> 'x + 'b) \<Rightarrow> 'x + 'b" where
  "sbind r f = (case r of Inl x \<Rightarrow> Inl x | Inr a \<Rightarrow> f a)"

lemma sbind_simps [simp]: "sbind (Inl x) f = Inl x" "sbind (Inr a) f = f a"
  by (simp_all add: sbind_def)

lemma sbind_Inr_iff: "sbind r f = Inr b \<longleftrightarrow> (\<exists>a. r = Inr a \<and> f a = Inr b)"
  by (cases r) simp_all

lemma sbindE:
  assumes "sbind r f = Inr b"
  obtains a where "r = Inr a" and "f a = Inr b"
  using assms by (auto simp: sbind_Inr_iff)

section \<open>Arrays of counters\<close>

text \<open>\<^verbatim>\<open>a[i]++\<close> and \<^verbatim>\<open>a[i] = v\<close> on an array of fixed length, a list of that length.\<close>

definition bump :: "nat \<Rightarrow> 'w::len word list \<Rightarrow> 'w word list" where
  "bump i xs = xs[i := xs ! i + 1]"

lemma length_bump [simp, fw_wf]: "length (bump i xs) = length xs"
  by (simp add: bump_def)

lemma nth_bump: "i < length xs \<Longrightarrow> bump i xs ! j = (if i = j then xs ! j + 1 else xs ! j)"
  by (auto simp: bump_def)

lemma nth_list_update_if: "j < length xs \<Longrightarrow> xs[i := x] ! j = (if i = j then x else xs ! j)"
  by auto

lemma nth_bump_same [simp]: "i < length xs \<Longrightarrow> bump i xs ! i = xs ! i + 1"
  by (simp add: bump_def)

lemma nth_bump_other [simp]: "i \<noteq> j \<Longrightarrow> bump i xs ! j = xs ! j"
  by (simp add: bump_def)

lemma sum_list_bump: "i < length xs \<Longrightarrow> sum_list (bump i xs) = sum_list xs + 1"
proof (induction xs arbitrary: i)
  case Nil
  then show ?case by simp
next
  case (Cons x xs)
  show ?case
  proof (cases i)
    case 0
    then show ?thesis by (simp add: bump_def)
  next
    case (Suc j)
    with Cons have "sum_list (bump j xs) = sum_list xs + 1" by simp
    moreover have "bump i (x # xs) = x # bump j xs" using Suc by (simp add: bump_def)
    ultimately show ?thesis by (simp add: algebra_simps)
  qed
qed

section \<open>Words as counters\<close>

lemma unat_of_nat_small: "n < 2 ^ LENGTH('w) \<Longrightarrow> unat (of_nat n :: 'w::len word) = n"
  by (simp add: unat_of_nat)

lemma of_nat_Suc_word: "(of_nat (Suc n) :: 'w::len word) = of_nat n + 1"
  by simp

lemma count_list_map_filter:
  "count_list (map g (filter P xs)) k = length (filter (\<lambda>x. P x \<and> g x = k) xs)"
  by (induction xs) auto

lemma length_filter_eq_count: "length (filter (\<lambda>x. x = k) xs) = count_list xs k"
  by (induction xs) auto

lemma length_filter_less: "length xs < n \<Longrightarrow> length (filter P xs) < n"
  by (rule le_less_trans [OF length_filter_le])

section \<open>Sums over the table\<close>

text \<open>A report loop \<^verbatim>\<open>for (i = 0; i < n; i++) sum += f(i)\<close> computes a finite sum.\<close>

lemma fold_plus_sum:
  "fold (\<lambda>i s. s + f i) [0..<n] a = a + (\<Sum>i < n. f i :: 'a::comm_monoid_add)"
  by (induction n) (simp_all add: add.assoc)

text \<open>Counting by bucket and adding up counts everything once.\<close>

lemma sum_length_filter:
  "(\<And>x. x \<in> set xs \<Longrightarrow> g x < (n :: nat)) \<Longrightarrow>
     (\<Sum>i < n. length (filter (\<lambda>x. g x = i \<and> P x i) xs)) = length (filter (\<lambda>x. P x (g x)) xs)"
proof (induction xs)
  case Nil
  then show ?case by simp
next
  case (Cons x xs)
  let ?f = "\<lambda>i. length (filter (\<lambda>x. g x = i \<and> P x i) xs)"
  have d: "(\<Sum>i < n. if i = g x then v else 0) = v" for v :: nat
    using Cons.prems [of x] by (simp add: sum.delta)
  have "(\<Sum>i < n. length (filter (\<lambda>x. g x = i \<and> P x i) (x # xs)))
      = (\<Sum>i < n. ?f i + (if i = g x then (if P x (g x) then 1 else 0) else 0))"
    by (rule sum.cong) auto
  also have "\<dots> = (\<Sum>i < n. ?f i) + (if P x (g x) then 1 else 0)"
    by (simp only: sum.distrib d)
  also have "(\<Sum>i < n. ?f i) = length (filter (\<lambda>x. P x (g x)) xs)"
    using Cons by simp
  finally show ?case by simp
qed

lemma sint_of_int_small:
  "- (2 ^ (LENGTH('w) - 1)) \<le> d \<Longrightarrow> d < 2 ^ (LENGTH('w) - 1) \<Longrightarrow> sint (word_of_int d :: 'w::len word) = d"
  by (simp add: signed_of_int signed_take_bit_int_eq_self)

lemma ucast_of_nat_small:
  "n < 2 ^ LENGTH('a) \<Longrightarrow> ucast (of_nat n :: 'a::len word) = (of_nat n :: 'b::len word)"
  by (metis unat_of_nat_small of_nat_unat)

lemma unat_u8_less: "unat (w :: u8) < 256"
  using order_less_le_trans [OF unsigned_less, of 256 w] by simp

lemma unat_ucast_u8_u16 [simp]: "unat (ucast (w :: u8) :: u16) = unat w"
  using unat_u8_less [of w] by (simp add: unsigned_ucast_eq take_bit_eq_mod)

section \<open>Floating point\<close>

text \<open>
  A C \<^verbatim>\<open>double\<close> or \<^verbatim>\<open>float\<close> is modelled by the real number it stands for; every arithmetic
  operation and conversion of the code rounds its exact result, by \<open>rnd64\<close> to double precision
  and by \<open>rnd32\<close> to single precision. The two functions are parameters: the model says where
  the code rounds, a theorem says which properties of rounding it uses. Infinities and NaNs are
  outside the model.
\<close>

record fpu =
  rnd64 :: "real \<Rightarrow> real"
  rnd32 :: "real \<Rightarrow> real"

definition exact_fpu :: fpu where
  "exact_fpu = \<lparr>rnd64 = (\<lambda>x. x), rnd32 = (\<lambda>x. x)\<rparr>"

lemma exact_fpu_simps [simp]: "rnd64 exact_fpu x = x" "rnd32 exact_fpu x = x"
  by (simp_all add: exact_fpu_def)

end
