(* ===== verification/Rss.thy ===== *)
theory Rss
  imports FW_Prelude
begin

text \<open>
  The split of the 32-bit RSS hash of a packet into a bucket index (its low half) and a flow tag
  inside the bucket (its high half): the constant masks of the run-to-completion and L-thread
  versions, and the masks the pthread version computes at start-up from \<^verbatim>\<open>FLOW_NUM\<close>.
\<close>

section \<open>The constants\<close>

definition FLOW_NUM :: nat where
  "FLOW_NUM = 65536"

section \<open>Constant masks\<close>

definition rss_index_l :: "u32 \<Rightarrow> u32" where
  "rss_index_l rss = rss AND 0xffff"

definition rss_index_h :: "u32 \<Rightarrow> u32" where
  "rss_index_h rss = drop_bit 16 (rss AND 0xffff0000)"

section \<open>Masks computed at start-up (pthread version)\<close>

text \<open>
  \<^verbatim>\<open>bits = log(FLOW_NUM)/log(2)\<close>: two library logarithms, a division and the truncation to
  \<^verbatim>\<open>int\<close>, each rounded by the floating-point unit.
\<close>

definition pth_bits :: "fpu \<Rightarrow> nat \<Rightarrow> int" where
  "pth_bits fp flow_num =
     \<lfloor>rnd64 fp (rnd64 fp (ln (real flow_num)) / rnd64 fp (ln 2))\<rfloor>"

text \<open>\<^verbatim>\<open>while (i < bits) { result |= (1 << i); i++; }\<close>\<close>

function pth_mask_loop :: "nat \<Rightarrow> nat \<Rightarrow> u32 \<Rightarrow> u32" where
  "pth_mask_loop i bits result =
     (if i < bits then pth_mask_loop (i + 1) bits (result OR push_bit i 1) else result)"
  by pat_completeness auto
termination by (relation "measure (\<lambda>(i, bits, result). bits - i)") auto

declare pth_mask_loop.simps [simp del]

definition pth_result :: "nat \<Rightarrow> u32" where
  "pth_result bits = pth_mask_loop 0 bits 0"

definition pth_b1 :: "nat \<Rightarrow> u32" where
  "pth_b1 bits = push_bit bits (pth_result bits)"

definition pth_index_l :: "nat \<Rightarrow> u32 \<Rightarrow> u32" where
  "pth_index_l bits rss = rss AND pth_result bits"

definition pth_index_h :: "nat \<Rightarrow> u32 \<Rightarrow> u32" where
  "pth_index_h bits rss = drop_bit bits (rss AND pth_b1 bits)"

section \<open>The masks as truncations\<close>

lemma rss_index_l_take_bit: "rss_index_l rss = take_bit 16 rss"
proof -
  have "(0xffff :: u32) = mask 16" by (simp add: mask_eq_exp_minus_1)
  then show ?thesis by (simp add: rss_index_l_def take_bit_eq_mask)
qed

lemma rss_index_h_drop_bit: "rss_index_h rss = drop_bit 16 rss"
proof -
  have m: "(0xffff0000 :: u32) = push_bit 16 (mask 16)"
    by (simp add: mask_eq_exp_minus_1 push_bit_eq_mult)
  show ?thesis
    unfolding rss_index_h_def m
    by (rule bit_word_eqI) (auto simp: bit_simps dest: bit_imp_le_length)
qed

lemma pth_mask_loop_mask:
  "i \<le> bits \<Longrightarrow> pth_mask_loop i bits (mask i) = mask bits"
proof (induction i bits "mask i :: u32" rule: pth_mask_loop.induct)
  case (1 i bits)
  show ?case
  proof (cases "i < bits")
    case True
    have step: "(mask i :: u32) OR push_bit i 1 = mask (i + 1)"
      by (rule bit_word_eqI) (auto simp: bit_simps)
    have "pth_mask_loop (i + 1) bits (mask (i + 1)) = mask bits"
      by (rule 1(1)) (use True step in auto)
    with True step show ?thesis by (simp add: pth_mask_loop.simps [of i])
  next
    case False
    with 1(2) have "i = bits" by simp
    then show ?thesis by (simp add: pth_mask_loop.simps)
  qed
qed

lemma pth_result_mask: "pth_result bits = mask bits"
  using pth_mask_loop_mask [of 0 bits] by (simp add: pth_result_def)

lemma pth_index_l_take_bit: "pth_index_l bits rss = take_bit bits rss"
  by (simp add: pth_index_l_def pth_result_mask take_bit_eq_mask)

lemma pth_index_h_drop_bit: "pth_index_h bits rss = take_bit bits (drop_bit bits rss)"
  by (rule bit_word_eqI) (auto simp: pth_index_h_def pth_b1_def pth_result_mask bit_simps
      dest: bit_imp_le_length)

section \<open>Bounds\<close>

lemma unat_take_bit_less: "unat (take_bit n (w :: 'a::len word)) < 2 ^ n"
  by (metis unsigned_take_bit_eq take_bit_nat_less_exp)

lemma rss_index_l_less [simp]: "unat (rss_index_l rss) < FLOW_NUM"
  using unat_take_bit_less [of 16 rss] by (simp add: rss_index_l_take_bit FLOW_NUM_def)

lemma rss_index_h_less [simp]: "unat (rss_index_h rss) < 65536"
proof -
  have "unat (rss_index_h rss) = unat rss div 65536"
    unfolding rss_index_h_drop_bit unat_drop_bit_eq by (simp add: drop_bit_eq_div)
  moreover have "unat rss < 2 ^ 32" using unsigned_less [of rss] by simp
  ultimately show ?thesis by simp
qed

lemma pth_index_l_less: "unat (pth_index_l bits rss) < 2 ^ bits"
  by (simp add: pth_index_l_take_bit unat_take_bit_less)

text \<open>A tag below 65536 survives the store into the 16-bit fields of a bucket.\<close>

lemma ucast_u16_u32: "unat (w :: u32) < 65536 \<Longrightarrow> ucast (ucast w :: u16) = w"
  by (rule word_unat_eq_iff [THEN iffD2])
    (simp add: unsigned_ucast_eq take_bit_eq_mod unat_word_ariths)

lemma ucast_u32_u16 [simp]: "ucast (ucast (w :: u16) :: u32) = w"
  by (rule bit_word_eqI) (auto simp: bit_simps)

lemma ucast_tag_eq: "unat (h :: u32) < 65536 \<Longrightarrow> ucast (f :: u16) = h \<longleftrightarrow> f = ucast h"
  using ucast_u16_u32 [of h] by auto

section \<open>Both versions split alike\<close>

lemma pth_index_l_16: "pth_index_l 16 rss = rss_index_l rss"
  by (simp add: pth_index_l_take_bit rss_index_l_take_bit)

lemma pth_index_h_16: "pth_index_h 16 rss = rss_index_h rss"
  by (rule bit_word_eqI)
    (auto simp: pth_index_h_drop_bit rss_index_h_drop_bit bit_simps dest: bit_imp_le_length)

lemma rss_split_join: "push_bit 16 (rss_index_h rss) OR rss_index_l rss = rss"
  by (rule bit_word_eqI)
    (auto simp: rss_index_h_drop_bit rss_index_l_take_bit bit_simps dest: bit_imp_le_length)

lemma rss_split_inj:
  assumes "rss_index_l a = rss_index_l b" and "rss_index_h a = rss_index_h b"
  shows "a = b"
  by (metis assms rss_split_join)

end
