(* ===== verification/Quantile.thy ===== *)
theory Quantile
  imports FW_Prelude "HOL-Library.Multiset"
begin

text \<open>
  The per-flow quantile estimator (\<^verbatim>\<open>QUANTILE\<close> builds): the five-marker structure, its
  initialisation, the insertion sort of the first five gaps, the marker update \<^verbatim>\<open>get_qt\<close> and the
  code that feeds one inter-packet gap to it. The target quantile \<open>P\<close> is a macro of each version
  (0.99 in run-to-completion, 0.5 in the L-thread version) and a parameter \<open>p\<close> here.
\<close>

section \<open>The structure\<close>

text \<open>\<^verbatim>\<open>double q[5]; int l; int n[5]; float n1[5];\<close>\<close>

record quantile =
  qt_q :: "real list"
  qt_l :: nat
  qt_n :: "int list"
  qt_n1 :: "real list"

section \<open>Conversion to int\<close>

text \<open>
  Conversion of a floating value to \<^verbatim>\<open>int\<close> drops the fraction; it is undefined when the result
  does not fit.
\<close>

definition trunc :: "real \<Rightarrow> int" where
  "trunc x = (if 0 \<le> x then \<lfloor>x\<rfloor> else \<lceil>x\<rceil>)"

definition fits_int :: "int \<Rightarrow> bool" where
  "fits_int i \<longleftrightarrow> - (2 ^ 31) \<le> i \<and> i < 2 ^ 31"

lemma trunc_of_int [simp]: "trunc (real_of_int i) = i"
  by (simp add: trunc_def)

section \<open>Initialisation\<close>

definition qt_init :: "fpu \<Rightarrow> real \<Rightarrow> quantile \<Rightarrow> quantile" where
  "qt_init fp p qt = (let P = rnd64 fp p in
     qt\<lparr>qt_n := [1, 2, 3, 4, 5],
        qt_n1 := [1,
                  rnd32 fp (rnd64 fp (1 + rnd64 fp (2 * P))),
                  rnd32 fp (rnd64 fp (1 + rnd64 fp (4 * P))),
                  rnd32 fp (rnd64 fp (3 + rnd64 fp (2 * P))),
                  5]\<rparr>)"

section \<open>Insertion sort of the first five gaps\<close>

text \<open>
  The inner loop of \<^verbatim>\<open>insertSort\<close>: while \<open>n[j] < n[j-1]\<close> it swaps the two through the
  variable \<^verbatim>\<open>tmp\<close>, which the code declares as \<^verbatim>\<open>int\<close>.
\<close>

fun sift :: "nat \<Rightarrow> real list \<Rightarrow> fw_error + real list" where
  "sift 0 a = Inr a"
| "sift (Suc j) a =
     (if a ! Suc j < a ! j then
        (let tmp = trunc (a ! Suc j) in
         if fits_int tmp then sift j (a[Suc j := a ! j, j := real_of_int tmp])
         else Inl (Undefined ''double to int conversion out of range''))
      else Inr a)"

definition insertSort :: "real list \<Rightarrow> fw_error + real list" where
  "insertSort a = run sift [1, 2, 3, 4] a"

section \<open>The marker update\<close>

text \<open>The cell of the new value, with the two extreme markers moved to it when it lies outside.\<close>

definition qt_cell :: "real \<Rightarrow> real list \<Rightarrow> real list \<times> nat" where
  "qt_cell x q =
     (if x > q ! 2 then
        (if x < q ! 3 then (q, 2)
         else if x \<ge> q ! 3 \<and> x \<le> q ! 4 then (q, 3)
         else (q[4 := x], 3))
      else
        (if x \<ge> q ! 1 then (q, 1)
         else if q ! 0 \<le> x \<and> x < q ! 1 then (q, 0)
         else (q[0 := x], 0)))"

text \<open>\<^verbatim>\<open>while (k < 4) { qt->n[k+1]++; k++; }\<close>\<close>

function qt_shift :: "nat \<Rightarrow> int list \<Rightarrow> int list" where
  "qt_shift k n = (if k < 4 then qt_shift (k + 1) (n[k + 1 := n ! (k + 1) + 1]) else n)"
  by pat_completeness auto
termination by (relation "measure (\<lambda>(k, n). 4 - k)") auto

declare qt_shift.simps [simp del]

text \<open>
  The increments \<^verbatim>\<open>dn0\<close> to \<^verbatim>\<open>dn4\<close>. The first and the last are integer constants, so their
  additions are made in \<^verbatim>\<open>float\<close>, the others in \<^verbatim>\<open>double\<close> and then stored as \<^verbatim>\<open>float\<close>.
\<close>

definition qt_dn :: "fpu \<Rightarrow> real \<Rightarrow> nat \<Rightarrow> real" where
  "qt_dn fp p i = (let P = rnd64 fp p in
     [0, rnd64 fp (P / 2), P, rnd64 fp (rnd64 fp (P + 1) / 2), 1] ! i)"

definition qt_desired :: "fpu \<Rightarrow> real \<Rightarrow> real list \<Rightarrow> real list" where
  "qt_desired fp p n1 =
     [rnd32 fp (n1 ! 0 + qt_dn fp p 0),
      rnd32 fp (rnd64 fp (n1 ! 1 + qt_dn fp p 1)),
      rnd32 fp (rnd64 fp (n1 ! 2 + qt_dn fp p 2)),
      rnd32 fp (rnd64 fp (n1 ! 3 + qt_dn fp p 3)),
      rnd32 fp (n1 ! 4 + qt_dn fp p 4)]"

text \<open>
  The two interpolations for marker \<open>i\<close> moved by \<open>d\<close> (1 or -1): the parabolic one, whose two
  factors are computed in \<^verbatim>\<open>float\<close>, and the linear one. A difference of two \<^verbatim>\<open>int\<close> positions
  is exact in \<^verbatim>\<open>double\<close>.
\<close>

definition qt_parabolic :: "fpu \<Rightarrow> nat \<Rightarrow> int \<Rightarrow> real list \<Rightarrow> int list \<Rightarrow> real" where
  "qt_parabolic fp i d q n =
     (let up = rnd64 fp (rnd64 fp (real_of_int (n ! i - n ! (i - 1) + d)
                                     * rnd64 fp (q ! (i + 1) - q ! i))
                         / real_of_int (n ! (i + 1) - n ! i));
          down = rnd64 fp (rnd64 fp (real_of_int (n ! (i + 1) - n ! i - d)
                                     * rnd64 fp (q ! i - q ! (i - 1)))
                         / real_of_int (n ! i - n ! (i - 1)));
          w = rnd32 fp (real_of_int d / rnd32 fp (real_of_int (n ! (i + 1) - n ! (i - 1))))
      in rnd64 fp (q ! i + rnd32 fp (w * rnd32 fp (rnd64 fp (up + down)))))"

definition qt_linear :: "fpu \<Rightarrow> nat \<Rightarrow> int \<Rightarrow> real list \<Rightarrow> int list \<Rightarrow> real" where
  "qt_linear fp i d q n =
     (let j = nat (int i + d) in
      rnd64 fp (q ! i + rnd64 fp (rnd64 fp (real_of_int d * rnd64 fp (q ! j - q ! i))
                                  / real_of_int (n ! j - n ! i))))"

definition qt_adjust :: "fpu \<Rightarrow> nat \<Rightarrow> quantile \<Rightarrow> quantile" where
  "qt_adjust fp i qt =
     (let q = qt_q qt; n = qt_n qt;
          d = trunc (rnd32 fp (qt_n1 qt ! i - rnd32 fp (real_of_int (n ! i))))
      in if d \<ge> 1 \<and> n ! (i + 1) - n ! i > 1 \<or> d \<le> -1 \<and> n ! (i - 1) - n ! i < -1 then
           (let d = (if d > 0 then 1 else -1);
                q1 = qt_parabolic fp i d q n
            in qt\<lparr>qt_q := (if q1 > q ! (i - 1) \<and> q1 < q ! (i + 1)
                           then q[i := q1] else q[i := qt_linear fp i d q n]),
                  qt_n := n[i := n ! i + d]\<rparr>)
         else qt)"

definition get_qt :: "fpu \<Rightarrow> real \<Rightarrow> u64 \<Rightarrow> quantile \<Rightarrow> quantile" where
  "get_qt fp p x qt =
     (let (q, k) = qt_cell (rnd64 fp (real (unat x))) (qt_q qt);
          qt1 = qt\<lparr>qt_q := q, qt_n := qt_shift k (qt_n qt), qt_n1 := qt_desired fp p (qt_n1 qt)\<rparr>
      in qt_adjust fp 3 (qt_adjust fp 2 (qt_adjust fp 1 qt1)))"

section \<open>Feeding one gap\<close>

text \<open>
  The code in the per-packet loops: the first five gaps are stored as they are (the signed
  \<^verbatim>\<open>curr\<close> converted to \<^verbatim>\<open>double\<close>), then \<^verbatim>\<open>get_qt\<close> gets \<^verbatim>\<open>curr\<close> as \<^verbatim>\<open>uint64_t\<close>. The counter
  \<^verbatim>\<open>l\<close> stays at 5, so the sort runs before every later update.
\<close>

definition qt_feed :: "fpu \<Rightarrow> real \<Rightarrow> u64 \<Rightarrow> quantile \<Rightarrow> fw_error + quantile" where
  "qt_feed fp p cur qt =
     (if qt_l qt < 5 then
        Inr (qt\<lparr>qt_q := (qt_q qt)[qt_l qt := rnd64 fp (real_of_int (sint cur))],
                qt_l := qt_l qt + 1\<rparr>)
      else if qt_l qt = 5 then
        (case insertSort (qt_q qt) of
           Inl e \<Rightarrow> Inl e
         | Inr q \<Rightarrow> Inr (get_qt fp p cur (qt\<lparr>qt_q := q\<rparr>)))
      else Inr (get_qt fp p cur qt))"

section \<open>Insertion sort is correct on integers and harmless on sorted input\<close>

definition int_valued :: "real \<Rightarrow> bool" where
  "int_valued x \<longleftrightarrow> (\<exists>i. x = real_of_int i \<and> fits_int i)"

lemma trunc_int_valued:
  "int_valued x \<Longrightarrow> real_of_int (trunc x) = x \<and> fits_int (trunc x)"
  by (auto simp: int_valued_def)

text \<open>
  The invariant of the inner loop at position \<open>j\<close> of a prefix of length \<open>m\<close>: the prefix is sorted
  once position \<open>j\<close> is left out, and the element at \<open>j\<close> is at most every one behind it.
\<close>

definition sifting :: "nat \<Rightarrow> nat \<Rightarrow> real list \<Rightarrow> bool" where
  "sifting j m a \<longleftrightarrow> j < m \<and> m \<le> length a \<and>
     (\<forall>x y. x < y \<and> y < m \<and> x \<noteq> j \<and> y \<noteq> j \<longrightarrow> a ! x \<le> a ! y) \<and>
     (\<forall>y. j < y \<and> y < m \<longrightarrow> a ! j \<le> a ! y)"

lemma sorted_take_nth:
  "m \<le> length a \<Longrightarrow> sorted (take m a) \<longleftrightarrow> (\<forall>x y. x < y \<and> y < m \<longrightarrow> a ! x \<le> (a ! y :: real))"
  by (auto simp: sorted_iff_nth_mono_less)

lemma sifting_swap:
  assumes "sifting (Suc j) m a" and "a ! Suc j < a ! j"
  shows "sifting j m (a[Suc j := a ! j, j := a ! Suc j])"
proof -
  have l: "Suc j < m" "m \<le> length a"
    and s: "\<And>x y. x < y \<Longrightarrow> y < m \<Longrightarrow> x \<noteq> Suc j \<Longrightarrow> y \<noteq> Suc j \<Longrightarrow> a ! x \<le> a ! y"
    and b: "\<And>y. Suc j < y \<Longrightarrow> y < m \<Longrightarrow> a ! Suc j \<le> a ! y"
    using assms(1) unfolding sifting_def by blast+
  have "a ! x \<le> a ! j" if "x < Suc j" "x \<noteq> j" for x
    using s [of x j] that l by simp
  moreover have "a ! j \<le> a ! y" if "Suc j < y" "y < m" for y
    using s [of j y] that by simp
  ultimately show ?thesis
    using l s b assms(2) by (auto simp: sifting_def nth_list_update intro: less_imp_le)
qed

lemma sifting_stop:
  assumes "sifting (Suc j) m a" and "\<not> a ! Suc j < a ! j"
  shows "sorted (take m a)"
proof -
  have l: "Suc j < m" "m \<le> length a"
    and s: "\<And>x y. x < y \<Longrightarrow> y < m \<Longrightarrow> x \<noteq> Suc j \<Longrightarrow> y \<noteq> Suc j \<Longrightarrow> a ! x \<le> a ! y"
    and b: "\<And>y. Suc j < y \<Longrightarrow> y < m \<Longrightarrow> a ! Suc j \<le> a ! y"
    using assms(1) unfolding sifting_def by blast+
  have c: "a ! x \<le> a ! Suc j" if "x < Suc j" for x
    using s [of x j] that l assms(2) by (cases "x = j") auto
  have "a ! x \<le> a ! y" if "x < y" "y < m" for x y
    using s [OF that] b [of y] c [of x] that by (cases "x = Suc j"; cases "y = Suc j") auto
  with l(2) show ?thesis by (simp add: sorted_take_nth)
qed

lemma sifting_0: "sifting 0 m a \<Longrightarrow> sorted (take m a)"
  by (auto simp: sifting_def sorted_take_nth) (metis gr_zeroI less_nat_zero_code)

lemma sifting_start:
  assumes "sorted (take i a)" and "i < length a"
  shows "sifting i (Suc i) a"
  using assms by (auto simp: sifting_def sorted_take_nth)

lemma mset_swap_real:
  "Suc j < length a \<Longrightarrow> mset (a[Suc j := a ! j, j := a ! Suc j]) = mset (a :: real list)"
  using mset_swap [of "Suc j" a j] by (simp add: list_update_swap)

lemma sift_correct:
  assumes "sifting j m a" and "\<forall>x \<in> set a. int_valued x"
  shows "\<exists>b. sift j a = Inr b \<and> mset b = mset a \<and> sorted (take m b)"
  using assms
proof (induction j arbitrary: a)
  case 0
  then show ?case by (auto intro: sifting_0)
next
  case (Suc j)
  have len: "Suc j < length a" using Suc.prems(1) by (simp add: sifting_def)
  show ?case
  proof (cases "a ! Suc j < a ! j")
    case True
    let ?b = "a[Suc j := a ! j, j := a ! Suc j]"
    have iv: "int_valued (a ! Suc j)" using Suc.prems(2) len by simp
    have m: "mset ?b = mset a" by (rule mset_swap_real [OF len])
    then have "\<forall>x \<in> set ?b. int_valued x" using Suc.prems(2) by (metis set_mset_mset)
    with sifting_swap [OF Suc.prems(1) True]
    obtain b where "sift j ?b = Inr b" "mset b = mset ?b" "sorted (take m b)"
      using Suc.IH by blast
    with True m trunc_int_valued [OF iv] show ?thesis by (simp add: Let_def)
  next
    case False
    with sifting_stop [OF Suc.prems(1) False] show ?thesis by simp
  qed
qed

lemma sift_sorted:
  assumes "sorted (take (Suc j) a)" and "j < length a"
  shows "sift j a = Inr a"
proof (cases j)
  case (Suc k)
  with assms have "\<not> a ! Suc k < a ! k" by (auto simp: sorted_take_nth not_less)
  with Suc show ?thesis by simp
qed simp

lemma sift_step:
  assumes "\<forall>x \<in> set a. int_valued x" and "sorted (take i a)" and "i < length a"
  obtains b where "sift i a = Inr b" "mset b = mset a" "sorted (take (Suc i) b)"
    "length b = length a" "\<forall>x \<in> set b. int_valued x"
proof -
  obtain b where b: "sift i a = Inr b" "mset b = mset a" "sorted (take (Suc i) b)"
    using sift_correct [OF sifting_start [OF assms(2,3)] assms(1)] by auto
  from b(2) have "length b = length a" "set b = set a"
    by (metis size_mset, metis set_mset_mset)
  with b assms(1) that show thesis by simp
qed

lemma run_sift_correct:
  assumes "\<forall>x \<in> set a. int_valued x" and "sorted (take m a)" and "m \<le> n" and "n \<le> length a"
  shows "\<exists>b. run sift [m..<n] a = Inr b \<and> mset b = mset a \<and> sorted (take n b)"
  using assms
proof (induction "n - m" arbitrary: m a)
  case 0
  then show ?case by simp
next
  case (Suc k)
  then have mn: "m < n" by simp
  obtain b where b: "sift m a = Inr b" "mset b = mset a" "sorted (take (Suc m) b)"
    "length b = length a" "\<forall>x \<in> set b. int_valued x"
    using sift_step [OF Suc.prems(1,2)] mn Suc.prems(4) by auto
  have "\<exists>c. run sift [Suc m..<n] b = Inr c \<and> mset c = mset b \<and> sorted (take n c)"
    by (rule Suc.hyps(1)) (use b mn Suc in auto)
  with b(1,2) mn show ?case by (simp add: upt_conv_Cons)
qed

lemma sift_positions: "[1, 2, 3, 4] = [1..<5 :: nat]"
  by (simp add: upt_conv_Cons)

lemma insertSort_correct:
  assumes "\<forall>x \<in> set a. int_valued x" and len: "length a = 5"
  shows "\<exists>b. insertSort a = Inr b \<and> mset b = mset a \<and> sorted b"
proof -
  have loop: "insertSort a = run sift [1..<5] a"
    by (simp only: insertSort_def sift_positions)
  have "sorted (take 1 a)" using len by (simp add: sorted_take_nth)
  with assms(1) have "\<exists>b. run sift [1..<5] a = Inr b \<and> mset b = mset a \<and> sorted (take 5 b)"
    by (rule run_sift_correct) (simp_all add: len)
  then obtain b where b: "insertSort a = Inr b" "mset b = mset a" "sorted (take 5 b)"
    unfolding loop by blast
  from b(2) len have "length b = 5" by (metis size_mset)
  with b show ?thesis by auto
qed

lemma insertSort_sorted:
  assumes "sorted a" and "length a = 5"
  shows "insertSort a = Inr a"
proof -
  have s: "sift j a = Inr a" if "j < 5" for j
    using that assms by (intro sift_sorted) (auto intro: sorted_wrt_take)
  have "run sift js a = Inr a" if "set js \<subseteq> {..<5}" for js
    using that by (induction js) (simp_all add: s)
  from this [of "[1, 2, 3, 4]"] show ?thesis by (simp add: insertSort_def)
qed

section \<open>The markers\<close>

text \<open>Positions strictly increase: no two markers share a position, no division by zero.\<close>

definition qt_pos :: "int list \<Rightarrow> bool" where
  "qt_pos n \<longleftrightarrow> length n = 5 \<and> n ! 0 < n ! 1 \<and> n ! 1 < n ! 2 \<and> n ! 2 < n ! 3 \<and> n ! 3 < n ! 4"

definition qt_heights :: "real list \<Rightarrow> bool" where
  "qt_heights q \<longleftrightarrow> length q = 5 \<and> q ! 0 \<le> q ! 1 \<and> q ! 1 \<le> q ! 2 \<and> q ! 2 \<le> q ! 3 \<and> q ! 3 \<le> q ! 4"

lemma less_5_cases: "(i :: nat) < 5 \<longleftrightarrow> i = 0 \<or> i = 1 \<or> i = 2 \<or> i = 3 \<or> i = 4"
  by auto

lemma length_5: "length xs = 5 \<longleftrightarrow> (\<exists>a b c d e. xs = [a, b, c, d, e])"
  by (auto simp: eval_nat_numeral length_Suc_conv)

lemma qt_heights_sorted: "length q = 5 \<Longrightarrow> qt_heights q \<longleftrightarrow> sorted q"
  by (auto simp: qt_heights_def length_5)

lemma qt_shift_5:
  "qt_shift 0 [a, b, c, d, e] = [a, b + 1, c + 1, d + 1, e + 1]"
  "qt_shift (Suc 0) [a, b, c, d, e] = [a, b, c + 1, d + 1, e + 1]"
  "qt_shift 2 [a, b, c, d, e] = [a, b, c, d + 1, e + 1]"
  "qt_shift 3 [a, b, c, d, e] = [a, b, c, d, e + 1]"
  by (simp_all add: qt_shift.simps eval_nat_numeral)

lemma qt_cell_range: "snd (qt_cell x q) \<in> {0, 1, 2, 3}"
  by (simp add: qt_cell_def)

lemma qt_shift_pos:
  assumes "qt_pos n" and "k \<in> {0, 1, 2, 3}"
  shows "qt_pos (qt_shift k n) \<and> qt_shift k n ! 0 = n ! 0 \<and> qt_shift k n ! 4 = n ! 4 + 1"
proof -
  from assms(1) obtain a b c d e where n: "n = [a, b, c, d, e]"
    by (auto simp: qt_pos_def length_5)
  from assms show ?thesis unfolding n by (auto simp: qt_pos_def qt_shift_5)
qed

lemma qt_adjust_pos:
  assumes "qt_pos (qt_n t)" and "i \<in> {1, 2, 3}"
  shows "qt_pos (qt_n (qt_adjust fp i t))"
  using assms by (auto simp: qt_adjust_def qt_pos_def Let_def nth_list_update eval_nat_numeral)

lemma qt_adjust_frame:
  assumes "i \<in> {1, 2, 3}"
  shows "qt_n (qt_adjust fp i t) ! 0 = qt_n t ! 0" "qt_n (qt_adjust fp i t) ! 4 = qt_n t ! 4"
    "qt_q (qt_adjust fp i t) ! 0 = qt_q t ! 0" "qt_q (qt_adjust fp i t) ! 4 = qt_q t ! 4"
    "qt_n1 (qt_adjust fp i t) = qt_n1 t" "qt_l (qt_adjust fp i t) = qt_l t"
    "length (qt_q (qt_adjust fp i t)) = length (qt_q t)"
    "length (qt_n (qt_adjust fp i t)) = length (qt_n t)"
  using assms by (auto simp: qt_adjust_def Let_def)

lemma get_qt_positions:
  assumes "qt_pos (qt_n t)"
  shows "qt_pos (qt_n (get_qt fp p x t)) \<and>
    qt_n (get_qt fp p x t) ! 0 = qt_n t ! 0 \<and>
    qt_n (get_qt fp p x t) ! 4 = qt_n t ! 4 + 1"
proof -
  let ?c = "qt_cell (rnd64 fp (real (unat x))) (qt_q t)"
  have "qt_pos (qt_shift (snd ?c) (qt_n t)) \<and> qt_shift (snd ?c) (qt_n t) ! 0 = qt_n t ! 0 \<and>
    qt_shift (snd ?c) (qt_n t) ! 4 = qt_n t ! 4 + 1"
    by (rule qt_shift_pos [OF assms qt_cell_range])
  then show ?thesis
    by (simp add: get_qt_def case_prod_beta Let_def qt_adjust_pos qt_adjust_frame)
qed

lemma get_qt_l [simp]: "qt_l (get_qt fp p x t) = qt_l t"
  by (simp add: get_qt_def case_prod_beta Let_def qt_adjust_frame)

lemma get_qt_desired: "qt_n1 (get_qt fp p x t) = qt_desired fp p (qt_n1 t)"
  by (simp add: get_qt_def case_prod_beta Let_def qt_adjust_frame)

section \<open>Heights stay sorted under any rounding of the IEEE kind\<close>

text \<open>
  What the proof uses of rounding to double precision: it is monotone, symmetric and keeps values
  that are already doubles, it keeps integers up to \<open>2^53\<close>, and halving a rounded non-negative
  value and rounding again does not exceed the value started from. Round-to-nearest has all five.
\<close>

definition ieee_double :: "fpu \<Rightarrow> bool" where
  "ieee_double fp \<longleftrightarrow> mono (rnd64 fp) \<and> (\<forall>x. rnd64 fp (rnd64 fp x) = rnd64 fp x) \<and>
     (\<forall>x. rnd64 fp (- x) = - rnd64 fp x) \<and>
     (\<forall>i :: int. \<bar>i\<bar> \<le> 2 ^ 53 \<longrightarrow> rnd64 fp (real_of_int i) = real_of_int i) \<and>
     (\<forall>x. 0 \<le> x \<longrightarrow> rnd64 fp (rnd64 fp x / 2) \<le> x)"

lemma ieee_double_exact [simp]: "ieee_double exact_fpu"
  by (simp add: ieee_double_def mono_def)

definition doubles :: "fpu \<Rightarrow> real list \<Rightarrow> bool" where
  "doubles fp xs \<longleftrightarrow> (\<forall>x \<in> set xs. rnd64 fp x = x)"

lemma doubles_nth: "doubles fp xs \<Longrightarrow> i < length xs \<Longrightarrow> rnd64 fp (xs ! i) = xs ! i"
  by (simp add: doubles_def)

lemma doubles_update: "doubles fp xs \<Longrightarrow> rnd64 fp x = x \<Longrightarrow> doubles fp (xs[i := x])"
  unfolding doubles_def by (auto dest!: set_update_subset_insert [THEN subsetD])

text \<open>A rounded step of at most half the way from \<open>a\<close> to \<open>b\<close> does not leave the interval.\<close>

lemma rounded_step:
  assumes fp: "ieee_double fp" and ab: "a \<le> b" and N: "2 \<le> N"
  defines "t \<equiv> rnd64 fp (rnd64 fp (b - a) / N)"
  shows "0 \<le> t" and "t \<le> b - a"
proof -
  have mono: "\<And>x y. x \<le> y \<Longrightarrow> rnd64 fp x \<le> rnd64 fp y"
    and zero: "rnd64 fp 0 = 0" and half: "\<And>x. 0 \<le> x \<Longrightarrow> rnd64 fp (rnd64 fp x / 2) \<le> x"
    using fp by (auto simp: ieee_double_def dest: monoD spec [of _ "0 :: int"])
  have d: "0 \<le> rnd64 fp (b - a)" using mono [of 0 "b - a"] ab zero by simp
  with N have q: "0 \<le> rnd64 fp (b - a) / N" "rnd64 fp (b - a) / N \<le> rnd64 fp (b - a) / 2"
    using divide_left_mono [of 2 N "rnd64 fp (b - a)"] by simp_all
  show "0 \<le> t" using mono [OF q(1)] zero by (simp add: t_def)
  show "t \<le> b - a" using mono [OF q(2)] half [of "b - a"] ab by (simp add: t_def)
qed

lemma rounded_add:
  assumes fp: "ieee_double fp" and "rnd64 fp a = a" and "rnd64 fp b = b" and "a \<le> x" and "x \<le> b"
  shows "a \<le> rnd64 fp x" and "rnd64 fp x \<le> b"
  using assms by (auto simp: ieee_double_def dest: monoD [of "rnd64 fp" a x] monoD [of "rnd64 fp" x b])

text \<open>The linear interpolation lands between the marker and its neighbour.\<close>

lemma qt_linear_up:
  assumes fp: "ieee_double fp" and d: "rnd64 fp (q ! i) = q ! i" "rnd64 fp (q ! (i + 1)) = q ! (i + 1)"
    and q: "q ! i \<le> q ! (i + 1)" and n: "n ! (i + 1) - n ! i > 1"
  shows "q ! i \<le> qt_linear fp i 1 q n \<and> qt_linear fp i 1 q n \<le> q ! (i + 1)"
proof -
  let ?t = "rnd64 fp (rnd64 fp (q ! (i + 1) - q ! i) / real_of_int (n ! (i + 1) - n ! i))"
  have N: "2 \<le> real_of_int (n ! (i + 1) - n ! i)" using n by linarith
  have idem: "\<And>x. rnd64 fp (rnd64 fp x) = rnd64 fp x" using fp by (simp add: ieee_double_def)
  have t: "0 \<le> ?t" "?t \<le> q ! (i + 1) - q ! i" using rounded_step [OF fp q N] by simp_all
  have "qt_linear fp i 1 q n = rnd64 fp (q ! i + ?t)"
    by (simp add: qt_linear_def Let_def idem nat_add_distrib)
  moreover have "q ! i \<le> q ! i + ?t" "q ! i + ?t \<le> q ! (i + 1)" using t by simp_all
  ultimately show ?thesis using rounded_add [OF fp d] by simp
qed

lemma qt_linear_down:
  assumes fp: "ieee_double fp" and d: "rnd64 fp (q ! (i - 1)) = q ! (i - 1)" "rnd64 fp (q ! i) = q ! i"
    and q: "q ! (i - 1) \<le> q ! i" and n: "n ! (i - 1) - n ! i < -1" and i: "0 < i"
  shows "q ! (i - 1) \<le> qt_linear fp i (-1) q n \<and> qt_linear fp i (-1) q n \<le> q ! i"
proof -
  define N where "N = real_of_int (n ! i - n ! (i - 1))"
  let ?t = "rnd64 fp (rnd64 fp (q ! i - q ! (i - 1)) / N)"
  have N: "2 \<le> N" using n unfolding N_def by linarith
  have neg: "real_of_int (n ! (i - 1) - n ! i) = - N" by (simp add: N_def)
  have idem: "\<And>x. rnd64 fp (rnd64 fp x) = rnd64 fp x"
    and odd: "\<And>x. rnd64 fp (- x) = - rnd64 fp x" using fp by (simp_all add: ieee_double_def)
  have t: "0 \<le> ?t" "?t \<le> q ! i - q ! (i - 1)" using rounded_step [OF fp q N] by simp_all
  have j: "nat (int i + - 1) = i - 1" using i by linarith
  have m: "rnd64 fp (q ! (i - 1) - q ! i) = - rnd64 fp (q ! i - q ! (i - 1))"
    using odd [of "q ! i - q ! (i - 1)"] by simp
  have "qt_linear fp i (-1) q n = rnd64 fp (q ! i + rnd64 fp (- (rnd64 fp (q ! i - q ! (i - 1)) / N)))"
    unfolding qt_linear_def Let_def j m neg by (simp add: idem)
  then have "qt_linear fp i (-1) q n = rnd64 fp (q ! i - ?t)" by (simp only: odd) simp
  moreover have "q ! (i - 1) \<le> q ! i - ?t" "q ! i - ?t \<le> q ! i" using t by simp_all
  ultimately show ?thesis using rounded_add [OF fp d] by simp
qed

text \<open>One adjustment keeps the five heights sorted and representable.\<close>

definition qt_ok :: "fpu \<Rightarrow> real list \<Rightarrow> bool" where
  "qt_ok fp q \<longleftrightarrow> qt_heights q \<and> doubles fp q"

lemma qt_ok_update:
  assumes "qt_ok fp q" and "i \<in> {1, 2, 3}" and "rnd64 fp v = v"
    and "q ! (i - 1) \<le> v" and "v \<le> q ! (i + 1)"
  shows "qt_ok fp (q[i := v])"
  using assms by (auto simp: qt_ok_def qt_heights_def doubles_update nth_list_update eval_nat_numeral)

lemma qt_heights_mono:
  "qt_heights q \<Longrightarrow> i \<in> {1, 2, 3} \<Longrightarrow> q ! (i - 1) \<le> q ! i \<and> q ! i \<le> q ! (i + 1) \<and> i + 1 < length q"
  by (auto simp: qt_heights_def eval_nat_numeral)

lemma qt_adjust_ok:
  assumes fp: "ieee_double fp" and ok: "qt_ok fp (qt_q t)" and i: "i \<in> {1, 2, 3}"
  shows "qt_ok fp (qt_q (qt_adjust fp i t))"
proof -
  let ?q = "qt_q t" and ?n = "qt_n t"
  have h: "?q ! (i - 1) \<le> ?q ! i" "?q ! i \<le> ?q ! (i + 1)" "i + 1 < length ?q"
    using qt_heights_mono [of ?q i] ok i by (auto simp: qt_ok_def)
  have idem: "\<And>x. rnd64 fp (rnd64 fp x) = rnd64 fp x" using fp by (simp add: ieee_double_def)
  have db: "\<And>j. j < length ?q \<Longrightarrow> rnd64 fp (?q ! j) = ?q ! j"
    using ok by (auto simp: qt_ok_def intro: doubles_nth)
  have par: "qt_ok fp (?q[i := qt_parabolic fp i d ?q ?n])"
    if "?q ! (i - 1) < qt_parabolic fp i d ?q ?n" "qt_parabolic fp i d ?q ?n < ?q ! (i + 1)" for d
    by (rule qt_ok_update [OF ok i]) (use that in \<open>auto simp: qt_parabolic_def Let_def idem\<close>)
  have lin_rnd: "rnd64 fp (qt_linear fp i d ?q ?n) = qt_linear fp i d ?q ?n" for d
    by (simp add: qt_linear_def Let_def idem)
  have dbs: "rnd64 fp (?q ! (i - 1)) = ?q ! (i - 1)" "rnd64 fp (?q ! i) = ?q ! i"
    "rnd64 fp (?q ! (i + 1)) = ?q ! (i + 1)"
    using h(3) by (auto intro!: db)
  have i0: "0 < i" using i by auto
  have up: "qt_ok fp (?q[i := qt_linear fp i 1 ?q ?n])" if "?n ! (i + 1) - ?n ! i > 1"
    using qt_linear_up [OF fp dbs(2,3) h(2) that] h by (intro qt_ok_update [OF ok i lin_rnd]) auto
  have down: "qt_ok fp (?q[i := qt_linear fp i (-1) ?q ?n])" if "?n ! (i - 1) - ?n ! i < -1"
    using qt_linear_down [OF fp dbs(1,2) h(1) that i0] h by (intro qt_ok_update [OF ok i lin_rnd]) auto
  show ?thesis
    using ok par up down by (auto simp: qt_adjust_def Let_def)
qed

lemma qt_cell_ok:
  assumes "qt_ok fp q" and "rnd64 fp x = x"
  shows "qt_ok fp (fst (qt_cell x q)) \<and> fst (qt_cell x q) ! 0 = min (q ! 0) x \<and>
    fst (qt_cell x q) ! 4 = max (q ! 4) x"
  using assms
  by (auto simp: qt_cell_def qt_ok_def qt_heights_def doubles_update nth_list_update min_def max_def)

lemma get_qt_heights:
  assumes fp: "ieee_double fp" and ok: "qt_ok fp (qt_q t)"
  shows "qt_ok fp (qt_q (get_qt fp p x t)) \<and>
    qt_q (get_qt fp p x t) ! 0 = min (qt_q t ! 0) (rnd64 fp (real (unat x))) \<and>
    qt_q (get_qt fp p x t) ! 4 = max (qt_q t ! 4) (rnd64 fp (real (unat x)))"
proof -
  let ?x = "rnd64 fp (real (unat x))"
  have "rnd64 fp ?x = ?x" using fp by (simp add: ieee_double_def)
  note c = qt_cell_ok [OF ok this]
  show ?thesis
    using c by (simp add: get_qt_def case_prod_beta Let_def qt_adjust_frame qt_adjust_ok [OF fp])
qed

section \<open>The estimator over a sequence of gaps\<close>

definition qt_wf :: "fpu \<Rightarrow> quantile \<Rightarrow> bool" where
  "qt_wf fp t \<longleftrightarrow> length (qt_q t) = 5 \<and> qt_pos (qt_n t) \<and> qt_l t \<le> 5 \<and>
     (\<forall>i < qt_l t. rnd64 fp (qt_q t ! i) = qt_q t ! i) \<and>
     ((\<forall>i < qt_l t. int_valued (qt_q t ! i)) \<or> qt_l t = 5 \<and> sorted (qt_q t))"

lemma qt_wf_full:
  assumes "qt_wf fp t" and "qt_l t = 5"
  shows "\<exists>q. insertSort (qt_q t) = Inr q \<and> mset q = mset (qt_q t) \<and> qt_ok fp q"
proof -
  have len: "length (qt_q t) = 5" and db: "doubles fp (qt_q t)"
    using assms by (auto simp: qt_wf_def doubles_def in_set_conv_nth)
  have "\<exists>q. insertSort (qt_q t) = Inr q \<and> mset q = mset (qt_q t) \<and> sorted q"
  proof (cases "sorted (qt_q t)")
    case True
    with insertSort_sorted [OF True len] show ?thesis by simp
  next
    case False
    with assms len have "\<forall>x \<in> set (qt_q t). int_valued x"
      by (auto simp: qt_wf_def in_set_conv_nth)
    then show ?thesis using len by (rule insertSort_correct)
  qed
  then obtain q where q: "insertSort (qt_q t) = Inr q" "mset q = mset (qt_q t)" "sorted q"
    by blast
  from q(2) len have "length q = 5" "set q = set (qt_q t)"
    by (metis size_mset, metis set_mset_mset)
  with q db show ?thesis by (auto simp: qt_ok_def qt_heights_sorted doubles_def)
qed

text \<open>The value a gap is recorded as: signed among the first five, unsigned afterwards.\<close>

definition gap_value :: "fpu \<Rightarrow> nat \<Rightarrow> u64 \<Rightarrow> real" where
  "gap_value fp i g = rnd64 fp (if i < 5 then real_of_int (sint g) else real (unat g))"

text \<open>\<open>qt_seen fp t vs\<close>: the estimator state after the values \<open>vs\<close>.\<close>

definition qt_seen :: "quantile \<Rightarrow> real list \<Rightarrow> bool" where
  "qt_seen t vs \<longleftrightarrow> qt_l t = min 5 (length vs) \<and> qt_n t ! 4 = int (max 5 (length vs)) \<and>
     (length vs \<le> 5 \<longrightarrow> take (length vs) (qt_q t) = vs) \<and>
     (5 \<le> length vs \<longrightarrow> Min (set (qt_q t)) = Min (set vs) \<and> Max (set (qt_q t)) = Max (set vs)) \<and>
     (5 < length vs \<longrightarrow> sorted (qt_q t))"

lemma sorted_5_Min_Max:
  assumes "sorted q" and "length q = 5"
  shows "Min (set q) = (q ! 0 :: real) \<and> Max (set q) = q ! 4"
proof -
  from assms(2) obtain a b c d e where q: "q = [a, b, c, d, e]" by (auto simp: length_5)
  from assms(1) show ?thesis unfolding q by (auto simp: min_def max_def)
qed

lemma ieee_double_int: "ieee_double fp \<Longrightarrow> fits_int i \<Longrightarrow> rnd64 fp (real_of_int i) = real_of_int i"
  unfolding ieee_double_def fits_int_def by (auto simp del: of_int_sint)

lemma int_valued_of_int: "fits_int i \<Longrightarrow> int_valued (real_of_int i)"
  unfolding int_valued_def by blast

lemma qt_feed_step:
  assumes fp: "ieee_double fp" and wf: "qt_wf fp t" and seen: "qt_seen t vs"
    and fits: "length vs < 5 \<Longrightarrow> fits_int (sint g)"
  shows "\<exists>t'. qt_feed fp p g t = Inr t' \<and> qt_wf fp t' \<and>
    qt_seen t' (vs @ [gap_value fp (length vs) g])"
proof (cases "length vs < 5")
  case True
  let ?v = "rnd64 fp (real_of_int (sint g))"
  have l: "qt_l t = length vs" and len: "length (qt_q t) = 5" using True seen wf
    by (auto simp: qt_seen_def qt_wf_def)
  have v: "?v = real_of_int (sint g)" by (rule ieee_double_int [OF fp fits [OF True]])
  have iv: "int_valued ?v" unfolding v by (rule int_valued_of_int [OF fits [OF True]])
  have db: "rnd64 fp ?v = ?v" using fp by (simp add: ieee_double_def)
  let ?t = "t\<lparr>qt_q := (qt_q t)[qt_l t := ?v], qt_l := qt_l t + 1\<rparr>"
  have tk: "take (Suc (length vs)) ((qt_q t)[length vs := ?v]) = vs @ [?v]"
    using True seen len by (simp add: qt_seen_def take_Suc_conv_app_nth)
  have "qt_wf fp ?t"
    using wf iv db True l by (auto simp: qt_wf_def nth_list_update less_Suc_eq)
  moreover have "qt_seen ?t (vs @ [?v])"
    using seen True l len tk by (auto simp: qt_seen_def)
  ultimately show ?thesis using True l by (simp add: qt_feed_def gap_value_def)
next
  case False
  have l: "qt_l t = 5" using False seen by (simp add: qt_seen_def)
  obtain q where q: "insertSort (qt_q t) = Inr q" "mset q = mset (qt_q t)" "qt_ok fp q"
    using qt_wf_full [OF wf l] by blast
  let ?t = "get_qt fp p g (t\<lparr>qt_q := q\<rparr>)" and ?v = "rnd64 fp (real (unat g))"
  have h: "qt_ok fp (qt_q ?t)" "qt_q ?t ! 0 = min (q ! 0) ?v" "qt_q ?t ! 4 = max (q ! 4) ?v"
    using get_qt_heights [OF fp, of "t\<lparr>qt_q := q\<rparr>"] q(3) by simp_all
  have n: "qt_pos (qt_n ?t)" "qt_n ?t ! 4 = qt_n t ! 4 + 1"
    using get_qt_positions [of "t\<lparr>qt_q := q\<rparr>"] wf by (simp_all add: qt_wf_def)
  have len5: "length q = 5" "length (qt_q ?t) = 5"
    using q(3) h(1) by (simp_all add: qt_ok_def qt_heights_def)
  have srt: "sorted q" "sorted (qt_q ?t)"
    using q(3) h(1) len5 by (simp_all add: qt_ok_def qt_heights_sorted)
  have vs: "vs \<noteq> []" "set vs \<noteq> {}" using False by auto
  have "set q = set (qt_q t)" using q(2) by (metis set_mset_mset)
  with False seen have "Min (set q) = Min (set vs)" "Max (set q) = Max (set vs)"
    by (simp_all add: qt_seen_def)
  with sorted_5_Min_Max [OF srt(1) len5(1)] sorted_5_Min_Max [OF srt(2) len5(2)] h(2,3) vs
  have mm: "Min (set (qt_q ?t)) = Min (set (vs @ [?v]))" "Max (set (qt_q ?t)) = Max (set (vs @ [?v]))"
    by (simp_all add: min.commute max.commute)
  have "qt_wf fp ?t"
    using h(1) n(1) len5 srt l by (auto simp: qt_wf_def qt_ok_def doubles_nth)
  moreover have "qt_seen ?t (vs @ [?v])"
    using seen False l n(2) mm srt by (auto simp: qt_seen_def)
  ultimately show ?thesis using l q(1) False by (simp add: qt_feed_def gap_value_def)
qed

definition gap_values :: "fpu \<Rightarrow> u64 list \<Rightarrow> real list" where
  "gap_values fp gs = map (\<lambda>i. gap_value fp i (gs ! i)) [0..<length gs]"

lemma length_gap_values [simp]: "length (gap_values fp gs) = length gs"
  by (simp add: gap_values_def)

lemma gap_values_snoc: "gap_values fp (gs @ [g]) = gap_values fp gs @ [gap_value fp (length gs) g]"
  by (simp add: gap_values_def nth_append)

lemma qt_init_start:
  "length (qt_q t) = 5 \<Longrightarrow> qt_l t = 0 \<Longrightarrow> qt_wf fp (qt_init fp p t) \<and> qt_seen (qt_init fp p t) []"
  by (simp add: qt_wf_def qt_seen_def qt_init_def Let_def qt_pos_def)

lemma qt_feed_run:
  assumes fp: "ieee_double fp" and t: "length (qt_q t) = 5" "qt_l t = 0"
    and fits: "\<forall>g \<in> set (take 5 gs). fits_int (sint g)"
  shows "\<exists>t'. run (qt_feed fp p) gs (qt_init fp p t) = Inr t' \<and> qt_wf fp t' \<and>
    qt_seen t' (gap_values fp gs)"
  using fits
proof (induction gs rule: rev_induct)
  case Nil
  then show ?case using qt_init_start [OF t] by (simp add: gap_values_def)
next
  case (snoc g gs)
  have "\<forall>g \<in> set (take 5 gs). fits_int (sint g)" using snoc.prems by simp
  then obtain t1 where t1: "run (qt_feed fp p) gs (qt_init fp p t) = Inr t1"
    "qt_wf fp t1" "qt_seen t1 (gap_values fp gs)" using snoc.IH by blast
  have f: "fits_int (sint g)" if "length (gap_values fp gs) < 5" using snoc.prems that by simp
  have "\<exists>t'. qt_feed fp p g t1 = Inr t' \<and> qt_wf fp t' \<and>
    qt_seen t' (gap_values fp gs @ [gap_value fp (length (gap_values fp gs)) g])"
    by (rule qt_feed_step [OF fp t1(2,3) f])
  then show ?case using t1(1) by (auto simp: run_append gap_values_snoc)
qed

section \<open>Properties\<close>


definition qt_zero :: quantile where
  "qt_zero = \<lparr>qt_q = [0, 0, 0, 0, 0], qt_l = 0, qt_n = [0, 0, 0, 0, 0], qt_n1 = [0, 0, 0, 0, 0]\<rparr>"


text \<open>
  \<^verbatim>\<open>insertSort\<close>, although it swaps through an \<^verbatim>\<open>int\<close> variable, returns a sorted
  permutation of its five values whenever they are integers that fit an \<^verbatim>\<open>int\<close>, and it leaves an
  already sorted array of any five doubles untouched, so the repeated calls once the markers are
  in use are harmless.
\<close>

theorem insertSort_sorts:
  assumes "length a = 5" and "(\<forall>x \<in> set a. int_valued x) \<or> sorted a"
  shows "\<exists>b. insertSort a = Inr b \<and> mset b = mset a \<and> sorted b \<and> (sorted a \<longrightarrow> b = a)"
proof (cases "sorted a")
  case True
  with insertSort_sorted [OF True assms(1)] show ?thesis by simp
next
  case False
  with assms insertSort_correct show ?thesis by blast
qed

theorem insertSort_sorts_witness:
  "\<exists>b. insertSort [5, 3, 9, 1, 3] = Inr b \<and> mset b = mset [5, 3, 9, 1, 3] \<and> sorted b"
proof -
  have "int_valued 5" "int_valued 3" "int_valued 9" "int_valued 1"
    using int_valued_of_int [of 5] int_valued_of_int [of 3] int_valued_of_int [of 9]
      int_valued_of_int [of 1] by (simp_all add: fits_int_def)
  then show ?thesis using insertSort_sorts [of "[5, 3, 9, 1, 3]"] by auto
qed

text \<open>
  The \<^verbatim>\<open>int\<close> swap variable of \<^verbatim>\<open>insertSort\<close> corrupts fractional values: a value that has to
  move loses its fraction, and the sorted order can be lost with it, because truncation rounds
  negative values up.
\<close>

theorem insertSort_truncates:
  "insertSort [2.5, 1.5, 3, 4, 5] = Inr [1, 2.5, 3, 4, 5] \<and>
   insertSort [-2.2, -2.5, 0, 0, 0] = Inr [-2, -2.2, 0, 0, 0]"
  by (simp add: insertSort_def trunc_def fits_int_def Let_def numeral_2_eq_2 numeral_3_eq_3 eval_nat_numeral)

text \<open>
  The desired marker positions follow the P-square schedule. In exact arithmetic, after
  \<open>m\<close> calls of \<^verbatim>\<open>get_qt\<close> they are the initial positions plus \<open>m\<close> times the increments
  \<open>0, p/2, p, (1+p)/2, 1\<close>.
\<close>

theorem quantile_desired_positions:
  "qt_n1 (fold (get_qt exact_fpu p) xs (qt_init exact_fpu p t)) =
     [1, 1 + 2 * p + real (length xs) * (p / 2), 1 + 4 * p + real (length xs) * p,
      3 + 2 * p + real (length xs) * ((1 + p) / 2), 5 + real (length xs)]"
proof (induction xs rule: rev_induct)
  case Nil
  show ?case by (simp add: qt_init_def Let_def)
next
  case (snoc x xs)
  then show ?case
    by (simp add: get_qt_desired qt_desired_def qt_dn_def Let_def field_simps)
qed

end
