(* ===== verification/Flow_Bucket.thy ===== *)
theory Flow_Bucket
  imports Rss "HOL-Library.Multiset"
begin

text \<open>
  The contract of a bucket of the flow table, and what it implies for runs of packets. The three
  data structures of the program (two slots, a linked list, two slots with an overflow list)
  provide it; the flow table, an array of \<open>FLOW_NUM\<close> buckets indexed by the low half of the RSS
  hash, is its client.
\<close>

section \<open>The flow table\<close>

text \<open>
  \<^verbatim>\<open>pkt_ctr[FLOW_NUM]\<close> (or \<^verbatim>\<open>flows[FLOW_NUM]\<close>) as a function of the index. \<open>slot\<close> computes the
  index of an event, \<open>upd\<close> is the per-packet code on the bucket; an index outside the array is
  undefined behaviour.
\<close>

definition table_upd ::
  "('e \<Rightarrow> nat) \<Rightarrow> ('e \<Rightarrow> 'b \<Rightarrow> fw_error + 'b) \<Rightarrow> 'e \<Rightarrow> (nat \<Rightarrow> 'b) \<Rightarrow> fw_error + (nat \<Rightarrow> 'b)"
where
  "table_upd slot upd e t =
     (if slot e < FLOW_NUM then
        (case upd e (t (slot e)) of
           Inl x \<Rightarrow> Inl x
         | Inr b \<Rightarrow> Inr (t(slot e := b)))
      else Inl (Undefined ''flow table index out of range''))"

lemma table_updE:
  assumes "table_upd slot upd e t = Inr t'"
  obtains b where "slot e < FLOW_NUM" "upd e (t (slot e)) = Inr b" "t' = t(slot e := b)"
  using assms by (auto simp: table_upd_def split: if_splits sum.splits)

lemma table_updI:
  "upd e (t (slot e)) = Inr b \<Longrightarrow> slot e < FLOW_NUM \<Longrightarrow> table_upd slot upd e t = Inr (t(slot e := b))"
  by (simp add: table_upd_def)

text \<open>A bucket only sees the packets of its own index.\<close>

lemma run_table:
  assumes "run (table_upd slot upd) es t = Inr t'"
  shows "run upd (filter (\<lambda>e. slot e = i) es) (t i) = Inr (t' i)"
  using assms
proof (induction es arbitrary: t)
  case Nil
  then show ?case by simp
next
  case (Cons e es)
  from Cons.prems obtain u where u: "table_upd slot upd e t = Inr u"
    "run (table_upd slot upd) es u = Inr t'" by (rule run_ConsE)
  from u(1) obtain b where b: "upd e (t (slot e)) = Inr b" "u = t(slot e := b)"
    by (rule table_updE)
  from Cons.IH [OF u(2)] b show ?case by auto
qed

lemma run_table_untouched:
  assumes "run (table_upd slot upd) es t = Inr t'" and "i \<notin> slot ` set es"
  shows "t' i = t i"
proof -
  have "filter (\<lambda>e. slot e = i) es = []" using assms(2) by (auto simp: filter_empty_conv)
  with run_table [OF assms(1), of i] show ?thesis by simp
qed

text \<open>The table run succeeds exactly when every bucket's own run does.\<close>

lemma run_table_exists:
  assumes "\<And>e. e \<in> set es \<Longrightarrow> slot e < FLOW_NUM"
    and "\<And>i. \<exists>b. run upd (filter (\<lambda>e. slot e = i) es) (t i) = Inr b"
  shows "\<exists>t'. run (table_upd slot upd) es t = Inr t'"
  using assms
proof (induction es arbitrary: t)
  case Nil
  then show ?case by simp
next
  case (Cons e es)
  from Cons.prems(2) [of "slot e"] obtain b where b: "upd e (t (slot e)) = Inr b"
    by (auto split: sum.splits)
  have "\<exists>c. run upd (filter (\<lambda>e. slot e = i) es) ((t(slot e := b)) i) = Inr c" for i
    using Cons.prems(2) [of i] b by (auto split: if_splits)
  then have "\<exists>t'. run (table_upd slot upd) es (t(slot e := b)) = Inr t'"
    by (intro Cons.IH) (use Cons.prems(1) in auto)
  then obtain t' where "run (table_upd slot upd) es (t(slot e := b)) = Inr t'" by blast
  moreover have "table_upd slot upd e t = Inr (t(slot e := b))"
    by (rule table_updI) (use b Cons.prems(1) in auto)
  ultimately show ?case by simp
qed

section \<open>Order of packets of different buckets\<close>

text \<open>
  Two runs that give every bucket the same packets in the same order end in the same table:
  the interleaving of packets of different buckets does not matter.
\<close>

lemma run_table_cong:
  assumes "run (table_upd slot upd) es t = Inr u" and "run (table_upd slot upd) es' t = Inr u'"
    and "\<And>i. filter (\<lambda>e. slot e = i) es = filter (\<lambda>e. slot e = i) es'"
  shows "u = u'"
proof
  fix i
  show "u i = u' i"
    using run_table [OF assms(1), of i] run_table [OF assms(2), of i] assms(3) [of i] by simp
qed

text \<open>
  When the receive queue of a packet is a function of its bucket index, every interleaving of
  the queues' packet sequences keeps the sequence of each bucket.
\<close>

lemma filter_shuffle_left:
  assumes "zs \<in> shuffles xs ys" and "filter P ys = []"
  shows "filter P zs = filter P xs"
proof -
  have "filter P zs \<in> shuffles (filter P xs) (filter P ys)"
    using assms(1) filter_shuffles [of P xs ys] by blast
  with assms(2) show ?thesis by simp
qed

section \<open>The contract\<close>

text \<open>
  \<open>cnt b k\<close> is the counter the bucket keeps for flow \<open>k\<close> (as a machine word), \<open>tracked b\<close> the
  flows it has an entry for and \<open>full b\<close> says that no further flow can get one. \<open>valid e\<close> is
  the condition on packets under which the contract holds.
\<close>

locale flow_bucket =
  fixes upd :: "'e \<Rightarrow> 'b \<Rightarrow> fw_error + 'b"
    and key :: "'e \<Rightarrow> 'k"
    and valid :: "'e \<Rightarrow> bool"
    and wf :: "'b \<Rightarrow> bool"
    and cnt :: "'b \<Rightarrow> 'k \<Rightarrow> 'w::len word"
    and tracked :: "'b \<Rightarrow> 'k set"
    and full :: "'b \<Rightarrow> bool"
  assumes upd_wf: "wf b \<Longrightarrow> valid e \<Longrightarrow> upd e b = Inr b' \<Longrightarrow> wf b'"
    and upd_hit: "wf b \<Longrightarrow> valid e \<Longrightarrow> upd e b = Inr b' \<Longrightarrow> key e \<in> tracked b \<or> \<not> full b \<Longrightarrow>
      tracked b' = insert (key e) (tracked b) \<and> cnt b' = (cnt b)(key e := cnt b (key e) + 1)"
    and upd_miss: "wf b \<Longrightarrow> valid e \<Longrightarrow> upd e b = Inr b' \<Longrightarrow> key e \<notin> tracked b \<Longrightarrow> full b \<Longrightarrow>
      tracked b' = tracked b \<and> cnt b' = cnt b"
    and upd_full: "wf b \<Longrightarrow> valid e \<Longrightarrow> upd e b = Inr b' \<Longrightarrow> full b \<Longrightarrow> full b'"
begin

lemma run_wf:
  assumes "run upd es b = Inr b'" and "wf b" and "\<forall>e \<in> set es. valid e"
  shows "wf b'"
  using assms by (elim run_invariant) (auto intro: upd_wf)

lemma full_tracked:
  assumes "run upd es b = Inr b'" and "wf b" and "full b" and "\<forall>e \<in> set es. valid e"
  shows "tracked b' = tracked b"
proof -
  have "wf b' \<and> full b' \<and> tracked b' = tracked b"
    using assms(1)
  proof (rule run_invariant)
    fix e s s'
    assume "e \<in> set es" and I: "wf s \<and> full s \<and> tracked s = tracked b" and u: "upd e s = Inr s'"
    with assms(4) have v: "valid e" by simp
    have "tracked s' = tracked s"
    proof (cases "key e \<in> tracked s")
      case True
      with upd_hit [of s e s'] I u v show ?thesis by auto
    next
      case False
      with upd_miss [of s e s'] I u v show ?thesis by auto
    qed
    then show "wf s' \<and> full s' \<and> tracked s' = tracked b"
      using upd_wf [OF _ v u] upd_full [OF _ v u] I by auto
  qed (use assms(2,3) in auto)
  then show ?thesis by simp
qed

text \<open>
  The counter of a flow that has an entry at the end is its starting value plus the number of
  the flow's packets: a flow that ever gets an entry gets it with its first packet.
\<close>

lemma run_cnt:
  assumes "run upd es b = Inr b'" and "wf b" and "\<forall>e \<in> set es. valid e" and "k \<in> tracked b'"
  shows "cnt b' k = cnt b k + of_nat (count_list (map key es) k)"
  using assms
proof (induction es arbitrary: b)
  case Nil
  then show ?case by simp
next
  case (Cons e es)
  from Cons.prems(1) obtain c where c: "upd e b = Inr c" "run upd es c = Inr b'"
    by (rule run_ConsE)
  have v: "valid e" "\<forall>e \<in> set es. valid e" using Cons.prems(3) by auto
  note wfc = upd_wf [OF Cons.prems(2) v(1) c(1)]
  have IH: "cnt b' k = cnt c k + of_nat (count_list (map key es) k)"
    by (rule Cons.IH [OF c(2) wfc v(2) Cons.prems(4)])
  show ?case
  proof (cases "key e \<in> tracked b \<or> \<not> full b")
    case True
    from upd_hit [OF Cons.prems(2) v(1) c(1) True] IH show ?thesis by (auto simp: algebra_simps)
  next
    case False
    then have miss: "tracked c = tracked b" "cnt c = cnt b"
      using upd_miss [OF Cons.prems(2) v(1) c(1)] by auto
    have "full c" using upd_full [OF Cons.prems(2) v(1) c(1)] False by simp
    with full_tracked [OF c(2) wfc] v(2) miss(1) Cons.prems(4) have "k \<in> tracked b" by simp
    with False have "key e \<noteq> k" by auto
    with IH miss(2) show ?thesis by simp
  qed
qed

lemma run_tracked_subset:
  assumes "run upd es b = Inr b'" and "wf b" and "\<forall>e \<in> set es. valid e"
  shows "tracked b \<subseteq> tracked b' \<and> tracked b' \<subseteq> tracked b \<union> key ` set es"
  using assms
proof (induction es arbitrary: b)
  case Nil
  then show ?case by simp
next
  case (Cons e es)
  from Cons.prems(1) obtain c where c: "upd e b = Inr c" "run upd es c = Inr b'"
    by (rule run_ConsE)
  have v: "valid e" "\<forall>e \<in> set es. valid e" using Cons.prems(3) by auto
  from Cons.IH [OF c(2) upd_wf [OF Cons.prems(2) v(1) c(1)] v(2)]
    upd_hit [OF Cons.prems(2) v(1) c(1)] upd_miss [OF Cons.prems(2) v(1) c(1)]
  show ?case by (cases "key e \<in> tracked b \<or> \<not> full b") auto
qed

end

section \<open>The contract, table-wide\<close>

context flow_bucket
begin

lemma table_wf:
  assumes "run (table_upd slot upd) es t = Inr t'" and "wf (t i)" and "\<forall>e \<in> set es. valid e"
  shows "wf (t' i)"
  by (rule run_wf [OF run_table [OF assms(1)] assms(2)]) (use assms(3) in auto)

lemma table_cnt:
  assumes "run (table_upd slot upd) es t = Inr t'" and "wf (t i)" and "\<forall>e \<in> set es. valid e"
    and "k \<in> tracked (t' i)"
  shows "cnt (t' i) k = cnt (t i) k + of_nat (count_list (map key (filter (\<lambda>e. slot e = i) es)) k)"
  by (rule run_cnt [OF run_table [OF assms(1)] assms(2) _ assms(4)]) (use assms(3) in auto)

lemma table_tracked_subset:
  assumes "run (table_upd slot upd) es t = Inr t'" and "wf (t i)" and "\<forall>e \<in> set es. valid e"
  shows "tracked (t i) \<subseteq> tracked (t' i)"
    and "tracked (t' i) \<subseteq> tracked (t i) \<union> key ` {e \<in> set es. slot e = i}"
  using run_tracked_subset [OF run_table [OF assms(1)] assms(2)] assms(3) by auto

text \<open>A bucket that is not full at the end has an entry for every flow it saw.\<close>

lemma run_not_full:
  assumes "run upd es b = Inr b'" and "wf b" and "\<forall>e \<in> set es. valid e" and "\<not> full b'"
  shows "tracked b' = tracked b \<union> key ` set es"
  using assms
proof (induction es arbitrary: b)
  case Nil
  then show ?case by simp
next
  case (Cons e es)
  from Cons.prems(1) obtain c where c: "upd e b = Inr c" "run upd es c = Inr b'"
    by (rule run_ConsE)
  have v: "valid e" "\<forall>e \<in> set es. valid e" using Cons.prems(3) by auto
  note wfc = upd_wf [OF Cons.prems(2) v(1) c(1)]
  have "wf b' \<and> full b'" if "full c"
    using c(2) by (rule run_invariant) (use wfc that v(2) upd_wf upd_full in auto)
  with Cons.prems(4) have "\<not> full c" by blast
  then have "\<not> full b" using upd_full [OF Cons.prems(2) v(1) c(1)] by blast
  with Cons.IH [OF c(2) wfc v(2) Cons.prems(4)] upd_hit [OF Cons.prems(2) v(1) c(1)]
  show ?case by auto
qed

end

section \<open>Buckets that count what they do not track\<close>

locale audited_bucket = flow_bucket +
  fixes lost :: "'b \<Rightarrow> 'c::len word"
  assumes lost_hit: "wf b \<Longrightarrow> valid e \<Longrightarrow> upd e b = Inr b' \<Longrightarrow> key e \<in> tracked b \<or> \<not> full b \<Longrightarrow>
      lost b' = lost b"
    and lost_miss: "wf b \<Longrightarrow> valid e \<Longrightarrow> upd e b = Inr b' \<Longrightarrow> key e \<notin> tracked b \<Longrightarrow> full b \<Longrightarrow>
      lost b' = lost b + 1"
begin

lemma run_lost:
  assumes "run upd es b = Inr b'" and "wf b" and "\<forall>e \<in> set es. valid e"
  shows "lost b' = lost b + of_nat (length (filter (\<lambda>e. key e \<notin> tracked b') es))"
  using assms
proof (induction es arbitrary: b)
  case Nil
  then show ?case by simp
next
  case (Cons e es)
  from Cons.prems(1) obtain c where c: "upd e b = Inr c" "run upd es c = Inr b'"
    by (rule run_ConsE)
  have v: "valid e" "\<forall>e \<in> set es. valid e" using Cons.prems(3) by auto
  note wfc = upd_wf [OF Cons.prems(2) v(1) c(1)]
  have IH: "lost b' = lost c + of_nat (length (filter (\<lambda>e. key e \<notin> tracked b') es))"
    by (rule Cons.IH [OF c(2) wfc v(2)])
  show ?case
  proof (cases "key e \<in> tracked b \<or> \<not> full b")
    case True
    then have "key e \<in> tracked c" using upd_hit [OF Cons.prems(2) v(1) c(1)] by simp
    then have "key e \<in> tracked b'" using run_tracked_subset [OF c(2) wfc v(2)] by blast
    with IH lost_hit [OF Cons.prems(2) v(1) c(1) True] show ?thesis by simp
  next
    case False
    then have "tracked c = tracked b" "full c" "lost c = lost b + 1"
      using upd_miss [OF Cons.prems(2) v(1) c(1)] upd_full [OF Cons.prems(2) v(1) c(1)]
        lost_miss [OF Cons.prems(2) v(1) c(1)] by auto
    with full_tracked [OF c(2) wfc] v(2) False IH show ?thesis by (simp add: algebra_simps)
  qed
qed

end

section \<open>Buckets that track every flow\<close>

locale exact_bucket = flow_bucket +
  assumes not_full: "wf b \<Longrightarrow> \<not> full b"
begin

lemma run_tracked:
  assumes "run upd es b = Inr b'" and "wf b" and "\<forall>e \<in> set es. valid e"
  shows "tracked b' = tracked b \<union> key ` set es"
  using assms
proof (induction es arbitrary: b)
  case Nil
  then show ?case by simp
next
  case (Cons e es)
  from Cons.prems(1) obtain c where c: "upd e b = Inr c" "run upd es c = Inr b'"
    by (rule run_ConsE)
  have v: "valid e" "\<forall>e \<in> set es. valid e" using Cons.prems(3) by auto
  from Cons.IH [OF c(2) upd_wf [OF Cons.prems(2) v(1) c(1)] v(2)]
    upd_hit [OF Cons.prems(2) v(1) c(1)] not_full [OF Cons.prems(2)]
  show ?case by auto
qed

lemma run_cnt_exact:
  assumes "run upd es b = Inr b'" and "wf b" and "\<forall>e \<in> set es. valid e"
  shows "cnt b' k = cnt b k + of_nat (count_list (map key es) k)"
  using assms
proof (induction es arbitrary: b)
  case Nil
  then show ?case by simp
next
  case (Cons e es)
  from Cons.prems(1) obtain c where c: "upd e b = Inr c" "run upd es c = Inr b'"
    by (rule run_ConsE)
  have v: "valid e" "\<forall>e \<in> set es. valid e" using Cons.prems(3) by auto
  from Cons.IH [OF c(2) upd_wf [OF Cons.prems(2) v(1) c(1)] v(2)]
    upd_hit [OF Cons.prems(2) v(1) c(1)] not_full [OF Cons.prems(2)]
  show ?case by (auto simp: algebra_simps)
qed

end

end
