(* ===== verification/Flow_Records.thy ===== *)
theory Flow_Records
  imports Quantile Flow_Bucket
begin

text \<open>
  The structures of the flow table and the inter-packet-gap arithmetic its per-packet code shares.
  The preprocessor switches \<^verbatim>\<open>IPG\<close> and \<^verbatim>\<open>QUANTILE\<close> are flags of a configuration, so one
  definition covers every build of a function.
\<close>

section \<open>Build configuration\<close>

record cfg =
  c_ipg :: bool
  c_quantile :: bool
  c_p :: real
  c_fpu :: fpu

section \<open>Structures\<close>

text \<open>
  \<^verbatim>\<open>struct pkt_count\<close>. The type \<open>'c\<close> of the counters is a 32-bit word in the run-to-completion and
  L-thread versions and a 64-bit word in the pthread version. The fields \<^verbatim>\<open>stdDev\<close> and \<^verbatim>\<open>qt\<close>, which only some
  versions have, are record extensions.
\<close>

record 'c pkt_count =
  hi_f1 :: u16
  hi_f2 :: u16
  ctr :: "'c list"
  ipg :: "u64 list"
  avg :: "real list"

record 'c pkt_count_sd = "'c pkt_count" +
  stdDev :: "real list"

record 'c pkt_count_qt = "'c pkt_count_sd" +
  qt :: "quantile list"

text \<open>\<^verbatim>\<open>struct flow_entry\<close>; the \<^verbatim>\<open>next\<close> pointers are the order of a list of entries.\<close>

record 'c flow_entry =
  rss_high :: u16
  e_ctr :: 'c
  e_ipg :: u64
  e_avg :: real

record 'c flow_entry_sd = "'c flow_entry" +
  e_stdDev :: real

text \<open>The bucket of the \<^verbatim>\<open>HASH_LIST\<close> builds: two slots and an overflow list.\<close>

record 'c hl_count = "'c pkt_count_qt" +
  hl_flows :: "'c flow_entry_sd list"

section \<open>Inter-packet gap arithmetic\<close>

text \<open>
  \<^verbatim>\<open>curr = global - 1 - ipg\<close>: the subtraction is made in \<^verbatim>\<open>uint64_t\<close> and the result read as
  \<^verbatim>\<open>int64_t\<close>.
\<close>

definition gap :: "u64 \<Rightarrow> u64 \<Rightarrow> u64" where
  "gap global prev = global - 1 - prev"

lemma sint_gap:
  assumes g: "unat g < 2 ^ 62" and p: "unat p < 2 ^ 62"
  shows "sint (gap g p) = int (unat g) - 1 - int (unat p)"
proof -
  define a b where "a = int (unat g)" and "b = int (unat p)"
  have "unat g < 4611686018427387904" "unat p < 4611686018427387904" using g p by simp_all
  then have "a < 4611686018427387904" "b < 4611686018427387904" "0 \<le> a" "0 \<le> b"
    unfolding a_def b_def by linarith+
  then have "sint (word_of_int (a - 1 - b) :: u64) = a - 1 - b"
    by (intro sint_of_int_small) simp_all
  moreover have "gap g p = word_of_int (a - 1 - b)" by (simp add: gap_def a_def b_def)
  ultimately show ?thesis by (simp only: a_def b_def)
qed

text \<open>\<^verbatim>\<open>(avg * (ctr - 1) + curr) / (float)ctr\<close>, and the same without the cast of the divisor.\<close>

definition mean_num :: "fpu \<Rightarrow> real \<Rightarrow> 'w::len word \<Rightarrow> u64 \<Rightarrow> real" where
  "mean_num fp a c cur =
     rnd64 fp (rnd64 fp (a * rnd64 fp (real (unat (c - 1)))) + rnd64 fp (real_of_int (sint cur)))"

definition mean_float :: "fpu \<Rightarrow> real \<Rightarrow> 'w::len word \<Rightarrow> u64 \<Rightarrow> real" where
  "mean_float fp a c cur = rnd64 fp (mean_num fp a c cur / rnd32 fp (real (unat c)))"

definition mean_double :: "fpu \<Rightarrow> real \<Rightarrow> 'w::len word \<Rightarrow> u64 \<Rightarrow> real" where
  "mean_double fp a c cur = rnd64 fp (mean_num fp a c cur / rnd64 fp (real (unat c)))"

text \<open>\<^verbatim>\<open>sqrt(pow(curr - avg, 2))\<close>\<close>

definition std_dev :: "fpu \<Rightarrow> real \<Rightarrow> u64 \<Rightarrow> real" where
  "std_dev fp a cur =
     rnd64 fp (sqrt (rnd64 fp ((rnd64 fp (rnd64 fp (real_of_int (sint cur)) - a)) ^ 2)))"

text \<open>\<^verbatim>\<open>global = 0; while (qNum > 0) global += re[--qNum];\<close>\<close>

fun sum_rings :: "nat \<Rightarrow> u64 list \<Rightarrow> u64 \<Rightarrow> u64" where
  "sum_rings 0 re global = global"
| "sum_rings (Suc q) re global = sum_rings q re (global + re ! q)"

lemma sum_rings_acc: "sum_rings n re g = g + sum_rings n re 0"
proof (induction n arbitrary: g)
  case 0
  then show ?case by simp
next
  case (Suc n)
  show ?case using Suc [of "g + re ! n"] Suc [of "re ! n"] by (simp add: algebra_simps)
qed

lemma sum_rings_sum_list: "n \<le> length re \<Longrightarrow> sum_rings n re 0 = sum_list (take n re)"
proof (induction n)
  case 0
  then show ?case by simp
next
  case (Suc n)
  then show ?case using sum_rings_acc [of n re "re ! n"] by (simp add: take_Suc_conv_app_nth)
qed

section \<open>Packets, per-queue counters and the state of a monitoring loop\<close>

text \<open>What the loops read of an \<^verbatim>\<open>rte_mbuf\<close>; \<open>mb_id\<close> tells buffers apart.\<close>

record mbuf =
  mb_id :: nat
  rss :: u32

text \<open>
  The state a monitoring loop works on: the per-queue packet counters (\<^verbatim>\<open>re\<close> or \<^verbatim>\<open>gCtr\<close>), the
  variable \<^verbatim>\<open>global\<close>, the flow table and the sequence of buffers handed to \<^verbatim>\<open>rte_pktmbuf_free\<close>.
\<close>

record 'b mon_state =
  rings :: "u64 list"
  glob :: u64
  tbl :: "nat \<Rightarrow> 'b"
  freed :: "mbuf list"

text \<open>The number of receive queues of the run-to-completion version.\<close>

definition RTC_RX_RINGS :: nat where
  "RTC_RX_RINGS = 1"

text \<open>\<^verbatim>\<open>re[q] += nb_rx\<close>, and the sum over the first \<open>n\<close> queues; both index the array unchecked.\<close>

definition ring_add :: "nat \<Rightarrow> nat \<Rightarrow> u64 list \<Rightarrow> fw_error + u64 list" where
  "ring_add q nb_rx re =
     (if q < length re then Inr (re[q := re ! q + of_nat nb_rx])
      else Inl (Undefined ''queue counter index out of range''))"

definition ring_total :: "nat \<Rightarrow> u64 list \<Rightarrow> fw_error + u64" where
  "ring_total n re =
     (if n \<le> length re then Inr (sum_rings n re 0)
      else Inl (Undefined ''queue counter index out of range''))"

lemma ring_addE:
  assumes "ring_add q n re = Inr re'"
  shows "q < length re \<and> re' = re[q := re ! q + of_nat n]"
  using assms by (simp add: ring_add_def split: if_splits)

lemma ring_add_sum: "ring_add q n re = Inr re' \<Longrightarrow> sum_list re' = sum_list re + of_nat n"
proof -
  have "sum_list (re[q := re ! q + x]) = sum_list re + x" if "q < length re" for x :: u64
    using that by (induction re arbitrary: q) (auto simp: algebra_simps split: nat.split)
  then show "ring_add q n re = Inr re' \<Longrightarrow> ?thesis" by (auto dest: ring_addE)
qed

lemma ring_total_all: "ring_total (length re) re = Inr (sum_list re)"
  by (simp add: ring_total_def sum_rings_sum_list)

section \<open>Flows\<close>

text \<open>
  A flow is an RSS hash value; \<open>h_slot\<close> is its bucket and \<open>h_tag\<close> its tag in the bucket. An event
  of the flow table is a packet with the value \<^verbatim>\<open>global\<close> has when it is processed.
\<close>

definition h_slot :: "u32 \<Rightarrow> nat" where
  "h_slot h = unat (rss_index_l h)"

definition h_tag :: "u32 \<Rightarrow> u16" where
  "h_tag h = ucast (rss_index_h h)"

type_synonym event = "u64 \<times> mbuf"

definition tag :: "event \<Rightarrow> u16" where
  "tag e = h_tag (rss (snd e))"

definition bucket_of :: "event \<Rightarrow> nat" where
  "bucket_of e = h_slot (rss (snd e))"

lemma h_slot_less [simp]: "h_slot h < FLOW_NUM"
  by (simp add: h_slot_def)

lemma bucket_of_less [simp]: "bucket_of e < FLOW_NUM"
  by (simp add: bucket_of_def)

lemma pth_bucket_16: "(\<lambda>e. unat (pth_index_l 16 (rss (snd e)))) = bucket_of"
  by (simp add: bucket_of_def h_slot_def pth_index_l_16 fun_eq_iff)

lemma h_split_inj: "h_slot a = h_slot b \<Longrightarrow> h_tag a = h_tag b \<Longrightarrow> a = b"
  unfolding h_slot_def h_tag_def
  by (metis rss_split_inj ucast_u16_u32 rss_index_h_less word_unat_eq_iff)

lemma count_bucket_tag:
  "count_list (map tag (filter (\<lambda>e. bucket_of e = h_slot h) es)) (h_tag h) =
     count_list (map (rss \<circ> snd) es) h"
  by (induction es) (auto simp: tag_def bucket_of_def dest: h_split_inj)

text \<open>The packets of a run of bursts, in order of processing.\<close>

abbreviation packets :: "(nat \<times> mbuf list) list \<Rightarrow> mbuf list" where
  "packets bs \<equiv> concat (map snd bs)"

section \<open>Burst loops\<close>

text \<open>
  What the bodies of the monitoring loops share: a burst of packets from queue \<open>q\<close> runs the
  per-packet code over the buffers in order, with one value of \<^verbatim>\<open>global\<close>, and adds their number
  to the queue's counter. \<open>pk\<close> is the packet as the flow table sees it, which differs from the
  buffer where a loop hashes in software.
\<close>

locale hashed_loop =
  fixes burst :: "nat \<Rightarrow> mbuf list \<Rightarrow> 'b mon_state \<Rightarrow> fw_error + 'b mon_state"
    and upd :: "event \<Rightarrow> 'b \<Rightarrow> fw_error + 'b"
    and pk :: "mbuf \<Rightarrow> mbuf"
  assumes burst_events: "burst q bufs s = Inr s' \<Longrightarrow>
      \<exists>g. run (table_upd bucket_of upd) (map (\<lambda>m. (g, pk m)) bufs) (tbl s) = Inr (tbl s')"
    and burst_rings: "burst q bufs s = Inr s' \<Longrightarrow> bufs \<noteq> [] \<Longrightarrow>
      ring_add q (length bufs) (rings s) = Inr (rings s')"
    and burst_idle: "burst q [] s = Inr s"
begin

lemma run_hashed_events:
  assumes "run (\<lambda>(q, bufs). burst q bufs) bs s = Inr s'"
  shows "\<exists>es. map snd es = map pk (packets bs) \<and>
    run (table_upd bucket_of upd) es (tbl s) = Inr (tbl s')"
  using assms
proof (induction bs arbitrary: s)
  case Nil
  then show ?case by simp
next
  case (Cons b bs)
  obtain q bufs where b: "b = (q, bufs)" by (cases b)
  from Cons.prems obtain u where u: "burst q bufs s = Inr u"
    "run (\<lambda>(q, bufs). burst q bufs) bs u = Inr s'" unfolding b by (elim run_ConsE) auto
  from burst_events [OF u(1)] obtain g where g:
    "run (table_upd bucket_of upd) (map (\<lambda>m. (g, pk m)) bufs) (tbl s) = Inr (tbl u)" by blast
  from Cons.IH [OF u(2)] obtain es where es: "map snd es = map pk (packets bs)"
    "run (table_upd bucket_of upd) es (tbl u) = Inr (tbl s')" by blast
  have "map snd (map (\<lambda>m. (g, pk m)) bufs @ es) = map pk (packets (b # bs))"
    by (simp add: b es comp_def)
  moreover have "run (table_upd bucket_of upd) (map (\<lambda>m. (g, pk m)) bufs @ es) (tbl s) = Inr (tbl s')"
    by (simp add: run_append g es)
  ultimately show ?case by blast
qed

lemma run_rings:
  assumes "run (\<lambda>(q, bufs). burst q bufs) bs s = Inr s'"
  shows "length (rings s') = length (rings s) \<and> (\<forall>q < length (rings s).
    rings s' ! q = rings s ! q + of_nat (length (packets (filter (\<lambda>b. fst b = q) bs))))"
  using assms
proof (induction bs arbitrary: s)
  case Nil
  then show ?case by simp
next
  case (Cons b bs)
  obtain q bufs where b: "b = (q, bufs)" by (cases b)
  from Cons.prems obtain u where u: "burst q bufs s = Inr u"
    "run (\<lambda>(q, bufs). burst q bufs) bs u = Inr s'" unfolding b by (elim run_ConsE) auto
  note IH = Cons.IH [OF u(2)]
  show ?case
  proof (cases "bufs = []")
    case True
    with u(1) burst_idle have "u = s" by simp
    with IH True show ?thesis by (auto simp: b)
  next
    case False
    from ring_addE [OF burst_rings [OF u(1) False]] IH show ?thesis
      by (auto simp: b nth_list_update algebra_simps)
  qed
qed

end

text \<open>The common case: the packet is looked up by the hash the NIC has stored in it.\<close>

locale burst_loop = hashed_loop burst upd "\<lambda>m. m"
  for burst :: "nat \<Rightarrow> mbuf list \<Rightarrow> 'b mon_state \<Rightarrow> fw_error + 'b mon_state"
    and upd :: "event \<Rightarrow> 'b \<Rightarrow> fw_error + 'b"
begin

lemma run_events:
  assumes "run (\<lambda>(q, bufs). burst q bufs) bs s = Inr s'"
  shows "\<exists>es. map snd es = packets bs \<and> run (table_upd bucket_of upd) es (tbl s) = Inr (tbl s')"
  using run_hashed_events [OF assms] by simp

end

text \<open>
  A per-packet body that runs the table on the packet and then frees the buffers \<open>d m\<close> (the
  packet's own, or none when the loop frees them later) runs the table over the burst and leaves
  the counters alone.
\<close>

lemma run_one:
  assumes one: "\<And>m s. one m s = sbind (table_upd slot upd (glob s, m) (tbl s))
       (\<lambda>t. Inr (s\<lparr>tbl := t, freed := freed s @ d m\<rparr>))"
    and r: "run one bufs s = Inr s'"
  shows "run (table_upd slot upd) (map (Pair (glob s)) bufs) (tbl s) = Inr (tbl s')
    \<and> rings s' = rings s \<and> glob s' = glob s \<and> freed s' = freed s @ concat (map d bufs)"
  using r
proof (induction bufs arbitrary: s)
  case Nil
  then show ?case by simp
next
  case (Cons m bufs)
  from Cons.prems obtain u where u: "one m s = Inr u" "run one bufs u = Inr s'"
    by (rule run_ConsE)
  from u(1) obtain t where t: "table_upd slot upd (glob s, m) (tbl s) = Inr t"
    "u = s\<lparr>tbl := t, freed := freed s @ d m\<rparr>" by (auto simp: one sbind_Inr_iff)
  from Cons.IH [OF u(2)] t show ?case by simp
qed

lemma run_one_exists:
  assumes one: "\<And>m s. one m s = sbind (table_upd slot upd (glob s, m) (tbl s))
       (\<lambda>t. Inr (s\<lparr>tbl := t, freed := freed s @ d m\<rparr>))"
    and ok: "\<And>e t. \<exists>b. table_upd slot upd e t = Inr b"
  shows "\<exists>s'. run one bufs s = Inr s'"
proof (induction bufs arbitrary: s)
  case Nil
  show ?case by simp
next
  case (Cons m bufs)
  from ok [of "(glob s, m)" "tbl s"] obtain t where
    "table_upd slot upd (glob s, m) (tbl s) = Inr t" by blast
  with Cons show ?case by (simp add: one)
qed

text \<open>The same when the table update only returns from tables that satisfy an invariant.\<close>

lemma run_one_safe:
  assumes one: "\<And>m s. one m s = sbind (table_upd slot upd (glob s, m) (tbl s))
       (\<lambda>t. Inr (s\<lparr>tbl := t, freed := freed s @ d m\<rparr>))"
    and ok: "\<And>m t. I t \<Longrightarrow> (\<exists>u. table_upd slot upd (g, m) t = Inr u \<and> I u) \<or>
       (\<exists>x. table_upd slot upd (g, m) t = Inl x \<and> Q m x)"
    and "I (tbl s)" and "glob s = g"
  shows "(\<exists>s'. run one bufs s = Inr s' \<and> I (tbl s') \<and> rings s' = rings s \<and> glob s' = g) \<or>
    (\<exists>m \<in> set bufs. \<exists>x. run one bufs s = Inl x \<and> Q m x)"
  using assms(3,4)
proof (induction bufs arbitrary: s)
  case Nil
  then show ?case by simp
next
  case (Cons m bufs)
  from ok [OF Cons.prems(1), of m] show ?case
  proof (elim disjE exE conjE)
    fix u
    assume u: "table_upd slot upd (g, m) (tbl s) = Inr u" "I u"
    let ?s = "s\<lparr>tbl := u, freed := freed s @ d m\<rparr>"
    have "one m s = Inr ?s" using u(1) Cons.prems(2) by (simp add: one)
    with Cons.IH [of ?s] u(2) Cons.prems(2) show ?thesis by auto
  next
    fix x
    assume "table_upd slot upd (g, m) (tbl s) = Inl x" "Q m x"
    with Cons.prems(2) show ?thesis by (auto simp: one)
  qed
qed

section \<open>The two slots of a bucket, abstractly\<close>

text \<open>
  What the two-slot code does to the tags and counters of a bucket, whatever statistics it keeps
  beside them: the specification the three versions refine. \<open>audit\<close> says whether a packet of a
  third flow is counted in \<^verbatim>\<open>ctr[2]\<close>.
\<close>

type_synonym 'c slots = "u16 \<times> u16 \<times> 'c list"

definition slots :: "('c, 'z) pkt_count_scheme \<Rightarrow> 'c slots" where
  "slots b = (hi_f1 b, hi_f2 b, ctr b)"

fun slot_step :: "bool \<Rightarrow> u16 \<Rightarrow> ('w::len word) slots \<Rightarrow> 'w word slots" where
  "slot_step audit k (f1, f2, c) =
     (if f1 = 0 then (k, f2, bump 0 c)
      else if f2 = 0 \<and> f1 \<noteq> k then (f1, k, bump 1 c)
      else if f1 = k then (f1, f2, bump 0 c)
      else if f2 = k then (f1, f2, bump 1 c)
      else (f1, f2, if audit then bump 2 c else c))"

fun slot_wf :: "nat \<Rightarrow> ('w::len word) slots \<Rightarrow> bool" where
  "slot_wf n (f1, f2, c) \<longleftrightarrow> length c = n \<and> 2 \<le> n \<and> (f1 = 0 \<longrightarrow> f2 = 0 \<and> c ! 0 = 0) \<and>
     (f2 = 0 \<longrightarrow> c ! 1 = 0) \<and> (f1 \<noteq> 0 \<longrightarrow> f1 \<noteq> f2)"

fun slot_cnt :: "('w::len word) slots \<Rightarrow> u16 \<Rightarrow> 'w word" where
  "slot_cnt (f1, f2, c) k =
     (if k = 0 then 0 else if k = f1 then c ! 0 else if k = f2 then c ! 1 else 0)"

fun slot_tracked :: "'c slots \<Rightarrow> u16 set" where
  "slot_tracked (f1, f2, c) = {f1, f2} - {0}"

fun slot_full :: "'c slots \<Rightarrow> bool" where
  "slot_full (f1, f2, c) \<longleftrightarrow> f1 \<noteq> 0 \<and> f2 \<noteq> 0"

fun slot_sum :: "('w::len word) slots \<Rightarrow> 'w word" where
  "slot_sum (f1, f2, c) = sum_list c"

fun slot_lost :: "('w::len word) slots \<Rightarrow> 'w word" where
  "slot_lost (f1, f2, c) = c ! 2"

lemma slot_step_wf: "slot_wf n s \<Longrightarrow> k \<noteq> 0 \<Longrightarrow> slot_wf n (slot_step audit k s)"
  by (cases s) (auto simp: nth_bump)

lemma slot_step_hit:
  assumes "slot_wf n s" and "k \<noteq> 0" and "k \<in> slot_tracked s \<or> \<not> slot_full s"
  shows "slot_tracked (slot_step audit k s) = insert k (slot_tracked s)"
    and "slot_cnt (slot_step audit k s) = (slot_cnt s)(k := slot_cnt s k + 1)"
  using assms by (cases s; auto simp: nth_bump fun_eq_iff)+

lemma slot_step_miss:
  assumes "slot_wf n s" and "k \<noteq> 0" and "k \<notin> slot_tracked s" and "slot_full s"
  shows "slot_tracked (slot_step audit k s) = slot_tracked s"
    and "slot_cnt (slot_step audit k s) = slot_cnt s"
  using assms by (cases s; auto simp: nth_bump fun_eq_iff)+

lemma slot_step_full: "k \<noteq> 0 \<Longrightarrow> slot_full s \<Longrightarrow> slot_full (slot_step audit k s)"
  by (cases s) auto

lemma slot_step_lost:
  assumes "slot_wf 3 s" and "k \<noteq> 0"
  shows "slot_lost (slot_step True k s) =
    (if k \<in> slot_tracked s \<or> \<not> slot_full s then slot_lost s else slot_lost s + 1)"
  using assms by (cases s) (auto simp: nth_bump)

text \<open>With three counters every packet is counted somewhere, whatever its tag.\<close>

lemma slot_step_sum:
  "length (snd (snd s)) = 3 \<Longrightarrow> slot_sum (slot_step True k s) = slot_sum s + 1"
  by (cases s) (auto simp: sum_list_bump)

lemma slot_step_length [simp]: "length (snd (snd (slot_step audit k s))) = length (snd (snd s))"
  by (cases s) auto

lemmas slot_laws = slot_step_wf slot_step_hit slot_step_miss slot_step_full slot_step_lost

section \<open>Buckets that refine the slot specification\<close>

locale two_slots =
  fixes upd :: "event \<Rightarrow> 'b \<Rightarrow> fw_error + 'b"
    and sl :: "'b \<Rightarrow> ('w::len word) slots"
    and audit :: bool
  assumes refines: "upd e b = Inr b' \<Longrightarrow> sl b' = slot_step audit (tag e) (sl b)"

sublocale two_slots \<subseteq> flow_bucket upd tag "\<lambda>e. tag e \<noteq> 0" "\<lambda>b. slot_wf 3 (sl b)"
  "\<lambda>b. slot_cnt (sl b)" "\<lambda>b. slot_tracked (sl b)" "\<lambda>b. slot_full (sl b)"
  by unfold_locales (auto dest!: refines simp del: slot_step.simps simp: slot_laws)

locale audited_slots = two_slots upd sl True
  for upd :: "event \<Rightarrow> 'b \<Rightarrow> fw_error + 'b" and sl :: "'b \<Rightarrow> ('w::len word) slots"

sublocale audited_slots \<subseteq> audited_bucket upd tag "\<lambda>e. tag e \<noteq> 0" "\<lambda>b. slot_wf 3 (sl b)"
  "\<lambda>b. slot_cnt (sl b)" "\<lambda>b. slot_tracked (sl b)" "\<lambda>b. slot_full (sl b)" "\<lambda>b. slot_lost (sl b)"
  by unfold_locales (auto dest!: refines simp del: slot_step.simps simp: slot_laws)

text \<open>
  What a table of two-slot buckets should hold after the packets \<open>ms\<close>: a flow with an entry has
  its exact count (modulo the width of the counter), and every bucket has entries for as many of
  its flows as fit.
\<close>

definition seen_tags :: "mbuf list \<Rightarrow> nat \<Rightarrow> u16 set" where
  "seen_tags ms i = {h_tag (rss m) |m. m \<in> set ms \<and> h_slot (rss m) = i}"

definition two_flow_counts :: "(nat \<Rightarrow> ('w::len word) slots) \<Rightarrow> mbuf list \<Rightarrow> bool" where
  "two_flow_counts t ms \<longleftrightarrow>
     (\<forall>h. h_tag h \<in> slot_tracked (t (h_slot h)) \<longrightarrow>
        slot_cnt (t (h_slot h)) (h_tag h) = of_nat (count_list (map rss ms) h)) \<and>
     (\<forall>i < FLOW_NUM. slot_tracked (t i) \<subseteq> seen_tags ms i \<and>
        card (slot_tracked (t i)) = min 2 (card (seen_tags ms i)))"

text \<open>The third counter of every bucket holds the packets of the flows without an entry.\<close>

definition third_flow_counts :: "(nat \<Rightarrow> ('w::len word) slots) \<Rightarrow> mbuf list \<Rightarrow> bool" where
  "third_flow_counts t ms \<longleftrightarrow> (\<forall>i < FLOW_NUM. slot_lost (t i) =
     of_nat (length (filter (\<lambda>m. h_slot (rss m) = i \<and> h_tag (rss m) \<notin> slot_tracked (t i)) ms)))"

fun slot_empty :: "nat \<Rightarrow> ('w::len word) slots \<Rightarrow> bool" where
  "slot_empty n (f1, f2, c) \<longleftrightarrow> f1 = 0 \<and> f2 = 0 \<and> c = replicate n 0"

lemma slot_empty_facts:
  assumes "slot_empty n s" and "2 \<le> n"
  shows "slot_wf n s" "slot_tracked s = {}" "slot_cnt s k = 0" "3 \<le> n \<Longrightarrow> slot_lost s = 0"
    "slot_sum s = 0" "\<not> slot_full s"
  using assms by (cases s; auto simp: sum_list_replicate)+

lemma seen_tags_events:
  "map snd es = ms \<Longrightarrow> tag ` {e \<in> set es. bucket_of e = i} = seen_tags ms i"
  by (force simp: seen_tags_def tag_def bucket_of_def)

lemma finite_seen_tags [simp]: "finite (seen_tags ms i)"
  by (simp add: seen_tags_def)

lemma tags_valid:
  assumes "map snd es = ms" and "\<forall>m \<in> set ms. h_tag (rss m) \<noteq> 0"
  shows "\<forall>e \<in> set es. tag e \<noteq> 0"
  using assms by (force simp: tag_def)

lemma card_slot_tracked:
  "slot_wf n s \<Longrightarrow> card (slot_tracked s) \<le> 2 \<and> (slot_full s \<longrightarrow> card (slot_tracked s) = 2) \<and>
     (\<not> slot_full s \<longrightarrow> card (slot_tracked s) \<le> 1)"
  by (cases s) (auto simp: insert_Diff_if card_insert_if)

context two_slots
begin

lemma table_start_wf:
  assumes r: "run (table_upd bucket_of upd) es t = Inr t'" and ms: "map snd es = ms"
    and z: "\<forall>i < FLOW_NUM. slot_empty 3 (sl (t i))" and v: "\<forall>m \<in> set ms. h_tag (rss m) \<noteq> 0"
  shows "\<forall>i < FLOW_NUM. slot_wf 3 (sl (t' i))"
proof (intro allI impI)
  fix i :: nat
  assume i: "i < FLOW_NUM"
  have "slot_wf 3 (sl (t i))" by (rule slot_empty_facts(1)) (use z i in simp_all)
  then show "slot_wf 3 (sl (t' i))" by (rule table_wf [OF r _ tags_valid [OF ms v]])
qed

lemma table_two_flow_counts:
  assumes r: "run (table_upd bucket_of upd) es t = Inr t'" and ms: "map snd es = ms"
    and z: "\<forall>i < FLOW_NUM. slot_empty 3 (sl (t i))" and v: "\<forall>m \<in> set ms. h_tag (rss m) \<noteq> 0"
  shows "two_flow_counts (\<lambda>i. sl (t' i)) ms"
proof -
  note v = tags_valid [OF ms v]
  have e: "slot_wf 3 (sl (t i))" "slot_tracked (sl (t i)) = {}" "slot_cnt (sl (t i)) k = 0"
    if "i < FLOW_NUM" for i k using slot_empty_facts [of 3 "sl (t i)"] z that by auto
  have "slot_cnt (sl (t' (h_slot h))) (h_tag h) = of_nat (count_list (map rss ms) h)"
    if "h_tag h \<in> slot_tracked (sl (t' (h_slot h)))" for h
    using table_cnt [OF r e(1) [OF h_slot_less] v that] e(3) [OF h_slot_less]
    by (simp add: count_bucket_tag flip: ms)
  moreover have "slot_tracked (sl (t' i)) \<subseteq> seen_tags ms i \<and>
      card (slot_tracked (sl (t' i))) = min 2 (card (seen_tags ms i))" if i: "i < FLOW_NUM" for i
  proof -
    let ?T = "slot_tracked (sl (t' i))"
    have sub: "?T \<subseteq> seen_tags ms i"
      using table_tracked_subset(2) [OF r e(1) [OF i] v] e(2) [OF i] seen_tags_events [OF ms] by simp
    then have le: "card ?T \<le> card (seen_tags ms i)" by (intro card_mono) auto
    note c = card_slot_tracked [OF table_wf [OF r e(1) [OF i] v]]
    show ?thesis
    proof (cases "slot_full (sl (t' i))")
      case True
      with c le sub show ?thesis by auto
    next
      case False
      have "?T = tag ` set (filter (\<lambda>e. bucket_of e = i) es)"
        using run_not_full [OF run_table [OF r] e(1) [OF i] _ False] v e(2) [OF i] by auto
      then have "?T = seen_tags ms i" using seen_tags_events [OF ms, of i] by simp
      with c False show ?thesis by auto
    qed
  qed
  ultimately show ?thesis by (simp add: two_flow_counts_def)
qed

end

context audited_slots
begin

lemma table_third_flow_counts:
  assumes r: "run (table_upd bucket_of upd) es t = Inr t'" and ms: "map snd es = ms"
    and z: "\<forall>i < FLOW_NUM. slot_empty 3 (sl (t i))" and v: "\<forall>m \<in> set ms. h_tag (rss m) \<noteq> 0"
  shows "third_flow_counts (\<lambda>i. sl (t' i)) ms"
proof -
  have "slot_lost (sl (t' i)) =
      of_nat (length (filter (\<lambda>m. h_slot (rss m) = i \<and> h_tag (rss m) \<notin> slot_tracked (sl (t' i))) ms))"
    if i: "i < FLOW_NUM" for i
  proof -
    have e: "slot_wf 3 (sl (t i))" "slot_lost (sl (t i)) = 0"
      using slot_empty_facts [of 3 "sl (t i)"] z i by auto
    have "slot_lost (sl (t' i)) =
        of_nat (length (filter (\<lambda>e. tag e \<notin> slot_tracked (sl (t' i))) (filter (\<lambda>e. bucket_of e = i) es)))"
      using run_lost [OF run_table [OF r] e(1)] e(2) tags_valid [OF ms v] by simp
    then show ?thesis
      by (simp add: length_filter_map filter_map comp_def tag_def bucket_of_def flip: ms)
  qed
  then show ?thesis by (simp add: third_flow_counts_def)
qed

end

section \<open>What a report over such a table adds up\<close>

lemma count_flow_filter:
  "count_list (map rss ms) h =
     length (filter (\<lambda>m. h_slot (rss m) = h_slot h \<and> h_tag (rss m) = h_tag h) ms)"
  by (induction ms) (auto dest: h_split_inj)

lemma tracked_slot_count:
  assumes "two_flow_counts t ms" and "i < FLOW_NUM" and "k \<in> slot_tracked (t i)"
  shows "slot_cnt (t i) k = of_nat (length (filter (\<lambda>m. h_slot (rss m) = i \<and> h_tag (rss m) = k) ms))"
    and "0 < length (filter (\<lambda>m. h_slot (rss m) = i \<and> h_tag (rss m) = k) ms)"
proof -
  from assms have "k \<in> seen_tags ms i" by (auto simp: two_flow_counts_def)
  then obtain m where m: "m \<in> set ms" "h_slot (rss m) = i" "h_tag (rss m) = k"
    by (auto simp: seen_tags_def)
  with assms show "slot_cnt (t i) k = of_nat (length (filter (\<lambda>m. h_slot (rss m) = i \<and> h_tag (rss m) = k) ms))"
    by (auto simp: two_flow_counts_def count_flow_filter)
  from m show "0 < length (filter (\<lambda>m. h_slot (rss m) = i \<and> h_tag (rss m) = k) ms)"
    by (auto simp: filter_empty_conv)
qed

lemma length_filter_disj:
  "(\<And>x. \<not> (P x \<and> Q x)) \<Longrightarrow>
     length (filter (\<lambda>x. P x \<or> Q x) xs) = length (filter P xs) + length (filter Q xs)"
  by (induction xs) auto

text \<open>
  With fewer packets than the counters can hold, the two counters of a bucket are non-zero exactly
  for the flows with an entry, and add up to the packets of those flows.
\<close>

lemma two_slot_report:
  fixes c :: "'w::len word list"
  assumes t: "two_flow_counts t ms" and i: "i < FLOW_NUM" and wf: "slot_wf n (t i)"
    and ti: "t i = (f1, f2, c)" and small: "length ms < 2 ^ LENGTH('w)"
  shows "of_bool (c ! 0 > 0) + of_bool (c ! 1 > 0) = min 2 (card (seen_tags ms i))"
    and "unat (c ! 0) + unat (c ! 1) =
      length (filter (\<lambda>m. h_slot (rss m) = i \<and> h_tag (rss m) \<in> slot_tracked (t i)) ms)"
proof -
  let ?n = "\<lambda>k. length (filter (\<lambda>m. h_slot (rss m) = i \<and> h_tag (rss m) = k) ms)"
  have le: "?n k < 2 ^ LENGTH('w)" for k
    using small length_filter_le [of _ ms] le_less_trans by blast
  have tr: "slot_tracked (t i) = {f1, f2} - {0}" by (simp add: ti)
  have c0: "unat (c ! 0) = ?n f1 \<and> 0 < ?n f1" if "f1 \<noteq> 0"
    using tracked_slot_count [OF t i, of f1] that le [of f1] by (simp add: ti unat_of_nat)
  have c1: "unat (c ! 1) = ?n f2 \<and> 0 < ?n f2" if "f2 \<noteq> 0"
    using tracked_slot_count [OF t i, of f2] that le [of f2] wf by (auto simp: ti unat_of_nat)
  have z0: "c ! 0 = 0" if "f1 = 0" using wf that by (simp add: ti)
  have z1: "c ! 1 = 0" if "f2 = 0" using wf that by (simp add: ti)
  have p0: "c ! 0 > 0 \<longleftrightarrow> f1 \<noteq> 0" using c0 z0 by (cases "f1 = 0") (auto simp: word_gt_0)
  have p1: "c ! 1 > 0 \<longleftrightarrow> f2 \<noteq> 0" using c1 z1 by (cases "f2 = 0") (auto simp: word_gt_0)
  have d: "f1 \<noteq> 0 \<Longrightarrow> f1 \<noteq> f2" "f1 = 0 \<Longrightarrow> f2 = 0" using wf by (auto simp: ti)
  have "of_bool (c ! 0 > 0) + of_bool (c ! 1 > 0) = card (slot_tracked (t i))"
    using p0 p1 d by (auto simp: tr insert_Diff_if)
  with t i show "of_bool (c ! 0 > 0) + of_bool (c ! 1 > 0) = min 2 (card (seen_tags ms i))"
    by (simp add: two_flow_counts_def)
  show "unat (c ! 0) + unat (c ! 1) =
      length (filter (\<lambda>m. h_slot (rss m) = i \<and> h_tag (rss m) \<in> slot_tracked (t i)) ms)"
  proof (cases "f1 = 0 \<or> f2 = 0")
    case True
    with c0 c1 z0 z1 d show ?thesis by (auto simp: tr insert_Diff_if)
  next
    case False
    with d c0 c1 have "unat (c ! 0) + unat (c ! 1) =
        length (filter (\<lambda>m. (h_slot (rss m) = i \<and> h_tag (rss m) = f1) \<or>
                            (h_slot (rss m) = i \<and> h_tag (rss m) = f2)) ms)"
      by (subst length_filter_disj) auto
    also have "\<dots> = length (filter (\<lambda>m. h_slot (rss m) = i \<and> h_tag (rss m) \<in> slot_tracked (t i)) ms)"
      using False by (intro arg_cong [of _ _ length] filter_cong) (auto simp: tr)
    finally show ?thesis .
  qed
qed

end
