(* ===== verification/Double_Hash.thy ===== *)
theory Double_Hash
  imports Flow_Records
begin

text \<open>
  The \<^verbatim>\<open>DOUBLE_HASH\<close> builds of the three versions: two flows per bucket. The per-packet code,
  the burst loops around it, the initialisation and the reports at exit.
\<close>

section \<open>Per-packet code: run-to-completion version\<close>

definition rtc_dh_packet :: "cfg \<Rightarrow> u64 \<Rightarrow> u32 \<Rightarrow> u32 pkt_count \<Rightarrow> u32 pkt_count" where
  "rtc_dh_packet c global index_h b =
     (let fp = c_fpu c in
      if hi_f1 b = 0 then
        (let b = b\<lparr>hi_f1 := ucast index_h, ctr := bump 0 (ctr b)\<rparr>
         in if c_ipg c then b\<lparr>avg := (avg b)[0 := rnd64 fp (real (unat (ipg b ! 0)))]\<rparr> else b)
      else if hi_f2 b = 0 \<and> ucast (hi_f1 b) \<noteq> index_h then
        (let b = b\<lparr>hi_f2 := ucast index_h, ctr := bump 1 (ctr b)\<rparr>
         in if c_ipg c then b\<lparr>avg := (avg b)[1 := rnd64 fp (real (unat (ipg b ! 1)))]\<rparr> else b)
      else if ucast (hi_f1 b) = index_h then
        (let b = b\<lparr>ctr := bump 0 (ctr b)\<rparr>
         in if c_ipg c then
              (let cur = gap global (ipg b ! 0)
               in b\<lparr>avg := (avg b)[0 := mean_double fp (avg b ! 0) (ctr b ! 0) cur],
                    ipg := (ipg b)[0 := global]\<rparr>)
            else b)
      else if ucast (hi_f2 b) = index_h then
        (let b = b\<lparr>ctr := bump 1 (ctr b)\<rparr>
         in if c_ipg c then
              (let cur = gap global (ipg b ! 1)
               in b\<lparr>avg := (avg b)[1 := mean_float fp (avg b ! 1) (ctr b ! 1) cur],
                    ipg := (ipg b)[1 := global]\<rparr>)
            else b)
      else b\<lparr>ctr := bump 2 (ctr b)\<rparr>)"

section \<open>Per-packet code: pthread version\<close>

text \<open>A packet of a third flow changes nothing here: there is no final \<^verbatim>\<open>else\<close>.\<close>

definition pth_dh_packet :: "cfg \<Rightarrow> u64 \<Rightarrow> u32 \<Rightarrow> u64 pkt_count_sd \<Rightarrow> u64 pkt_count_sd" where
  "pth_dh_packet c global index_h b =
     (let fp = c_fpu c in
      if hi_f1 b = 0 then
        (let b = b\<lparr>hi_f1 := ucast index_h, ctr := bump 0 (ctr b)\<rparr>
         in if c_ipg c then b\<lparr>avg := (avg b)[0 := rnd64 fp (real (unat (ipg b ! 0)))]\<rparr> else b)
      else if hi_f2 b = 0 \<and> ucast (hi_f1 b) \<noteq> index_h then
        (let b = b\<lparr>hi_f2 := ucast index_h, ctr := bump 1 (ctr b)\<rparr>
         in if c_ipg c then b\<lparr>avg := (avg b)[1 := rnd64 fp (real (unat (ipg b ! 1)))]\<rparr> else b)
      else if ucast (hi_f1 b) = index_h then
        (let b = b\<lparr>ctr := bump 0 (ctr b)\<rparr>
         in if c_ipg c then
              (let cur = gap global (ipg b ! 0)
               in b\<lparr>stdDev := (stdDev b)[0 := std_dev fp (avg b ! 0) cur],
                    avg := (avg b)[0 := mean_float fp (avg b ! 0) (ctr b ! 0) cur],
                    ipg := (ipg b)[0 := global]\<rparr>)
            else b)
      else if ucast (hi_f2 b) = index_h then
        (let b = b\<lparr>ctr := bump 1 (ctr b)\<rparr>
         in if c_ipg c then
              (let cur = gap global (ipg b ! 1)
               in b\<lparr>stdDev := (stdDev b)[1 := std_dev fp (avg b ! 1) cur],
                    avg := (avg b)[1 := mean_float fp (avg b ! 1) (ctr b ! 1) cur],
                    ipg := (ipg b)[1 := global]\<rparr>)
            else b)
      else b)"

section \<open>Per-packet code: L-thread version\<close>

text \<open>
  Here the tag is a \<^verbatim>\<open>uint16_t\<close>, a new flow resets its statistics, and \<^verbatim>\<open>QUANTILE\<close> builds feed
  the gap to the slot's estimator.
\<close>

definition slot_hit ::
  "cfg \<Rightarrow> u64 \<Rightarrow> nat \<Rightarrow> ('w::len word, 'z) pkt_count_qt_scheme \<Rightarrow> fw_error + ('w word, 'z) pkt_count_qt_scheme"
where
  "slot_hit c global i b =
     (let fp = c_fpu c; b = b\<lparr>ctr := bump i (ctr b)\<rparr>
      in if c_ipg c then
           (let cur = gap global (ipg b ! i);
                b = b\<lparr>stdDev := (stdDev b)[i := std_dev fp (avg b ! i) cur],
                      avg := (avg b)[i := mean_float fp (avg b ! i) (ctr b ! i) cur],
                      ipg := (ipg b)[i := global]\<rparr>
            in if c_quantile c then
                 sbind (qt_feed fp (c_p c) cur (qt b ! i)) (\<lambda>t. Inr (b\<lparr>qt := (qt b)[i := t]\<rparr>))
               else Inr b)
         else Inr b)"

definition lt_packet :: "cfg \<Rightarrow> u64 \<Rightarrow> u16 \<Rightarrow> u32 pkt_count_qt \<Rightarrow> fw_error + u32 pkt_count_qt" where
  "lt_packet c global index_h b =
     (if hi_f1 b = 0 then
        (let b = b\<lparr>hi_f1 := index_h, ctr := bump 0 (ctr b)\<rparr>
         in Inr (if c_ipg c then b\<lparr>ipg := (ipg b)[0 := 0], avg := (avg b)[0 := 0]\<rparr> else b))
      else if hi_f2 b = 0 \<and> hi_f1 b \<noteq> index_h then
        (let b = b\<lparr>hi_f2 := index_h, ctr := bump 1 (ctr b)\<rparr>
         in Inr (if c_ipg c then b\<lparr>ipg := (ipg b)[1 := 0], avg := (avg b)[1 := 0]\<rparr> else b))
      else if hi_f1 b = index_h then slot_hit c global 0 b
      else if hi_f2 b = index_h then slot_hit c global 1 b
      else Inr (b\<lparr>ctr := bump 2 (ctr b)\<rparr>))"

section \<open>All three refine the slot specification\<close>

lemma rtc_dh_refines:
  "unat h < 65536 \<Longrightarrow> slots (rtc_dh_packet c g h b) = slot_step True (ucast h) (slots b)"
  by (auto simp: rtc_dh_packet_def slots_def Let_def ucast_tag_eq)

lemma pth_dh_refines:
  "unat h < 65536 \<Longrightarrow> slots (pth_dh_packet c g h b) = slot_step False (ucast h) (slots b)"
  by (auto simp: pth_dh_packet_def slots_def Let_def ucast_tag_eq)

lemma slot_hit_slots:
  "slot_hit c g i b = Inr b' \<Longrightarrow> slots b' = (hi_f1 b, hi_f2 b, bump i (ctr b))"
  by (auto simp: slot_hit_def slots_def Let_def sbind_Inr_iff split: if_splits)

lemma lt_refines:
  "lt_packet c g k b = Inr b' \<Longrightarrow> slots b' = slot_step True k (slots b)"
  by (auto simp: lt_packet_def Let_def slots_def [of b] dest!: slot_hit_slots split: if_splits)
    (auto simp: slots_def)

section \<open>The contract, for each version\<close>

text \<open>
  The contract holds for packets whose tag is not zero, the value the code uses for an empty slot.
\<close>

definition rtc_dh_upd :: "cfg \<Rightarrow> event \<Rightarrow> u32 pkt_count \<Rightarrow> fw_error + u32 pkt_count" where
  "rtc_dh_upd c e b = Inr (rtc_dh_packet c (fst e) (rss_index_h (rss (snd e))) b)"

definition pth_dh_upd :: "cfg \<Rightarrow> nat \<Rightarrow> event \<Rightarrow> u64 pkt_count_sd \<Rightarrow> fw_error + u64 pkt_count_sd" where
  "pth_dh_upd c bits e b = Inr (pth_dh_packet c (fst e) (pth_index_h bits (rss (snd e))) b)"

definition lt_upd :: "cfg \<Rightarrow> event \<Rightarrow> u32 pkt_count_qt \<Rightarrow> fw_error + u32 pkt_count_qt" where
  "lt_upd c e b = lt_packet c (fst e) (ucast (rss_index_h (rss (snd e)))) b"

lemma rtc_dh_upd_slots: "rtc_dh_upd c e b = Inr b' \<Longrightarrow> slots b' = slot_step True (tag e) (slots b)"
  by (auto simp: rtc_dh_upd_def tag_def h_tag_def rtc_dh_refines)

lemma pth_dh_upd_slots:
  "pth_dh_upd c 16 e b = Inr b' \<Longrightarrow> slots b' = slot_step False (tag e) (slots b)"
  by (auto simp: pth_dh_upd_def tag_def h_tag_def pth_index_h_16 pth_dh_refines)

lemma lt_upd_slots: "lt_upd c e b = Inr b' \<Longrightarrow> slots b' = slot_step True (tag e) (slots b)"
  by (auto simp: lt_upd_def tag_def h_tag_def dest: lt_refines)

interpretation rtc_dh: audited_slots "rtc_dh_upd c" slots for c
  by unfold_locales (rule rtc_dh_upd_slots)

interpretation pth_dh: two_slots "pth_dh_upd c 16" slots False for c
  by unfold_locales (rule pth_dh_upd_slots)

interpretation lt_dh: audited_slots "lt_upd c" slots for c
  by unfold_locales (rule lt_upd_slots)

section \<open>The burst loops\<close>

text \<open>
  One iteration of the run-to-completion loop on a burst from queue \<open>q\<close>. \<open>flow_level\<close> is the
  switch \<^verbatim>\<open>FLOW_LEVEL\<close> around the per-packet code; the loop that frees the burst follows it in
  every build.
\<close>

definition rtc_dh_one :: "cfg \<Rightarrow> mbuf \<Rightarrow> u32 pkt_count mon_state \<Rightarrow> fw_error + u32 pkt_count mon_state" where
  "rtc_dh_one c m s =
     sbind (table_upd bucket_of (rtc_dh_upd c) (glob s, m) (tbl s))
       (\<lambda>t. Inr (s\<lparr>tbl := t, freed := freed s @ [m]\<rparr>))"

definition rtc_double_hash ::
  "cfg \<Rightarrow> bool \<Rightarrow> nat \<Rightarrow> mbuf list \<Rightarrow> u32 pkt_count mon_state \<Rightarrow> fw_error + u32 pkt_count mon_state"
where
  "rtc_double_hash c flow_level q bufs s =
     (if bufs = [] then Inr s
      else
        sbind (if c_ipg c then ring_total RTC_RX_RINGS (rings s) else Inr (glob s)) (\<lambda>g.
        sbind (ring_add q (length bufs) (rings s)) (\<lambda>re.
        sbind (if flow_level then run (rtc_dh_one c) bufs (s\<lparr>glob := g, rings := re\<rparr>)
               else Inr (s\<lparr>glob := g, rings := re\<rparr>)) (\<lambda>s.
        Inr (s\<lparr>freed := freed s @ bufs\<rparr>)))))"

text \<open>
  One iteration of the counting thread of the pthread version on the packets dequeued from its
  ring; \<open>n_rx\<close> is \<^verbatim>\<open>n_rx_thread\<close>, \<open>bits\<close> the shift computed at start-up.
\<close>

definition pth_dh_one ::
  "cfg \<Rightarrow> nat \<Rightarrow> mbuf \<Rightarrow> u64 pkt_count_sd mon_state \<Rightarrow> fw_error + u64 pkt_count_sd mon_state"
where
  "pth_dh_one c bits m s =
     sbind (table_upd (\<lambda>e. unat (pth_index_l bits (rss (snd e)))) (pth_dh_upd c bits) (glob s, m) (tbl s))
       (\<lambda>t. Inr (s\<lparr>tbl := t, freed := freed s @ [m]\<rparr>))"

definition pth_count_double_hash ::
  "cfg \<Rightarrow> nat \<Rightarrow> nat \<Rightarrow> nat \<Rightarrow> mbuf list \<Rightarrow> u64 pkt_count_sd mon_state
     \<Rightarrow> fw_error + u64 pkt_count_sd mon_state"
where
  "pth_count_double_hash c bits n_rx q bufs s =
     (if bufs = [] then Inr s
      else
        sbind (ring_add q (length bufs) (rings s)) (\<lambda>re.
        sbind (if c_ipg c then ring_total n_rx re else Inr (glob s)) (\<lambda>g.
        run (pth_dh_one c bits) bufs (s\<lparr>rings := re, glob := g\<rparr>))))"

text \<open>One iteration of the L-thread consumer on the packets dequeued from its ring.\<close>

definition lt_one :: "cfg \<Rightarrow> mbuf \<Rightarrow> u32 pkt_count_qt mon_state \<Rightarrow> fw_error + u32 pkt_count_qt mon_state" where
  "lt_one c m s =
     sbind (table_upd bucket_of (lt_upd c) (glob s, m) (tbl s))
       (\<lambda>t. Inr (s\<lparr>tbl := t, freed := freed s @ [m]\<rparr>))"

definition lt_tx_per_ring ::
  "cfg \<Rightarrow> nat \<Rightarrow> nat \<Rightarrow> mbuf list \<Rightarrow> u32 pkt_count_qt mon_state \<Rightarrow> fw_error + u32 pkt_count_qt mon_state"
where
  "lt_tx_per_ring c n_rx q bufs s =
     (if bufs = [] then Inr s
      else
        sbind (ring_add q (length bufs) (rings s)) (\<lambda>re.
        sbind (if c_ipg c then ring_total n_rx re else Inr (glob s)) (\<lambda>g.
        run (lt_one c) bufs (s\<lparr>rings := re, glob := g\<rparr>))))"

section \<open>The loops process their packets in order\<close>

lemmas rtc_run_one =
  run_one [of "rtc_dh_one c" bucket_of "rtc_dh_upd c" "\<lambda>m. [m]" for c, OF rtc_dh_one_def, simplified]
lemmas lt_run_one =
  run_one [of "lt_one c" bucket_of "lt_upd c" "\<lambda>m. [m]" for c, OF lt_one_def, simplified]
lemmas pth_run_one =
  run_one [of "pth_dh_one c bits" "\<lambda>e. unat (pth_index_l bits (rss (snd e)))" "pth_dh_upd c bits"
    "\<lambda>m. [m]" for c bits, OF pth_dh_one_def, simplified]

interpretation rtc_dh_loop: burst_loop "rtc_double_hash c True" "rtc_dh_upd c" for c
  by unfold_locales
    (auto simp: rtc_double_hash_def sbind_Inr_iff split: if_splits dest!: rtc_run_one)

interpretation pth_dh_loop: burst_loop "pth_count_double_hash c 16 n_rx" "pth_dh_upd c 16" for c n_rx
  by unfold_locales
    (auto simp: pth_count_double_hash_def sbind_Inr_iff pth_bucket_16 split: if_splits
      dest!: pth_run_one [where bits = 16])

interpretation lt_loop: burst_loop "lt_tx_per_ring c n_rx" "lt_upd c" for c n_rx
  by unfold_locales
    (auto simp: lt_tx_per_ring_def sbind_Inr_iff split: if_splits dest!: lt_run_one)

section \<open>Initialisation of the table\<close>

text \<open>
  The loop over \<open>i\<close> of the start-up code, one bucket at a time: all three versions clear the tags
  and counters, \<^verbatim>\<open>IPG\<close> builds also the means and the last-packet positions (their inner loop leaves
  at \<open>j = 2\<close>).
\<close>

definition dh_init_bucket ::
  "cfg \<Rightarrow> ('w::len word, 'z) pkt_count_scheme \<Rightarrow> ('w word, 'z) pkt_count_scheme"
where
  "dh_init_bucket c b =
     (let b = b\<lparr>hi_f1 := 0, hi_f2 := 0, ctr := (ctr b)[0 := 0, 1 := 0, 2 := 0]\<rparr>
      in if c_ipg c then b\<lparr>avg := (avg b)[0 := 0, 1 := 0], ipg := (ipg b)[0 := 0, 1 := 0]\<rparr> else b)"

definition lt_init_bucket :: "cfg \<Rightarrow> u32 pkt_count_qt \<Rightarrow> u32 pkt_count_qt" where
  "lt_init_bucket c b =
     (let b = dh_init_bucket c b; fp = c_fpu c
      in if c_ipg c \<and> c_quantile c then
           b\<lparr>qt := (qt b)[0 := qt_init fp (c_p c) (qt b ! 0), 1 := qt_init fp (c_p c) (qt b ! 1)]\<rparr>
         else b)"

definition init_table :: "('b \<Rightarrow> 'b) \<Rightarrow> (nat \<Rightarrow> 'b) \<Rightarrow> nat \<Rightarrow> 'b" where
  "init_table ib t = (\<lambda>i. if i < FLOW_NUM then ib (t i) else t i)"

lemma dh_init_empty:
  assumes "length (ctr b) = 3"
  shows "slot_empty 3 (slots (dh_init_bucket c b))"
proof -
  from assms obtain x y z where "ctr b = [x, y, z]"
    by (auto simp: eval_nat_numeral length_Suc_conv)
  then show ?thesis by (simp add: dh_init_bucket_def slots_def Let_def eval_nat_numeral)
qed

lemma lt_init_slots: "slots (lt_init_bucket c b) = slots (dh_init_bucket c b)"
  by (simp add: lt_init_bucket_def slots_def Let_def)

section \<open>Reports at exit\<close>

text \<open>Run-to-completion: the sum of the third counters, in a \<^verbatim>\<open>uint64_t\<close>.\<close>

definition rtc_dh_report :: "(nat \<Rightarrow> u32 pkt_count) \<Rightarrow> u64" where
  "rtc_dh_report t = fold (\<lambda>i sum. sum + ucast (ctr (t i) ! 2)) [0..<FLOW_NUM] 0"

text \<open>pthread: the number of slots with a non-zero counter.\<close>

definition pth_dh_report :: "(nat \<Rightarrow> u64 pkt_count_sd) \<Rightarrow> u64" where
  "pth_dh_report t = fold (\<lambda>i sum.
     let sum = (if ctr (t i) ! 0 > 0 then sum + 1 else sum)
     in if ctr (t i) ! 1 > 0 then sum + 1 else sum) [0..<FLOW_NUM] 0"

text \<open>L-thread: the number of flows (an \<^verbatim>\<open>int\<close>) and of packets (a \<^verbatim>\<open>uint64_t\<close>) in the two slots.\<close>

definition lt_report :: "(nat \<Rightarrow> u32 pkt_count_qt) \<Rightarrow> int \<times> u64" where
  "lt_report t = fold (\<lambda>i (flows, sum).
     let (flows, sum) = (if ctr (t i) ! 0 > 0 then (flows + 1, sum + ucast (ctr (t i) ! 0)) else (flows, sum))
     in if ctr (t i) ! 1 > 0 then (flows + 1, sum + ucast (ctr (t i) ! 1)) else (flows, sum))
     [0..<FLOW_NUM] (0, 0)"

lemma rtc_dh_report_sum: "rtc_dh_report t = (\<Sum>i < FLOW_NUM. ucast (ctr (t i) ! 2))"
  unfolding rtc_dh_report_def fold_plus_sum by simp

lemma pth_dh_report_sum:
  "pth_dh_report t = (\<Sum>i < FLOW_NUM. of_bool (ctr (t i) ! 0 > 0) + of_bool (ctr (t i) ! 1 > 0))"
proof -
  have "pth_dh_report t = fold (\<lambda>i s. s + (of_bool (ctr (t i) ! 0 > 0) + of_bool (ctr (t i) ! 1 > 0)))
      [0..<FLOW_NUM] 0"
    unfolding pth_dh_report_def by (rule fold_cong) (auto simp: Let_def)
  then show ?thesis by (simp add: fold_plus_sum)
qed

lemma lt_report_fold:
  "fold (\<lambda>i (flows, sum).
     let (flows, sum) = (if c0 i > 0 then (flows + 1, sum + ucast (c0 i)) else (flows, sum))
     in if c1 i > 0 then (flows + 1, sum + ucast (c1 i)) else (flows, sum)) [0..<n] (0 :: int, 0 :: u64)
   = ((\<Sum>i < n. of_bool (c0 i > 0) + of_bool (c1 i > 0)),
      (\<Sum>i < n. ucast (c0 i :: u32) + ucast (c1 i :: u32)))"
proof (induction n)
  case 0
  then show ?case by simp
next
  case (Suc n)
  have "ucast (c0 n) = (0 :: u64)" if "\<not> c0 n > 0" using that by (simp add: word_gt_0)
  moreover have "ucast (c1 n) = (0 :: u64)" if "\<not> c1 n > 0" using that by (simp add: word_gt_0)
  ultimately show ?case using Suc by (auto simp: Let_def)
qed

lemma lt_report_sum:
  "lt_report t = ((\<Sum>i < FLOW_NUM. of_bool (ctr (t i) ! 0 > 0) + of_bool (ctr (t i) ! 1 > 0)),
                  (\<Sum>i < FLOW_NUM. ucast (ctr (t i) ! 0) + ucast (ctr (t i) ! 1)))"
  unfolding lt_report_def by (rule lt_report_fold)

end
