(* ===== verification/Double_Hash_Correct.thy ===== *)
theory Double_Hash_Correct
  imports Double_Hash
begin

text \<open>
  What the three \<^verbatim>\<open>DOUBLE_HASH\<close> loops compute: exact counts for the first two flows of every
  bucket, conservation of packets, the reports at exit, the order of queues, and the flows whose
  tag is zero.
\<close>

section \<open>The loops return\<close>

lemma rtc_dh_upd_total: "\<exists>t'. table_upd bucket_of (rtc_dh_upd c) e t = Inr t'"
  by (simp add: table_upd_def rtc_dh_upd_def)

lemma pth_dh_upd_total: "\<exists>t'. table_upd bucket_of (pth_dh_upd c 16) e t = Inr t'"
  by (simp add: table_upd_def pth_dh_upd_def)

lemma glob_returns: "n \<le> length re \<Longrightarrow> \<exists>g. (if b then ring_total n re else Inr g0) = Inr g"
  by (simp add: ring_total_def)

lemma rtc_double_hash_returns:
  assumes "length (rings s) = n" and "RTC_RX_RINGS \<le> n" and "q < n"
  shows "\<exists>s'. rtc_double_hash c flow_level q bufs s = Inr s' \<and> length (rings s') = n"
proof -
  obtain g where g: "(if c_ipg c then ring_total RTC_RX_RINGS (rings s) else Inr (glob s)) = Inr g"
    using glob_returns [of RTC_RX_RINGS "rings s"] assms by auto
  have r: "ring_add q (length bufs) (rings s) = Inr ((rings s)[q := rings s ! q + of_nat (length bufs)])"
    using assms by (simp add: ring_add_def)
  obtain u where u: "run (rtc_dh_one c) bufs
      (s\<lparr>glob := g, rings := (rings s)[q := rings s ! q + of_nat (length bufs)]\<rparr>) = Inr u"
    using run_one_exists [of "rtc_dh_one c" bucket_of "rtc_dh_upd c" "\<lambda>m. [m]",
        OF rtc_dh_one_def rtc_dh_upd_total] by blast
  with rtc_run_one [OF u] assms g r show ?thesis by (auto simp: rtc_double_hash_def)
qed

lemma pth_double_hash_returns:
  assumes "length (rings s) = n" and "n_rx \<le> n" and "q < n"
  shows "\<exists>s'. pth_count_double_hash c 16 n_rx q bufs s = Inr s' \<and> length (rings s') = n"
proof -
  let ?re = "(rings s)[q := rings s ! q + of_nat (length bufs)]"
  have r: "ring_add q (length bufs) (rings s) = Inr ?re"
    using assms by (simp add: ring_add_def)
  obtain g where g: "(if c_ipg c then ring_total n_rx ?re else Inr (glob s)) = Inr g"
    using glob_returns [of n_rx ?re] assms by auto
  obtain u where u: "run (pth_dh_one c 16) bufs (s\<lparr>rings := ?re, glob := g\<rparr>) = Inr u"
    using run_one_exists [of "pth_dh_one c 16" "\<lambda>e. unat (pth_index_l 16 (rss (snd e)))"
        "pth_dh_upd c 16" "\<lambda>m. [m]", OF pth_dh_one_def, unfolded pth_bucket_16, OF pth_dh_upd_total] by blast
  with pth_run_one [OF u] assms g r show ?thesis by (auto simp: pth_count_double_hash_def)
qed

text \<open>A burst loop whose bursts return, returns.\<close>

lemma run_bursts:
  assumes "\<And>q bufs s. (q, bufs) \<in> set bs \<Longrightarrow> I s \<Longrightarrow> \<exists>s'. burst q bufs s = Inr s' \<and> I s'" and "I s"
  shows "\<exists>s'. run (\<lambda>(q, bufs). burst q bufs) bs s = Inr s' \<and> I s'"
proof (rule run_progress [where I = I, OF assms(2)])
  fix e u
  assume e: "e \<in> set bs" and u: "I u"
  obtain q bufs where "e = (q, bufs)" by (cases e)
  with assms(1) [of q bufs u] e u
  show "\<exists>s'. (case e of (q, bufs) \<Rightarrow> burst q bufs) u = Inr s' \<and> I s'" by simp
qed

lemma rtc_run_returns:
  assumes "RTC_RX_RINGS \<le> length (rings s)" and "\<forall>b \<in> set bs. fst b < length (rings s)"
  shows "\<exists>s'. run (\<lambda>(q, bufs). rtc_double_hash c flow_level q bufs) bs s = Inr s'"
proof -
  have "\<exists>s'. run (\<lambda>(q, bufs). rtc_double_hash c flow_level q bufs) bs s = Inr s' \<and>
      length (rings s') = length (rings s)"
  proof (rule run_bursts)
    fix q bufs and u :: "u32 pkt_count mon_state"
    assume e: "(q, bufs) \<in> set bs" and u: "length (rings u) = length (rings s)"
    have "q < length (rings s)" using bspec [OF assms(2) e] by simp
    then show "\<exists>s'. rtc_double_hash c flow_level q bufs u = Inr s' \<and> length (rings s') = length (rings s)"
      by (rule rtc_double_hash_returns [OF u assms(1)])
  qed simp
  then show ?thesis by blast
qed

lemma pth_run_returns:
  assumes "n_rx \<le> length (rings s)" and "\<forall>b \<in> set bs. fst b < length (rings s)"
  shows "\<exists>s'. run (\<lambda>(q, bufs). pth_count_double_hash c 16 n_rx q bufs) bs s = Inr s'"
proof -
  have "\<exists>s'. run (\<lambda>(q, bufs). pth_count_double_hash c 16 n_rx q bufs) bs s = Inr s' \<and>
      length (rings s') = length (rings s)"
  proof (rule run_bursts)
    fix q bufs and u :: "u64 pkt_count_sd mon_state"
    assume e: "(q, bufs) \<in> set bs" and u: "length (rings u) = length (rings s)"
    have "q < length (rings s)" using bspec [OF assms(2) e] by simp
    then show "\<exists>s'. pth_count_double_hash c 16 n_rx q bufs u = Inr s' \<and>
        length (rings s') = length (rings s)"
      by (rule pth_double_hash_returns [OF u assms(1)])
  qed simp
  then show ?thesis by blast
qed

section \<open>Concrete inputs\<close>

text \<open>
  Sample bursts for the examples below: three flows of bucket 5 and one of bucket 6, received in
  two bursts from queue 0.
\<close>

definition ex_bursts :: "(nat \<times> mbuf list) list" where
  "ex_bursts =
     [(0, [\<lparr>mb_id = 1, rss = 0x00010005\<rparr>, \<lparr>mb_id = 2, rss = 0x00020005\<rparr>, \<lparr>mb_id = 3, rss = 0x00010005\<rparr>]),
      (0, [\<lparr>mb_id = 4, rss = 0x00030005\<rparr>, \<lparr>mb_id = 5, rss = 0x00010006\<rparr>])]"

definition ex_cfg :: cfg where
  "ex_cfg = \<lparr>c_ipg = True, c_quantile = True, c_p = 99 / 100, c_fpu = exact_fpu\<rparr>"

definition ex_state :: "(nat \<Rightarrow> 'b) \<Rightarrow> 'b mon_state" where
  "ex_state t = \<lparr>rings = [0], glob = 0, tbl = t, freed = []\<rparr>"

definition rtc_zero :: "u32 pkt_count" where
  "rtc_zero = \<lparr>hi_f1 = 0, hi_f2 = 0, ctr = [0, 0, 0], ipg = [0, 0], avg = [0, 0]\<rparr>"

definition pth_zero :: "u64 pkt_count_sd" where
  "pth_zero = \<lparr>hi_f1 = 0, hi_f2 = 0, ctr = [0, 0, 0], ipg = [0, 0], avg = [0, 0], stdDev = [0, 0]\<rparr>"

definition lt_zero :: "u32 pkt_count_qt" where
  "lt_zero = \<lparr>hi_f1 = 0, hi_f2 = 0, ctr = [0, 0, 0], ipg = [0, 0], avg = [0, 0], stdDev = [0, 0],
     qt = [qt_zero, qt_zero]\<rparr>"

lemma h_tag_numeral: "h_tag h = ucast (drop_bit 16 h)"
  by (simp add: h_tag_def rss_index_h_drop_bit)

lemma h_slot_numeral: "h_slot h = unat (take_bit 16 h)"
  by (simp add: h_slot_def rss_index_l_take_bit)

lemma ex_bursts_facts:
  "\<forall>m \<in> set (packets ex_bursts). h_tag (rss m) \<noteq> 0" "length (packets ex_bursts) = 5"
  "\<forall>b \<in> set ex_bursts. fst b < 1" "card (rss ` set (packets ex_bursts)) = 4"
  by (simp_all add: ex_bursts_def h_tag_numeral card_insert_if)

lemma ex_state_facts [simp]:
  "rings (ex_state t) = [0]" "glob (ex_state t) = 0" "tbl (ex_state t) = t" "freed (ex_state t) = []"
  by (simp_all add: ex_state_def)

section \<open>Exact counts for the first two flows of a bucket\<close>

lemma dh_start:
  assumes "\<forall>i < FLOW_NUM. length (ctr (t i)) = 3"
  shows "\<forall>i < FLOW_NUM. slot_empty 3 (slots (init_table (dh_init_bucket c) t i))"
    and "\<forall>i < FLOW_NUM. slot_wf 3 (slots (init_table (dh_init_bucket c) t i))"
  using assms by (simp_all add: init_table_def dh_init_empty slot_empty_facts(1) [of 3])

lemma rtc_dh_start:
  assumes "RTC_RX_RINGS \<le> length (rings s)" and "\<forall>b \<in> set bs. fst b < length (rings s)"
    and "\<forall>i < FLOW_NUM. length (ctr (t i)) = 3" and "tbl s = init_table (dh_init_bucket c) t"
  obtains s' es where "run (\<lambda>(q, bufs). rtc_double_hash c True q bufs) bs s = Inr s'"
    and "run (table_upd bucket_of (rtc_dh_upd c)) es (tbl s) = Inr (tbl s')"
    and "map snd es = packets bs" and "\<forall>i < FLOW_NUM. slot_empty 3 (slots (tbl s i))"
proof -
  obtain s' where s': "run (\<lambda>(q, bufs). rtc_double_hash c True q bufs) bs s = Inr s'"
    using rtc_run_returns [OF assms(1,2)] by blast
  obtain es where es: "map snd es = packets bs"
    "run (table_upd bucket_of (rtc_dh_upd c)) es (tbl s) = Inr (tbl s')"
    using rtc_dh_loop.run_events [OF s'] by blast
  show thesis
    by (rule that [OF s' es(2,1)]) (use dh_start(1) [OF assms(3)] in \<open>simp add: assms(4)\<close>)
qed

lemma pth_dh_start:
  assumes "n_rx \<le> length (rings s)" and "\<forall>b \<in> set bs. fst b < length (rings s)"
    and "\<forall>i < FLOW_NUM. length (ctr (t i)) = 3" and "tbl s = init_table (dh_init_bucket c) t"
  obtains s' es where "run (\<lambda>(q, bufs). pth_count_double_hash c 16 n_rx q bufs) bs s = Inr s'"
    and "run (table_upd bucket_of (pth_dh_upd c 16)) es (tbl s) = Inr (tbl s')"
    and "map snd es = packets bs" and "\<forall>i < FLOW_NUM. slot_empty 3 (slots (tbl s i))"
proof -
  obtain s' where s': "run (\<lambda>(q, bufs). pth_count_double_hash c 16 n_rx q bufs) bs s = Inr s'"
    using pth_run_returns [OF assms(1,2)] by blast
  obtain es where es: "map snd es = packets bs"
    "run (table_upd bucket_of (pth_dh_upd c 16)) es (tbl s) = Inr (tbl s')"
    using pth_dh_loop.run_events [OF s'] by blast
  show thesis
    by (rule that [OF s' es(2,1)]) (use dh_start(1) [OF assms(3)] in \<open>simp add: assms(4)\<close>)
qed



text \<open>
  C15: The pthread counting thread, with the 16-bit masks, counts the first two flows of every
  bucket exactly (modulo \<open>2^64\<close>), whatever ring the packets come through.
\<close>

theorem pth_double_hash_counts:
  assumes "n_rx \<le> length (rings s)" and "\<forall>b \<in> set bs. fst b < length (rings s)"
    and "\<forall>i < FLOW_NUM. length (ctr (t i)) = 3" and "tbl s = init_table (dh_init_bucket c) t"
    and "\<forall>m \<in> set (packets bs). h_tag (rss m) \<noteq> 0"
  shows "\<exists>s'. run (\<lambda>(q, bufs). pth_count_double_hash c 16 n_rx q bufs) bs s = Inr s' \<and>
    two_flow_counts (\<lambda>i. slots (tbl s' i)) (packets bs)"
proof -
  obtain s' es where r: "run (\<lambda>(q, bufs). pth_count_double_hash c 16 n_rx q bufs) bs s = Inr s'"
    "run (table_upd bucket_of (pth_dh_upd c 16)) es (tbl s) = Inr (tbl s')"
    "map snd es = packets bs" "\<forall>i < FLOW_NUM. slot_empty 3 (slots (tbl s i))"
    by (rule pth_dh_start [OF assms(1-4)])
  from r(1) pth_dh.table_two_flow_counts [OF r(2-4) assms(5)] show ?thesis by blast
qed

theorem pth_double_hash_counts_witness:
  "\<exists>s'. run (\<lambda>(q, bufs). pth_count_double_hash ex_cfg 16 1 q bufs) ex_bursts
      (ex_state (init_table (dh_init_bucket ex_cfg) (\<lambda>_. pth_zero))) = Inr s' \<and>
    two_flow_counts (\<lambda>i. slots (tbl s' i)) (packets ex_bursts)"
  by (rule pth_double_hash_counts [where t = "\<lambda>_. pth_zero"])
    (use ex_bursts_facts in \<open>simp_all add: pth_zero_def\<close>)

section \<open>The L-thread version with quantiles\<close>

text \<open>
  A bucket whose estimators are well formed and whose last positions are below \<open>2^31\<close>: no gap
  computed from it leaves the range of an \<^verbatim>\<open>int\<close>, so the insertion sort of the estimator is
  defined.
\<close>

definition slot_qt_ok :: "cfg \<Rightarrow> ('w::len word, 'z) pkt_count_qt_scheme \<Rightarrow> bool" where
  "slot_qt_ok c b \<longleftrightarrow> c_ipg c \<and> c_quantile c \<longrightarrow> length (ipg b) = 2 \<and> length (qt b) = 2 \<and>
     (\<forall>i < 2. unat (ipg b ! i) < 2 ^ 31 \<and> qt_wf (c_fpu c) (qt b ! i) \<and> (\<exists>vs. qt_seen (qt b ! i) vs))"

lemma gap_fits_int:
  assumes "unat g < 2 ^ 31" and "unat p < 2 ^ 31"
  shows "fits_int (sint (gap g p))"
proof -
  have "sint (gap g p) = int (unat g) - 1 - int (unat p)" using assms by (intro sint_gap) simp_all
  moreover have "unat g < 2147483648" "unat p < 2147483648" using assms by simp_all
  ultimately have "- 2147483648 \<le> sint (gap g p)" "sint (gap g p) < 2147483648" by linarith+
  then show ?thesis by (simp add: fits_int_def)
qed

lemma slot_hit_ok:
  assumes fp: "ieee_double (c_fpu c)" and ok: "slot_qt_ok c b" and g: "unat g < 2 ^ 31" and i: "i < 2"
  shows "\<exists>b'. slot_hit c g i b = Inr b' \<and> slot_qt_ok c b'"
proof (cases "c_ipg c \<and> c_quantile c")
  case False
  then show ?thesis by (auto simp: slot_hit_def Let_def slot_qt_ok_def)
next
  case True
  with ok i obtain vs where o: "length (ipg b) = 2" "length (qt b) = 2" "unat (ipg b ! i) < 2 ^ 31"
    "qt_wf (c_fpu c) (qt b ! i)" "qt_seen (qt b ! i) vs" by (auto simp: slot_qt_ok_def)
  obtain t vs' where t: "qt_feed (c_fpu c) (c_p c) (gap g (ipg b ! i)) (qt b ! i) = Inr t"
    "qt_wf (c_fpu c) t" "qt_seen t vs'"
    using qt_feed_step [OF fp o(4,5) gap_fits_int [OF g o(3)]] by blast
  show ?thesis
    using t o ok i g True by (auto simp: slot_hit_def Let_def slot_qt_ok_def nth_list_update)
qed

lemma slot_qt_ok_frame:
  assumes "slot_qt_ok c b" and "ipg b' = ipg b \<or> (\<exists>i. ipg b' = (ipg b)[i := 0])" and "qt b' = qt b"
  shows "slot_qt_ok c b'"
  using assms by (auto simp: slot_qt_ok_def nth_list_update_if)

lemma lt_packet_ok:
  assumes "ieee_double (c_fpu c)" and "slot_qt_ok c b" and "unat g < 2 ^ 31"
  shows "\<exists>b'. lt_packet c g k b = Inr b' \<and> slot_qt_ok c b'"
proof -
  note h = slot_hit_ok [OF assms, of 0] slot_hit_ok [OF assms, of 1]
  have "slot_qt_ok c b'" if "ipg b' = ipg b \<or> ipg b' = (ipg b)[0 := 0] \<or> ipg b' = (ipg b)[1 := 0]"
    "qt b' = qt b" for b' :: "u32 pkt_count_qt"
    by (rule slot_qt_ok_frame [OF assms(2)]) (use that in auto)
  with h show ?thesis by (auto simp: lt_packet_def Let_def)
qed

lemma lt_run_one_ok:
  assumes "ieee_double (c_fpu c)" and "\<forall>i < FLOW_NUM. slot_qt_ok c (tbl s i)" and "unat (glob s) < 2 ^ 31"
  shows "\<exists>s'. run (lt_one c) bufs s = Inr s' \<and> (\<forall>i < FLOW_NUM. slot_qt_ok c (tbl s' i)) \<and> rings s' = rings s"
  using assms(2,3)
proof (induction bufs arbitrary: s)
  case Nil
  then show ?case by simp
next
  case (Cons m bufs)
  let ?i = "bucket_of (glob s, m)"
  obtain b where b: "lt_upd c (glob s, m) (tbl s ?i) = Inr b" "slot_qt_ok c b"
    using lt_packet_ok [OF assms(1) Cons.prems(1) [rule_format, of ?i] Cons.prems(2)]
    by (auto simp: lt_upd_def)
  let ?u = "s\<lparr>tbl := (tbl s)(?i := b), freed := freed s @ [m]\<rparr>"
  have "lt_one c m s = Inr ?u" using b(1) by (simp add: lt_one_def table_upd_def)
  moreover have "\<exists>s'. run (lt_one c) bufs ?u = Inr s' \<and> (\<forall>i < FLOW_NUM. slot_qt_ok c (tbl s' i)) \<and> rings s' = rings ?u"
    using Cons.IH [of ?u] Cons.prems b(2) by simp
  ultimately show ?case by simp
qed

lemma lt_burst_ok:
  assumes fp: "ieee_double (c_fpu c)" and len: "length (rings s) = n_rx" and q: "q < n_rx"
    and k: "sum_list (rings s) = of_nat k" "k + length bufs < 2 ^ 31"
    and ok: "\<forall>i < FLOW_NUM. slot_qt_ok c (tbl s i)" and g: "unat (glob s) < 2 ^ 31"
  shows "\<exists>s'. lt_tx_per_ring c n_rx q bufs s = Inr s' \<and> length (rings s') = n_rx \<and>
    sum_list (rings s') = of_nat (k + length bufs) \<and> (\<forall>i < FLOW_NUM. slot_qt_ok c (tbl s' i)) \<and>
    unat (glob s') < 2 ^ 31"
proof (cases "bufs = []")
  case True
  with assms show ?thesis by (simp add: lt_tx_per_ring_def)
next
  case False
  obtain re where re: "ring_add q (length bufs) (rings s) = Inr re" "length re = n_rx"
    using len q by (auto simp: ring_add_def)
  have sum: "sum_list re = of_nat (k + length bufs)" using ring_add_sum [OF re(1)] k(1) by simp
  define g' where "g' = (if c_ipg c then sum_list re else glob s)"
  have g': "(if c_ipg c then ring_total n_rx re else Inr (glob s)) = Inr g'"
    using ring_total_all [of re] re(2) by (simp add: g'_def)
  have "unat (sum_list re) = k + length bufs" unfolding sum
    using k(2) by (intro unat_of_nat_small) simp
  then have small: "unat g' < 2 ^ 31" using k(2) g by (simp add: g'_def)
  obtain s' where "run (lt_one c) bufs (s\<lparr>rings := re, glob := g'\<rparr>) = Inr s'"
    "\<forall>i < FLOW_NUM. slot_qt_ok c (tbl s' i)" "rings s' = re"
    using lt_run_one_ok [OF fp, of "s\<lparr>rings := re, glob := g'\<rparr>" bufs] ok small by auto
  with lt_run_one [OF this(1)] False re sum g' small show ?thesis
    by (simp add: lt_tx_per_ring_def)
qed

lemma lt_run_returns:
  assumes fp: "ieee_double (c_fpu c)" and "length (rings s) = n_rx" and "\<forall>b \<in> set bs. fst b < n_rx"
    and "sum_list (rings s) = of_nat k" and "k + length (packets bs) < 2 ^ 31"
    and "\<forall>i < FLOW_NUM. slot_qt_ok c (tbl s i)" and "unat (glob s) < 2 ^ 31"
  shows "\<exists>s'. run (\<lambda>(q, bufs). lt_tx_per_ring c n_rx q bufs) bs s = Inr s'"
  using assms(2-)
proof (induction bs arbitrary: s k)
  case Nil
  then show ?case by simp
next
  case (Cons b bs)
  obtain q bufs where b: "b = (q, bufs)" by (cases b)
  obtain u where u: "lt_tx_per_ring c n_rx q bufs s = Inr u" "length (rings u) = n_rx"
    "sum_list (rings u) = of_nat (k + length bufs)" "\<forall>i < FLOW_NUM. slot_qt_ok c (tbl u i)"
    "unat (glob u) < 2 ^ 31"
    using lt_burst_ok [OF fp Cons.prems(1) _ Cons.prems(3) _ Cons.prems(5,6), of q bufs]
      Cons.prems(2,4) by (auto simp: b)
  have "\<exists>s'. run (\<lambda>(q, bufs). lt_tx_per_ring c n_rx q bufs) bs u = Inr s'"
    by (rule Cons.IH [OF u(2) _ u(3) _ u(4,5)]) (use Cons.prems(2,4) b in simp_all)
  with u(1) show ?case by (simp add: b)
qed

text \<open>The table of the L-thread version at start-up: zeroed by \<^verbatim>\<open>rte_calloc\<close> or the loader.\<close>

definition lt_zeroed :: "u32 pkt_count_qt \<Rightarrow> bool" where
  "lt_zeroed b \<longleftrightarrow> length (ctr b) = 3 \<and> ipg b = [0, 0] \<and> length (avg b) = 2 \<and> length (stdDev b) = 2 \<and>
     length (qt b) = 2 \<and> (\<forall>i < 2. length (qt_q (qt b ! i)) = 5 \<and> qt_l (qt b ! i) = 0)"

lemma lt_zeroed_ok:
  assumes "lt_zeroed b"
  shows "slot_qt_ok c (lt_init_bucket c b)"
proof (cases "c_ipg c \<and> c_quantile c")
  case False
  then show ?thesis by (auto simp: slot_qt_ok_def)
next
  case True
  from assms obtain t0 t1 where q: "qt b = [t0, t1]"
    by (auto simp: lt_zeroed_def eval_nat_numeral length_Suc_conv)
  have "length (qt_q t0) = 5 \<and> qt_l t0 = 0" "length (qt_q t1) = 5 \<and> qt_l t1 = 0"
    using assms by (auto simp: lt_zeroed_def q dest: spec [of _ 0] spec [of _ 1])
  then have "qt_wf (c_fpu c) (qt_init (c_fpu c) (c_p c) t) \<and> qt_seen (qt_init (c_fpu c) (c_p c) t) []"
    if "t = t0 \<or> t = t1" for t using qt_init_start that by blast
  with True assms show ?thesis
    by (auto simp: slot_qt_ok_def lt_init_bucket_def dh_init_bucket_def Let_def lt_zeroed_def q
        less_2_cases_iff)
qed

lemma lt_start:
  assumes "ieee_double (c_fpu c)" and "rings s = replicate n_rx 0" and "unat (glob s) < 2 ^ 31"
    and "\<forall>b \<in> set bs. fst b < n_rx" and "length (packets bs) < 2 ^ 31"
    and "\<forall>i < FLOW_NUM. lt_zeroed (t i)" and "tbl s = init_table (lt_init_bucket c) t"
  obtains s' es where "run (\<lambda>(q, bufs). lt_tx_per_ring c n_rx q bufs) bs s = Inr s'"
    and "run (table_upd bucket_of (lt_upd c)) es (tbl s) = Inr (tbl s')"
    and "map snd es = packets bs" and "\<forall>i < FLOW_NUM. slot_empty 3 (slots (tbl s i))"
proof -
  have ok: "\<forall>i < FLOW_NUM. slot_qt_ok c (tbl s i)"
    using assms(6) lt_zeroed_ok by (simp add: assms(7) init_table_def)
  have r: "length (rings s) = n_rx" "sum_list (rings s) = of_nat 0" "0 + length (packets bs) < 2 ^ 31"
    using assms(2,5) by (simp_all add: sum_list_replicate)
  obtain s' where s': "run (\<lambda>(q, bufs). lt_tx_per_ring c n_rx q bufs) bs s = Inr s'"
    using lt_run_returns [OF assms(1) r(1) assms(4) r(2,3) ok assms(3)] by blast
  obtain es where es: "map snd es = packets bs"
    "run (table_upd bucket_of (lt_upd c)) es (tbl s) = Inr (tbl s')"
    using lt_loop.run_events [OF s'] by blast
  have "\<forall>i < FLOW_NUM. slot_empty 3 (slots (tbl s i))"
    using assms(6) by (simp add: assms(7) init_table_def lt_init_slots dh_init_empty lt_zeroed_def)
  then show thesis by (rule that [OF s' es(2,1)])
qed

text \<open>
  C5: The L-thread consumer with IPG statistics and quantiles never runs into undefined
  behaviour while fewer than \<open>2^31\<close> packets have been received: started on the zeroed and
  initialised table it processes any sequence of bursts, counts the first two flows of every bucket
  exactly and the packets of all others in the third counter.
\<close>

theorem lt_tx_per_ring_counts:
  assumes "ieee_double (c_fpu c)" and "rings s = replicate n_rx 0" and "unat (glob s) < 2 ^ 31"
    and "\<forall>b \<in> set bs. fst b < n_rx" and "length (packets bs) < 2 ^ 31"
    and "\<forall>i < FLOW_NUM. lt_zeroed (t i)" and "tbl s = init_table (lt_init_bucket c) t"
    and "\<forall>m \<in> set (packets bs). h_tag (rss m) \<noteq> 0"
  shows "\<exists>s'. run (\<lambda>(q, bufs). lt_tx_per_ring c n_rx q bufs) bs s = Inr s' \<and>
    two_flow_counts (\<lambda>i. slots (tbl s' i)) (packets bs) \<and>
    third_flow_counts (\<lambda>i. slots (tbl s' i)) (packets bs)"
proof -
  obtain s' es where r: "run (\<lambda>(q, bufs). lt_tx_per_ring c n_rx q bufs) bs s = Inr s'"
    "run (table_upd bucket_of (lt_upd c)) es (tbl s) = Inr (tbl s')"
    "map snd es = packets bs" "\<forall>i < FLOW_NUM. slot_empty 3 (slots (tbl s i))"
    by (rule lt_start [OF assms(1-7)])
  from r(1) lt_dh.table_two_flow_counts [OF r(2-4) assms(8)]
    lt_dh.table_third_flow_counts [OF r(2-4) assms(8)] show ?thesis by blast
qed

lemma lt_zero_zeroed: "lt_zeroed lt_zero"
  by (simp add: lt_zeroed_def lt_zero_def qt_zero_def less_2_cases_iff)

lemma ex_cfg_fpu [simp]: "c_fpu ex_cfg = exact_fpu"
  by (simp add: ex_cfg_def)

theorem lt_tx_per_ring_counts_witness:
  "\<exists>s'. run (\<lambda>(q, bufs). lt_tx_per_ring ex_cfg 1 q bufs) ex_bursts
      (ex_state (init_table (lt_init_bucket ex_cfg) (\<lambda>_. lt_zero))) = Inr s' \<and>
    two_flow_counts (\<lambda>i. slots (tbl s' i)) (packets ex_bursts) \<and>
    third_flow_counts (\<lambda>i. slots (tbl s' i)) (packets ex_bursts)"
  by (rule lt_tx_per_ring_counts [where t = "\<lambda>_. lt_zero"])
    (use ex_bursts_facts in \<open>simp_all add: lt_zero_zeroed\<close>)

section \<open>No packet is lost or counted twice\<close>

context audited_slots
begin

lemma run_slot_sum:
  assumes "run upd es b = Inr b'" and "length (snd (snd (sl b))) = 3"
  shows "slot_sum (sl b') = slot_sum (sl b) + of_nat (length es)"
  using assms
proof (induction es arbitrary: b)
  case Nil
  then show ?case by simp
next
  case (Cons e es)
  from Cons.prems(1) obtain u where u: "upd e b = Inr u" "run upd es u = Inr b'"
    by (rule run_ConsE)
  have su: "sl u = slot_step True (tag e) (sl b)" by (rule refines [OF u(1)])
  have l: "length (snd (snd (sl u))) = 3" using Cons.prems(2) by (simp add: su del: slot_step.simps)
  have "slot_sum (sl u) = slot_sum (sl b) + 1" unfolding su by (rule slot_step_sum [OF Cons.prems(2)])
  with Cons.IH [OF u(2) l] show ?case by simp
qed

lemma table_slot_sum:
  assumes r: "run (table_upd bucket_of upd) es t = Inr t'" and ms: "map snd es = ms"
    and l: "length (snd (snd (sl (t i)))) = 3"
  shows "slot_sum (sl (t' i)) = slot_sum (sl (t i)) + of_nat (length (filter (\<lambda>m. h_slot (rss m) = i) ms))"
proof -
  have "length (filter (\<lambda>m. h_slot (rss m) = i) ms) = length (filter (\<lambda>e. bucket_of e = i) es)"
    by (simp add: filter_map bucket_of_def comp_def flip: ms)
  with run_slot_sum [OF run_table [OF r] l] show ?thesis by simp
qed

end

text \<open>
  Every received packet is counted exactly once in its bucket by the run-to-completion loop,
  whatever its tag, including the tag zero: the three counters of a bucket grow by the number of
  its packets, and the queue counters by the packets of the queue.
\<close>

theorem rtc_double_hash_conserves:
  assumes "RTC_RX_RINGS \<le> length (rings s)" and "\<forall>b \<in> set bs. fst b < length (rings s)"
    and "\<forall>i < FLOW_NUM. length (ctr (tbl s i)) = 3"
  shows "\<exists>s'. run (\<lambda>(q, bufs). rtc_double_hash c True q bufs) bs s = Inr s' \<and>
    (\<forall>i < FLOW_NUM. sum_list (ctr (tbl s' i)) = sum_list (ctr (tbl s i)) +
       of_nat (length (filter (\<lambda>m. h_slot (rss m) = i) (packets bs)))) \<and>
    (\<forall>q < length (rings s). rings s' ! q = rings s ! q +
       of_nat (length (packets (filter (\<lambda>b. fst b = q) bs))))"
proof -
  obtain s' where s': "run (\<lambda>(q, bufs). rtc_double_hash c True q bufs) bs s = Inr s'"
    using rtc_run_returns [OF assms(1,2)] by blast
  obtain es where es: "map snd es = packets bs"
    "run (table_upd bucket_of (rtc_dh_upd c)) es (tbl s) = Inr (tbl s')"
    using rtc_dh_loop.run_events [OF s'] by blast
  have "sum_list (ctr (tbl s' i)) = sum_list (ctr (tbl s i)) +
       of_nat (length (filter (\<lambda>m. h_slot (rss m) = i) (packets bs)))" if "i < FLOW_NUM" for i
    using rtc_dh.table_slot_sum [OF es(2,1), of i] assms(3) that by (simp add: slots_def)
  with s' rtc_dh_loop.run_rings [OF s'] show ?thesis by blast
qed

theorem rtc_double_hash_conserves_witness:
  "\<exists>s'. run (\<lambda>(q, bufs). rtc_double_hash ex_cfg True q bufs) ex_bursts (ex_state (\<lambda>_. rtc_zero)) = Inr s' \<and>
    sum_list (ctr (tbl s' 5)) = 4 \<and> rings s' ! 0 = 5"
proof -
  have f: "length (filter (\<lambda>m. h_slot (rss m) = 5) (packets ex_bursts)) = 4"
    "length (packets (filter (\<lambda>b. fst b = 0) ex_bursts)) = 5"
    by (simp_all add: ex_bursts_def h_slot_numeral)
  have "5 < FLOW_NUM" by (simp add: FLOW_NUM_def)
  with rtc_double_hash_conserves [of "ex_state (\<lambda>_. rtc_zero)" ex_bursts ex_cfg] f ex_bursts_facts(3)
  show ?thesis by (force simp: RTC_RX_RINGS_def rtc_zero_def)
qed

section \<open>Flows whose tag is zero\<close>

text \<open>
  Zero marks an empty slot, so a flow whose tag is zero is never recorded and its packets are
  credited to another flow: after any number of packets of it, the next flow of the bucket takes
  over the slot with all their counts.
\<close>

theorem zero_tag_absorbed:
  assumes "slot_empty 3 (slots b)" and "\<forall>e \<in> set zs. tag e = 0" and "es \<noteq> []"
    and "\<forall>e \<in> set es. tag e = k" and "k \<noteq> 0"
  shows "\<exists>b'. run (rtc_dh_upd c) (zs @ es) b = Inr b' \<and>
    slots b' = (k, 0, [of_nat (length zs + length es), 0, 0])"
proof -
  have z: "slot_step True 0 (0, 0, [x, 0, 0]) = (0, 0, [x + 1, 0, 0])" for x :: u32
    by (simp add: bump_def)
  have n: "slot_step True k (f, 0, [x, 0, 0]) = (k, 0, [x + 1, 0, 0])" if "f = 0 \<or> f = k" for x :: u32 and f
    using that assms(5) by (auto simp: bump_def)
  have 1: "\<exists>b'. run (rtc_dh_upd c) zs b = Inr b' \<and> slots b' = (0, 0, [of_nat (length zs), 0, 0])"
    using assms(2)
  proof (induction zs rule: rev_induct)
    case Nil
    with assms(1) show ?case by (cases "slots b") (simp add: eval_nat_numeral)
  next
    case (snoc e zs)
    then obtain b1 where "run (rtc_dh_upd c) zs b = Inr b1" "slots b1 = (0, 0, [of_nat (length zs), 0, 0])"
      by auto
    moreover obtain b2 where b2: "rtc_dh_upd c e b1 = Inr b2" by (simp add: rtc_dh_upd_def)
    moreover have "slots b2 = (0, 0, [of_nat (length zs) + 1, 0, 0])"
      using rtc_dh_upd_slots [OF b2] calculation(2) z snoc.prems by simp
    ultimately show ?case by (simp add: run_append add.commute)
  qed
  have 2: "\<exists>b'. run (rtc_dh_upd c) (zs @ es) b = Inr b' \<and>
      slots b' = (if es = [] then 0 else k, 0, [of_nat (length zs + length es), 0, 0])"
    using assms(4)
  proof (induction es rule: rev_induct)
    case Nil
    with 1 show ?case by simp
  next
    case (snoc e es)
    then obtain b1 where b1: "run (rtc_dh_upd c) (zs @ es) b = Inr b1"
      "slots b1 = (if es = [] then 0 else k, 0, [of_nat (length zs + length es), 0, 0])" by auto
    obtain b2 where b2: "rtc_dh_upd c e b1 = Inr b2" by (simp add: rtc_dh_upd_def)
    from rtc_dh_upd_slots [OF b2] b1(2) n snoc.prems
    have "slots b2 = (k, 0, [of_nat (length zs + length es) + 1, 0, 0])" by (auto simp del: slot_step.simps)
    with b1(1) b2 show ?case by (simp add: run_append add_ac flip: append_assoc)
  qed
  with assms(3) show ?thesis by simp
qed

theorem zero_tag_absorbed_witness:
  "\<exists>b'. run (rtc_dh_upd ex_cfg) ([(3, \<lparr>mb_id = 1, rss = 5\<rparr>)] @ [(4, \<lparr>mb_id = 2, rss = 0x00010005\<rparr>)])
     rtc_zero = Inr b' \<and> slots b' = (1, 0, [2, 0, 0])"
proof -
  have "slot_empty 3 (slots rtc_zero)" by (simp add: rtc_zero_def slots_def numeral_3_eq_3)
  moreover have "\<forall>e \<in> set [(3, \<lparr>mb_id = 1, rss = 5\<rparr>)]. tag e = 0"
    "\<forall>e \<in> set [(4, \<lparr>mb_id = 2, rss = 0x00010005\<rparr>)]. tag e = 1"
    by (simp_all add: tag_def h_tag_numeral)
  ultimately show ?thesis
    using zero_tag_absorbed [of rtc_zero "[(3, \<lparr>mb_id = 1, rss = 5\<rparr>)]" "[(4, \<lparr>mb_id = 2, rss = 0x00010005\<rparr>)]" 1 ex_cfg]
    by simp
qed

section \<open>The reports at exit\<close>

text \<open>What the table says of the packets \<open>ms\<close>: the flows with an entry, and their packets.\<close>

definition has_entry :: "(nat \<Rightarrow> ('w::len word) slots) \<Rightarrow> mbuf \<Rightarrow> bool" where
  "has_entry t m \<longleftrightarrow> h_tag (rss m) \<in> slot_tracked (t (h_slot (rss m)))"

definition flows_kept :: "mbuf list \<Rightarrow> nat" where
  "flows_kept ms = (\<Sum>i < FLOW_NUM. min 2 (card (seen_tags ms i)))"

lemma sum_bucket_packets:
  "(\<Sum>i < FLOW_NUM. length (filter (\<lambda>m. h_slot (rss m) = i \<and> P m i) ms)) =
     length (filter (\<lambda>m. P m (h_slot (rss m))) ms)"
  by (rule sum_length_filter) simp

lemma sum_ucast_of_nat:
  assumes "\<And>i. i < n \<Longrightarrow> f i < 2 ^ LENGTH('a)"
  shows "(\<Sum>i < n. ucast (of_nat (f i) :: 'a::len word)) = (of_nat (\<Sum>i < n. f i) :: 'b::len word)"
  unfolding of_nat_sum by (rule sum.cong) (use assms in \<open>auto simp: ucast_of_nat_small\<close>)

lemma rtc_report_untracked:
  assumes "third_flow_counts (\<lambda>i. slots (t i)) ms" and "length ms < 2 ^ 32"
  shows "unat (rtc_dh_report t) = length (filter (\<lambda>m. \<not> has_entry (\<lambda>i. slots (t i)) m) ms)"
proof -
  let ?f = "\<lambda>i. length (filter (\<lambda>m. h_slot (rss m) = i \<and> h_tag (rss m) \<notin> slot_tracked (slots (t i))) ms)"
  have le: "?f i < 2 ^ LENGTH(32)" for i
    using length_filter_less [OF assms(2)] by simp
  have "ctr (t i) ! 2 = of_nat (?f i)" if "i < FLOW_NUM" for i
    using assms(1) that by (simp add: third_flow_counts_def slots_def)
  then have "rtc_dh_report t = (\<Sum>i < FLOW_NUM. ucast (of_nat (?f i) :: u32))"
    unfolding rtc_dh_report_sum by (intro sum.cong) auto
  also have "\<dots> = of_nat (\<Sum>i < FLOW_NUM. ?f i)" by (rule sum_ucast_of_nat [OF le])
  also have "(\<Sum>i < FLOW_NUM. ?f i) = length (filter (\<lambda>m. \<not> has_entry (\<lambda>i. slots (t i)) m) ms)"
    unfolding has_entry_def by (rule sum_bucket_packets)
  finally show ?thesis
    using length_filter_less [of ms "2 ^ 64"] assms(2) by (simp add: unat_of_nat_small)
qed

lemma flows_kept_bound: "flows_kept ms \<le> 131072"
proof -
  have "flows_kept ms \<le> (\<Sum>i < FLOW_NUM. 2)" unfolding flows_kept_def by (rule sum_mono) simp
  then show ?thesis by (simp add: FLOW_NUM_def)
qed

lemma dh_bucket_flows:
  fixes t :: "nat \<Rightarrow> ('w::len word, 'z) pkt_count_scheme"
  assumes "two_flow_counts (\<lambda>i. slots (t i)) ms" and "i < FLOW_NUM" and "slot_wf 3 (slots (t i))"
    and "length ms < 2 ^ LENGTH('w)"
  shows "of_bool (ctr (t i) ! 0 > 0) + of_bool (ctr (t i) ! 1 > 0) = min 2 (card (seen_tags ms i))"
    and "unat (ctr (t i) ! 0) + unat (ctr (t i) ! 1) =
      length (filter (\<lambda>m. h_slot (rss m) = i \<and> h_tag (rss m) \<in> slot_tracked (slots (t i))) ms)"
  using two_slot_report [OF assms(1,2,3) slots_def assms(4)] by simp_all

lemma pth_report_flows:
  assumes "two_flow_counts (\<lambda>i. slots (t i)) ms" and "\<forall>i < FLOW_NUM. slot_wf 3 (slots (t i))"
    and "length ms < 2 ^ 64"
  shows "unat (pth_dh_report t) = flows_kept ms"
proof -
  have "pth_dh_report t = (\<Sum>i < FLOW_NUM. of_nat (min 2 (card (seen_tags ms i))))"
    unfolding pth_dh_report_sum
  proof (rule sum.cong)
    fix i assume "i \<in> {..<FLOW_NUM}"
    then have "of_nat (of_bool (ctr (t i) ! 0 > 0) + of_bool (ctr (t i) ! 1 > 0)) =
        (of_nat (min 2 (card (seen_tags ms i))) :: u64)"
      using dh_bucket_flows(1) [OF assms(1)] assms(2,3) by simp
    then show "of_bool (ctr (t i) ! 0 > 0) + of_bool (ctr (t i) ! 1 > 0) =
        (of_nat (min 2 (card (seen_tags ms i))) :: u64)" by simp
  qed simp
  then have "pth_dh_report t = of_nat (flows_kept ms)" by (simp add: flows_kept_def)
  then show ?thesis using flows_kept_bound [of ms] by (simp add: unat_of_nat_small)
qed

lemma lt_report_flows:
  assumes "two_flow_counts (\<lambda>i. slots (t i)) ms" and "\<forall>i < FLOW_NUM. slot_wf 3 (slots (t i))"
    and "length ms < 2 ^ 32"
  shows "lt_report t = (int (flows_kept ms), of_nat (length (filter (has_entry (\<lambda>i. slots (t i))) ms)))"
proof -
  let ?f = "\<lambda>i. length (filter (\<lambda>m. h_slot (rss m) = i \<and> h_tag (rss m) \<in> slot_tracked (slots (t i))) ms)"
  have b: "of_bool (ctr (t i) ! 0 > 0) + of_bool (ctr (t i) ! 1 > 0) = int (min 2 (card (seen_tags ms i)))"
    "ucast (ctr (t i) ! 0) + ucast (ctr (t i) ! 1) = (of_nat (?f i) :: u64)" if "i < FLOW_NUM" for i
  proof -
    note d = dh_bucket_flows [OF assms(1) that] assms(2,3) that
    have "int (of_bool (ctr (t i) ! 0 > 0) + of_bool (ctr (t i) ! 1 > 0)) = int (min 2 (card (seen_tags ms i)))"
      using d by simp
    then show "of_bool (ctr (t i) ! 0 > 0) + of_bool (ctr (t i) ! 1 > 0) = int (min 2 (card (seen_tags ms i)))"
      by simp
    have "ucast w = (of_nat (unat w) :: u64)" for w :: u32 by simp
    then have "ucast (ctr (t i) ! 0) + ucast (ctr (t i) ! 1) =
        (of_nat (unat (ctr (t i) ! 0) + unat (ctr (t i) ! 1)) :: u64)" by (simp only: of_nat_add)
    with d show "ucast (ctr (t i) ! 0) + ucast (ctr (t i) ! 1) = (of_nat (?f i) :: u64)" by simp
  qed
  have "(\<Sum>i < FLOW_NUM. ?f i) = length (filter (has_entry (\<lambda>i. slots (t i))) ms)"
    unfolding has_entry_def by (rule sum_bucket_packets)
  then have "(\<Sum>i < FLOW_NUM. of_nat (?f i) :: u64) =
      of_nat (length (filter (has_entry (\<lambda>i. slots (t i))) ms))" by (simp flip: of_nat_sum)
  then show ?thesis unfolding lt_report_sum using b by (simp add: flows_kept_def cong: sum.cong_simp)
qed

text \<open>
  The report of the run-to-completion version is the number of packets that belong to flows
  without an entry, as long as fewer than \<open>2^32\<close> packets were processed.
\<close>

theorem rtc_report_correct:
  assumes "RTC_RX_RINGS \<le> length (rings s)" and "\<forall>b \<in> set bs. fst b < length (rings s)"
    and "\<forall>i < FLOW_NUM. length (ctr (t i)) = 3" and "tbl s = init_table (dh_init_bucket c) t"
    and "\<forall>m \<in> set (packets bs). h_tag (rss m) \<noteq> 0" and "length (packets bs) < 2 ^ 32"
  shows "\<exists>s'. run (\<lambda>(q, bufs). rtc_double_hash c True q bufs) bs s = Inr s' \<and>
    unat (rtc_dh_report (tbl s')) =
      length (filter (\<lambda>m. \<not> has_entry (\<lambda>i. slots (tbl s' i)) m) (packets bs))"
proof -
  obtain s' es where r: "run (\<lambda>(q, bufs). rtc_double_hash c True q bufs) bs s = Inr s'"
    "run (table_upd bucket_of (rtc_dh_upd c)) es (tbl s) = Inr (tbl s')"
    "map snd es = packets bs" "\<forall>i < FLOW_NUM. slot_empty 3 (slots (tbl s i))"
    by (rule rtc_dh_start [OF assms(1-4)])
  from r(1) rtc_report_untracked [OF rtc_dh.table_third_flow_counts [OF r(2-4) assms(5)] assms(6)]
  show ?thesis by blast
qed

theorem rtc_report_correct_witness:
  "\<exists>s'. run (\<lambda>(q, bufs). rtc_double_hash ex_cfg True q bufs) ex_bursts
      (ex_state (init_table (dh_init_bucket ex_cfg) (\<lambda>_. rtc_zero))) = Inr s' \<and>
    unat (rtc_dh_report (tbl s')) =
      length (filter (\<lambda>m. \<not> has_entry (\<lambda>i. slots (tbl s' i)) m) (packets ex_bursts))"
  by (rule rtc_report_correct [where t = "\<lambda>_. rtc_zero"])
    (use ex_bursts_facts in \<open>simp_all add: RTC_RX_RINGS_def rtc_zero_def\<close>)

text \<open>
  The report of the pthread version is the number of flows that have an entry: two per bucket
  that saw two flows or more, one per bucket that saw one.
\<close>

theorem pth_report_correct:
  assumes "n_rx \<le> length (rings s)" and "\<forall>b \<in> set bs. fst b < length (rings s)"
    and "\<forall>i < FLOW_NUM. length (ctr (t i)) = 3" and "tbl s = init_table (dh_init_bucket c) t"
    and "\<forall>m \<in> set (packets bs). h_tag (rss m) \<noteq> 0" and "length (packets bs) < 2 ^ 64"
  shows "\<exists>s'. run (\<lambda>(q, bufs). pth_count_double_hash c 16 n_rx q bufs) bs s = Inr s' \<and>
    unat (pth_dh_report (tbl s')) = flows_kept (packets bs)"
proof -
  obtain s' es where r: "run (\<lambda>(q, bufs). pth_count_double_hash c 16 n_rx q bufs) bs s = Inr s'"
    "run (table_upd bucket_of (pth_dh_upd c 16)) es (tbl s) = Inr (tbl s')"
    "map snd es = packets bs" "\<forall>i < FLOW_NUM. slot_empty 3 (slots (tbl s i))"
    by (rule pth_dh_start [OF assms(1-4)])
  from r(1) pth_report_flows [OF pth_dh.table_two_flow_counts [OF r(2-4) assms(5)]
      pth_dh.table_start_wf [OF r(2-4) assms(5)] assms(6)]
  show ?thesis by blast
qed

theorem pth_report_correct_witness:
  "\<exists>s'. run (\<lambda>(q, bufs). pth_count_double_hash ex_cfg 16 1 q bufs) ex_bursts
      (ex_state (init_table (dh_init_bucket ex_cfg) (\<lambda>_. pth_zero))) = Inr s' \<and>
    unat (pth_dh_report (tbl s')) = flows_kept (packets ex_bursts)"
  by (rule pth_report_correct [where t = "\<lambda>_. pth_zero"])
    (use ex_bursts_facts in \<open>simp_all add: pth_zero_def\<close>)

text \<open>
  The report of the L-thread version is the number of flows that have an entry and the number
  of their packets.
\<close>

theorem lt_report_correct:
  assumes "ieee_double (c_fpu c)" and "rings s = replicate n_rx 0" and "unat (glob s) < 2 ^ 31"
    and "\<forall>b \<in> set bs. fst b < n_rx" and "length (packets bs) < 2 ^ 31"
    and "\<forall>i < FLOW_NUM. lt_zeroed (t i)" and "tbl s = init_table (lt_init_bucket c) t"
    and "\<forall>m \<in> set (packets bs). h_tag (rss m) \<noteq> 0"
  shows "\<exists>s'. run (\<lambda>(q, bufs). lt_tx_per_ring c n_rx q bufs) bs s = Inr s' \<and>
    lt_report (tbl s') = (int (flows_kept (packets bs)),
      of_nat (length (filter (has_entry (\<lambda>i. slots (tbl s' i))) (packets bs))))"
proof -
  obtain s' es where r: "run (\<lambda>(q, bufs). lt_tx_per_ring c n_rx q bufs) bs s = Inr s'"
    "run (table_upd bucket_of (lt_upd c)) es (tbl s) = Inr (tbl s')"
    "map snd es = packets bs" "\<forall>i < FLOW_NUM. slot_empty 3 (slots (tbl s i))"
    by (rule lt_start [OF assms(1-7)])
  have "length (packets bs) < 2 ^ 32" using assms(5) by simp
  from r(1) lt_report_flows [OF lt_dh.table_two_flow_counts [OF r(2-4) assms(8)]
      lt_dh.table_start_wf [OF r(2-4) assms(8)] this]
  show ?thesis by blast
qed

theorem lt_report_correct_witness:
  "\<exists>s'. run (\<lambda>(q, bufs). lt_tx_per_ring ex_cfg 1 q bufs) ex_bursts
      (ex_state (init_table (lt_init_bucket ex_cfg) (\<lambda>_. lt_zero))) = Inr s' \<and>
    lt_report (tbl s') = (int (flows_kept (packets ex_bursts)),
      of_nat (length (filter (has_entry (\<lambda>i. slots (tbl s' i))) (packets ex_bursts))))"
  by (rule lt_report_correct [where t = "\<lambda>_. lt_zero"])
    (use ex_bursts_facts in \<open>simp_all add: lt_zero_zeroed\<close>)

section \<open>Buffers\<close>

lemma rtc_double_hash_frees:
  "rtc_double_hash c fl q bufs s = Inr s' \<Longrightarrow> freed s' = freed s @ (if fl then bufs @ bufs else bufs)"
  by (cases fl) (auto simp: rtc_double_hash_def sbind_Inr_iff split: if_splits dest!: rtc_run_one)

lemma run_frees:
  assumes "run (\<lambda>(q, bufs). burst q bufs) bs s = Inr s'"
    and "\<And>q bufs s s'. burst q bufs s = Inr s' \<Longrightarrow> freed s' = freed s @ f bufs"
  shows "freed s' = freed s @ concat (map (\<lambda>b. f (snd b)) bs)"
  using assms(1)
proof (induction bs arbitrary: s)
  case Nil
  then show ?case by simp
next
  case (Cons b bs)
  obtain q bufs where b: "b = (q, bufs)" by (cases b)
  from Cons.prems obtain u where u: "burst q bufs s = Inr u"
    "run (\<lambda>(q, bufs). burst q bufs) bs u = Inr s'" unfolding b by (elim run_ConsE) auto
  from Cons.IH [OF u(2)] assms(2) [OF u(1)] show ?case by (simp add: b)
qed

text \<open>
  C39: With \<^verbatim>\<open>FLOW_LEVEL\<close> the run-to-completion loop hands every buffer to
  \<^verbatim>\<open>rte_pktmbuf_free\<close> twice: once in the per-packet code and once in the loop after it. Without
  the switch every buffer is freed exactly once, in order.
\<close>

theorem rtc_double_hash_double_free:
  assumes "RTC_RX_RINGS \<le> length (rings s)" and "\<forall>b \<in> set bs. fst b < length (rings s)"
  shows "\<exists>s'. run (\<lambda>(q, bufs). rtc_double_hash c flow_level q bufs) bs s = Inr s' \<and>
    freed s' = freed s @
      (if flow_level then concat (map (\<lambda>b. snd b @ snd b) bs) else packets bs)"
proof -
  obtain s' where s': "run (\<lambda>(q, bufs). rtc_double_hash c flow_level q bufs) bs s = Inr s'"
    using rtc_run_returns [OF assms] by blast
  from run_frees [OF s' rtc_double_hash_frees] s' show ?thesis by (cases flow_level) auto
qed

theorem rtc_double_hash_double_free_witness:
  "\<exists>s'. run (\<lambda>(q, bufs). rtc_double_hash ex_cfg True q bufs) ex_bursts (ex_state (\<lambda>_. rtc_zero)) = Inr s' \<and>
    map mb_id (freed s') = [1, 2, 3, 1, 2, 3, 4, 5, 4, 5]"
  using rtc_double_hash_double_free [of "ex_state (\<lambda>_. rtc_zero)" ex_bursts ex_cfg True] ex_bursts_facts(3)
  by (force simp: RTC_RX_RINGS_def ex_bursts_def)

lemma pth_double_hash_frees:
  "pth_count_double_hash c 16 n_rx q bufs s = Inr s' \<Longrightarrow> freed s' = freed s @ bufs"
  by (auto simp: pth_count_double_hash_def sbind_Inr_iff split: if_splits dest!: pth_run_one)

text \<open>
  The pthread counting thread frees every packet it dequeues exactly once, in order, and adds
  the packets of a ring to the ring's counter.
\<close>

theorem pth_double_hash_frees_once:
  assumes "n_rx \<le> length (rings s)" and "\<forall>b \<in> set bs. fst b < length (rings s)"
  shows "\<exists>s'. run (\<lambda>(q, bufs). pth_count_double_hash c 16 n_rx q bufs) bs s = Inr s' \<and>
    freed s' = freed s @ packets bs \<and>
    (\<forall>q < length (rings s). rings s' ! q = rings s ! q +
       of_nat (length (packets (filter (\<lambda>b. fst b = q) bs))))"
proof -
  obtain s' where s': "run (\<lambda>(q, bufs). pth_count_double_hash c 16 n_rx q bufs) bs s = Inr s'"
    using pth_run_returns [OF assms] by blast
  from run_frees [OF s' pth_double_hash_frees] pth_dh_loop.run_rings [OF s'] s' show ?thesis by auto
qed

theorem pth_double_hash_frees_once_witness:
  "\<exists>s'. run (\<lambda>(q, bufs). pth_count_double_hash ex_cfg 16 1 q bufs) ex_bursts (ex_state (\<lambda>_. pth_zero)) = Inr s' \<and>
    map mb_id (freed s') = [1, 2, 3, 4, 5] \<and> rings s' ! 0 = 5"
  using pth_double_hash_frees_once [of 1 "ex_state (\<lambda>_. pth_zero)" ex_bursts ex_cfg] ex_bursts_facts(3)
  by (force simp: ex_bursts_def)

section \<open>Order of the queues\<close>

lemma pth_dh_upd_no_ipg: "\<not> c_ipg c \<Longrightarrow> pth_dh_upd c bits (g, m) b = pth_dh_upd c bits (0, m) b"
  by (simp add: pth_dh_upd_def pth_dh_packet_def Let_def)

lemma run_drop_glob:
  assumes "\<And>g m b. upd (g, m) b = upd (0, m) b"
  shows "run upd es b = run (\<lambda>m. upd (0, m)) (map snd es) b"
proof (induction es arbitrary: b)
  case Nil
  show ?case by simp
next
  case (Cons e es)
  have "upd e b = upd (0, snd e) b" using assms [of "fst e" "snd e" b] by simp
  with Cons show ?case by (simp split: sum.split)
qed

text \<open>
  Without IPG statistics the flow table of the pthread version does not depend on how the
  rings are interleaved: two runs that give every bucket its packets in the same order end in the
  same table. This is the case for every interleaving when the NIC chooses the queue by the low
  bits of the hash.
\<close>

theorem pth_double_hash_order:
  assumes "run (\<lambda>(q, bufs). pth_count_double_hash c 16 n_rx q bufs) bs s = Inr s1"
    and "run (\<lambda>(q, bufs). pth_count_double_hash c 16 n_rx q bufs) bs' s = Inr s2"
    and "\<not> c_ipg c"
    and "\<forall>i. filter (\<lambda>m. h_slot (rss m) = i) (packets bs) = filter (\<lambda>m. h_slot (rss m) = i) (packets bs')"
  shows "tbl s1 = tbl s2"
proof
  fix i
  have one: "run (\<lambda>m. pth_dh_upd c 16 (0, m)) (filter (\<lambda>m. h_slot (rss m) = i) (packets xs)) (tbl s i) =
      Inr (tbl u i)" if r: "run (\<lambda>(q, bufs). pth_count_double_hash c 16 n_rx q bufs) xs s = Inr u" for xs u
  proof -
    obtain es where es: "map snd es = packets xs"
      "run (table_upd bucket_of (pth_dh_upd c 16)) es (tbl s) = Inr (tbl u)"
      using pth_dh_loop.run_events [OF r] by blast
    have "map snd (filter (\<lambda>e. bucket_of e = i) es) = filter (\<lambda>m. h_slot (rss m) = i) (packets xs)"
      by (simp add: filter_map bucket_of_def comp_def flip: es(1))
    with run_table [OF es(2), of i] run_drop_glob [of "pth_dh_upd c 16", OF pth_dh_upd_no_ipg [OF assms(3)]]
    show ?thesis by metis
  qed
  from one [OF assms(1)] one [OF assms(2)] assms(4) show "tbl s1 i = tbl s2 i" by simp
qed

text \<open>Two bursts on different rings, of different buckets, in both orders.\<close>

theorem pth_double_hash_order_witness:
  "\<exists>s1 s2. run (\<lambda>(q, bufs). pth_count_double_hash (ex_cfg\<lparr>c_ipg := False\<rparr>) 16 1 q bufs)
       [(0, [\<lparr>mb_id = 1, rss = 0x00010005\<rparr>]), (0, [\<lparr>mb_id = 2, rss = 0x00010006\<rparr>])]
       (ex_state (\<lambda>_. pth_zero)) = Inr s1 \<and>
     run (\<lambda>(q, bufs). pth_count_double_hash (ex_cfg\<lparr>c_ipg := False\<rparr>) 16 1 q bufs)
       [(0, [\<lparr>mb_id = 2, rss = 0x00010006\<rparr>]), (0, [\<lparr>mb_id = 1, rss = 0x00010005\<rparr>])]
       (ex_state (\<lambda>_. pth_zero)) = Inr s2 \<and> tbl s1 = tbl s2"
proof -
  let ?a = "(0 :: nat, [\<lparr>mb_id = 1, rss = 0x00010005\<rparr>])" and ?b = "(0 :: nat, [\<lparr>mb_id = 2, rss = 0x00010006\<rparr>])"
  let ?c = "ex_cfg\<lparr>c_ipg := False\<rparr>" and ?s = "ex_state (\<lambda>_. pth_zero)"
  obtain s1 where 1: "run (\<lambda>(q, bufs). pth_count_double_hash ?c 16 1 q bufs) [?a, ?b] ?s = Inr s1"
    using pth_run_returns [of 1 ?s "[?a, ?b]" ?c] by auto
  obtain s2 where 2: "run (\<lambda>(q, bufs). pth_count_double_hash ?c 16 1 q bufs) [?b, ?a] ?s = Inr s2"
    using pth_run_returns [of 1 ?s "[?b, ?a]" ?c] by auto
  have "tbl s1 = tbl s2"
    by (rule pth_double_hash_order [OF 1 2]) (auto simp: h_slot_numeral)
  with 1 2 show ?thesis by blast
qed

end
