(* ===== verification/Flow_Lists.thy ===== *)
theory Flow_Lists
  imports Flow_Records
begin

text \<open>
  The linked list of a bucket, abstractly: a list of tags with counters in the order of the
  \<^verbatim>\<open>next\<close> pointers, where the tag zero marks a free entry. The specification the
  \<^verbatim>\<open>LINKED_LIST\<close> buckets and the overflow chains of the \<^verbatim>\<open>HASH_LIST\<close> buckets refine, and
  what a table of buckets that keep every flow should hold.
\<close>

section \<open>One step\<close>

type_synonym 'w entries = "(u16 \<times> 'w word) list"

text \<open>The walk for the tag \<open>k\<close>; \<open>None\<close> when it runs off the end.\<close>

fun list_step :: "u16 \<Rightarrow> ('w::len) entries \<Rightarrow> 'w entries option" where
  "list_step k [] = None"
| "list_step k ((f, n) # xs) =
     (if f = 0 then Some ((k, n + 1) # xs)
      else if f = k then Some ((f, n + 1) # xs)
      else map_option ((#) (f, n)) (list_step k xs))"

text \<open>\<open>ok\<close> says whether the allocation of a new entry succeeds, should one be needed.\<close>

definition list_add :: "bool \<Rightarrow> 'a \<Rightarrow> 'a list \<Rightarrow> fw_error + 'a list" where
  "list_add ok x xs =
     (if \<not> ok then Inl (Exit_failure ''flow bucket allocation failure'')
      else if xs = [] then Inl (Undefined ''tail pointer of an empty list'')
      else Inr (xs @ [x]))"

definition list_upd :: "bool \<Rightarrow> u16 \<Rightarrow> ('w::len) entries \<Rightarrow> fw_error + 'w entries" where
  "list_upd ok k xs = (case list_step k xs of Some ys \<Rightarrow> Inr ys | None \<Rightarrow> list_add ok (k, 1) xs)"

section \<open>Well-formed lists\<close>

text \<open>At least one entry; the used entries come first, with distinct tags; free entries are zero.\<close>

definition tags :: "('w::len) entries \<Rightarrow> u16 set" where
  "tags xs = fst ` set xs"

lemma tags_simps [simp]:
  "tags [] = {}" "tags ((f, n) # xs) = insert f (tags xs)" "tags (xs @ ys) = tags xs \<union> tags ys"
  by (auto simp: tags_def)

fun list_wf_aux :: "('w::len) entries \<Rightarrow> bool" where
  "list_wf_aux [] \<longleftrightarrow> True"
| "list_wf_aux ((f, n) # xs) \<longleftrightarrow>
     (if f = 0 then n = 0 \<and> (\<forall>x \<in> set xs. x = (0, 0)) else f \<notin> tags xs) \<and> list_wf_aux xs"

definition list_wf :: "('w::len) entries \<Rightarrow> bool" where
  "list_wf xs \<longleftrightarrow> xs \<noteq> [] \<and> list_wf_aux xs"

fun list_cnt :: "('w::len) entries \<Rightarrow> u16 \<Rightarrow> 'w word" where
  "list_cnt [] k = 0"
| "list_cnt ((f, n) # xs) k = (if k \<noteq> 0 \<and> f = k then n else list_cnt xs k)"

definition list_tracked :: "('w::len) entries \<Rightarrow> u16 set" where
  "list_tracked xs = tags xs - {0}"

definition list_sum :: "('w::len) entries \<Rightarrow> 'w word" where
  "list_sum xs = sum_list (map snd xs)"

lemma list_tracked_simps [simp]:
  "list_tracked [] = {}"
  "list_tracked ((f, n) # xs) = (if f = 0 then {} else {f}) \<union> list_tracked xs"
  by (auto simp: list_tracked_def)

lemma list_cnt_zeros: "\<forall>x \<in> set xs. x = (0, 0) \<Longrightarrow> list_cnt xs k = 0"
  by (induction xs) auto

lemma tags_zeros: "\<forall>x \<in> set xs. x = (0, 0) \<Longrightarrow> k \<noteq> 0 \<Longrightarrow> k \<notin> tags xs"
  by (auto simp: tags_def)

lemma list_tracked_zeros: "\<forall>x \<in> set xs. x = (0, 0) \<Longrightarrow> list_tracked xs = {}"
  by (auto simp: list_tracked_def tags_def)

lemma list_cnt_untracked: "k \<notin> tags xs \<Longrightarrow> list_cnt xs k = 0"
  by (induction xs) auto

section \<open>The laws of a step\<close>

lemma list_step_tags: "list_step k xs = Some ys \<Longrightarrow> tags ys \<subseteq> insert k (tags xs)"
  by (induction xs arbitrary: ys) (auto split: if_splits, blast)

lemma list_step_wf: "list_wf_aux xs \<Longrightarrow> k \<noteq> 0 \<Longrightarrow> list_step k xs = Some ys \<Longrightarrow> list_wf_aux ys"
proof (induction xs arbitrary: ys)
  case Nil
  then show ?case by simp
next
  case (Cons x xs)
  obtain f n where x: "x = (f, n)" by (cases x)
  consider "f = 0" | "f \<noteq> 0" "f = k" | "f \<noteq> 0" "f \<noteq> k" by blast
  then show ?case
  proof cases
    case 3
    with Cons.prems x obtain zs where zs: "list_step k xs = Some zs" "ys = (f, n) # zs" by auto
    with Cons.IH [OF _ Cons.prems(2) zs(1)] Cons.prems(1) list_step_tags [OF zs(1)] 3
    show ?thesis by (auto simp: x)
  next
    case 1
    with Cons.prems x show ?thesis by (auto dest: tags_zeros)
  next
    case 2
    with Cons.prems x show ?thesis by auto
  qed
qed

lemma list_step_cnt:
  "list_wf_aux xs \<Longrightarrow> k \<noteq> 0 \<Longrightarrow> list_step k xs = Some ys \<Longrightarrow>
     list_cnt ys = (list_cnt xs)(k := list_cnt xs k + 1)"
proof (induction xs arbitrary: ys)
  case Nil
  then show ?case by simp
next
  case (Cons x xs)
  obtain f n where x: "x = (f, n)" by (cases x)
  consider "f = 0" | "f \<noteq> 0" "f = k" | "f \<noteq> 0" "f \<noteq> k" by blast
  then show ?case
  proof cases
    case 1
    with Cons.prems x show ?thesis by (auto simp: fun_eq_iff list_cnt_zeros)
  next
    case 2
    with Cons.prems x show ?thesis by (auto simp: fun_eq_iff)
  next
    case 3
    with Cons.prems x obtain zs where zs: "list_step k xs = Some zs" "ys = (f, n) # zs" by auto
    with Cons.IH [OF _ Cons.prems(2) zs(1)] Cons.prems(1) 3 show ?thesis
      by (auto simp: x fun_eq_iff)
  qed
qed

lemma list_step_tracked:
  "list_wf_aux xs \<Longrightarrow> k \<noteq> 0 \<Longrightarrow> list_step k xs = Some ys \<Longrightarrow> list_tracked ys = insert k (list_tracked xs)"
proof (induction xs arbitrary: ys)
  case Nil
  then show ?case by simp
next
  case (Cons x xs)
  then show ?case by (cases x) (auto split: if_splits simp: list_tracked_zeros)
qed

lemma list_step_None:
  "list_step k xs = None \<Longrightarrow> k \<notin> tags xs \<and> 0 \<notin> tags xs"
  by (induction xs) (auto split: if_splits)

lemma list_wf_snoc:
  "list_wf_aux xs \<Longrightarrow> 0 \<notin> tags xs \<Longrightarrow> k \<notin> tags xs \<Longrightarrow> k \<noteq> 0 \<Longrightarrow> list_wf_aux (xs @ [(k, n)])"
  by (induction xs) auto

lemma list_cnt_snoc:
  "k \<notin> tags xs \<Longrightarrow> k \<noteq> 0 \<Longrightarrow> list_cnt (xs @ [(k, n)]) = (list_cnt xs)(k := n)"
  by (induction xs) (auto simp: fun_eq_iff)

lemma list_tracked_snoc: "k \<noteq> 0 \<Longrightarrow> list_tracked (xs @ [(k, n)]) = insert k (list_tracked xs)"
  by (auto simp: list_tracked_def)

lemma list_upd_cases:
  assumes "list_upd ok k xs = Inr ys"
  obtains "list_step k xs = Some ys"
    | "list_step k xs = None" and "xs \<noteq> []" and "ok" and "ys = xs @ [(k, 1)]"
  using assms by (auto simp: list_upd_def list_add_def split: option.splits if_splits)

lemma list_step_not_Nil: "list_step k xs = Some ys \<Longrightarrow> ys \<noteq> []"
  by (cases xs) (auto split: if_splits)

lemma list_upd_laws:
  assumes u: "list_upd ok k xs = Inr ys" and wf: "list_wf xs" and k: "k \<noteq> 0"
  shows "list_wf ys \<and> list_tracked ys = insert k (list_tracked xs) \<and>
    list_cnt ys = (list_cnt xs)(k := list_cnt xs k + 1)"
  using u
proof (cases rule: list_upd_cases)
  case 1
  with wf k show ?thesis
    using list_step_wf [OF _ k 1] list_step_tracked [OF _ k 1] list_step_cnt [OF _ k 1]
      list_step_not_Nil [OF 1] by (simp add: list_wf_def)
next
  case 2
  note no = list_step_None [OF 2(1)]
  with 2 wf k show ?thesis
    by (simp add: list_wf_def list_wf_snoc list_cnt_snoc list_tracked_snoc list_cnt_untracked)
qed

lemma list_upd_returns: "xs \<noteq> [] \<Longrightarrow> \<exists>ys. list_upd True k xs = Inr ys"
  by (auto simp: list_upd_def list_add_def split: option.splits)

text \<open>Every packet adds one to the sum of the counters, whatever its tag.\<close>

lemma list_step_sum: "list_step k xs = Some ys \<Longrightarrow> list_sum ys = list_sum xs + 1"
  by (induction xs arbitrary: ys) (auto simp: list_sum_def algebra_simps split: if_splits)

lemma list_upd_sum: "list_upd ok k xs = Inr ys \<Longrightarrow> list_sum ys = list_sum xs + 1"
  by (erule list_upd_cases) (simp_all add: list_step_sum, simp add: list_sum_def)

lemma list_upd_not_Nil: "list_upd ok k xs = Inr ys \<Longrightarrow> ys \<noteq> []"
  by (erule list_upd_cases) (simp_all add: list_step_not_Nil)

text \<open>A failed update is a failed allocation, on a non-empty list.\<close>

lemma list_upd_error:
  "list_upd ok k xs = Inl x \<Longrightarrow> xs \<noteq> [] \<Longrightarrow> \<not> ok \<and> x = Exit_failure ''flow bucket allocation failure''"
  by (auto simp: list_upd_def list_add_def split: option.splits if_splits)

section \<open>Free entries\<close>

definition list_empty :: "('w::len) entries \<Rightarrow> bool" where
  "list_empty xs \<longleftrightarrow> xs \<noteq> [] \<and> (\<forall>x \<in> set xs. x = (0, 0))"

lemma list_empty_wf: "\<forall>x \<in> set xs. x = (0, 0) \<Longrightarrow> list_wf_aux xs"
  by (induction xs) auto

lemma list_empty_facts:
  assumes "list_empty xs"
  shows "list_wf xs" "list_tracked xs = {}" "list_cnt xs k = 0" "list_sum xs = 0"
proof -
  have z: "\<forall>x \<in> set xs. x = (0, 0)" "xs \<noteq> []" using assms by (auto simp: list_empty_def)
  then show "list_wf xs" "list_tracked xs = {}" "list_cnt xs k = 0"
    by (simp_all add: list_wf_def list_empty_wf list_tracked_zeros list_cnt_zeros)
  have "map snd xs = replicate (length xs) 0" using z(1) by (induction xs) auto
  then show "list_sum xs = 0" by (simp add: list_sum_def sum_list_replicate)
qed

section \<open>Tables that keep every flow\<close>

text \<open>
  What a table should hold after the packets \<open>ms\<close> when its buckets can grow: the exact count of
  every flow (modulo the width of the counter) and entries for exactly the flows seen.
\<close>

definition flow_counts :: "(nat \<Rightarrow> u16 \<Rightarrow> 'w::len word) \<Rightarrow> (nat \<Rightarrow> u16 set) \<Rightarrow> mbuf list \<Rightarrow> bool" where
  "flow_counts cnt trk ms \<longleftrightarrow>
     (\<forall>h. h_tag h \<noteq> 0 \<longrightarrow> cnt (h_slot h) (h_tag h) = of_nat (count_list (map rss ms) h)) \<and>
     (\<forall>i < FLOW_NUM. trk i = seen_tags ms i)"

locale flow_keeping =
  exact_bucket upd tag "\<lambda>e. tag e \<noteq> 0" wf cnt tracked full
  for upd :: "event \<Rightarrow> 'b \<Rightarrow> fw_error + 'b"
    and wf :: "'b \<Rightarrow> bool" and cnt :: "'b \<Rightarrow> u16 \<Rightarrow> 'w::len word"
    and tracked :: "'b \<Rightarrow> u16 set" and full :: "'b \<Rightarrow> bool"
begin

lemma table_flow_counts:
  assumes r: "run (table_upd bucket_of upd) es t = Inr t'" and ms: "map snd es = ms"
    and z: "\<forall>i < FLOW_NUM. wf (t i) \<and> tracked (t i) = {} \<and> (\<forall>k. cnt (t i) k = 0)"
    and v: "\<forall>m \<in> set ms. h_tag (rss m) \<noteq> 0"
  shows "flow_counts (\<lambda>i. cnt (t' i)) (\<lambda>i. tracked (t' i)) ms"
proof -
  note v = tags_valid [OF ms v]
  have vf: "\<forall>e \<in> set (filter (\<lambda>e. bucket_of e = i) es). tag e \<noteq> 0" for i using v by simp
  have "cnt (t' (h_slot h)) (h_tag h) = of_nat (count_list (map rss ms) h)" for h
    using run_cnt_exact [OF run_table [OF r, of "h_slot h"] _ vf, of "h_tag h"] z
    by (simp add: count_bucket_tag flip: ms)
  moreover have "tracked (t' i) = seen_tags ms i" if "i < FLOW_NUM" for i
    using run_tracked [OF run_table [OF r, of i] _ vf] z that seen_tags_events [OF ms, of i] by auto
  ultimately show ?thesis by (simp add: flow_counts_def)
qed

lemma table_start_wf:
  assumes "run (table_upd bucket_of upd) es t = Inr t'" and "map snd es = ms"
    and "\<forall>i < FLOW_NUM. wf (t i)" and "\<forall>m \<in> set ms. h_tag (rss m) \<noteq> 0"
  shows "\<forall>i < FLOW_NUM. wf (t' i)"
  using table_wf [OF assms(1) _ tags_valid [OF assms(2,4)]] assms(3) by blast

end

section \<open>Counting the flows of the table\<close>

lemma seen_tags_image: "seen_tags ms i = h_tag ` {h \<in> rss ` set ms. h_slot h = i}"
  by (auto simp: seen_tags_def)

lemma card_seen_tags: "card (seen_tags ms i) = card {h \<in> rss ` set ms. h_slot h = i}"
  unfolding seen_tags_image by (rule card_image) (auto intro!: inj_onI dest: h_split_inj)

lemma sum_seen_tags: "(\<Sum>i < FLOW_NUM. card (seen_tags ms i)) = card (set (map rss ms))"
proof -
  have "rss ` set ms = (\<Union>i < FLOW_NUM. {h \<in> rss ` set ms. h_slot h = i})" by auto
  then have "card (rss ` set ms) = card (\<Union>i < FLOW_NUM. {h \<in> rss ` set ms. h_slot h = i})" by simp
  also have "\<dots> = (\<Sum>i < FLOW_NUM. card {h \<in> rss ` set ms. h_slot h = i})"
    by (rule card_UN_disjoint) auto
  finally show ?thesis by (simp add: card_seen_tags)
qed

lemma sum_bucket_lengths:
  "(\<Sum>i < FLOW_NUM. length (filter (\<lambda>m. h_slot (rss m) = i) ms)) = length ms"
  using sum_length_filter [of ms "\<lambda>m. h_slot (rss m)" FLOW_NUM "\<lambda>_ _. True"] by simp

section \<open>Buckets that refine the list specification\<close>

locale list_bucket =
  fixes upd :: "event \<Rightarrow> 'b \<Rightarrow> fw_error + 'b"
    and el :: "'b \<Rightarrow> ('w::len) entries"
    and ok :: "event \<Rightarrow> bool"
  assumes refines: "list_upd (ok e) (tag e) (el b) = map_sum (\<lambda>x. x) el (upd e b)"
begin

lemma refines_Inr: "upd e b = Inr b' \<Longrightarrow> list_upd (ok e) (tag e) (el b) = Inr (el b')"
  by (simp add: refines)

lemma refines_Inl: "upd e b = Inl x \<Longrightarrow> list_upd (ok e) (tag e) (el b) = Inl x"
  by (simp add: refines)

end

sublocale list_bucket \<subseteq> flow_keeping upd "\<lambda>b. list_wf (el b)" "\<lambda>b. list_cnt (el b)"
  "\<lambda>b. list_tracked (el b)" "\<lambda>_. False"
  by unfold_locales (auto dest!: refines_Inr list_upd_laws)

context list_bucket
begin

text \<open>On non-empty lists an update returns, or the allocation it needs has failed.\<close>

lemma table_safe:
  assumes "\<forall>i < FLOW_NUM. el (t i) \<noteq> []"
  shows "(\<exists>u. table_upd bucket_of upd e t = Inr u \<and> (\<forall>i < FLOW_NUM. el (u i) \<noteq> [])) \<or>
    (\<exists>x. table_upd bucket_of upd e t = Inl x \<and> \<not> ok e \<and> x = Exit_failure ''flow bucket allocation failure'')"
proof (cases "upd e (t (bucket_of e))")
  case (Inl x)
  with list_upd_error [OF refines_Inl [OF Inl]] assms show ?thesis by (simp add: table_upd_def)
next
  case (Inr b)
  with list_upd_not_Nil [OF refines_Inr [OF Inr]] assms show ?thesis by (simp add: table_upd_def)
qed

lemma run_list_sum:
  assumes "run upd es b = Inr b'"
  shows "list_sum (el b') = list_sum (el b) + of_nat (length es)"
  using assms
proof (induction es arbitrary: b)
  case Nil
  then show ?case by simp
next
  case (Cons e es)
  from Cons.prems obtain u where u: "upd e b = Inr u" "run upd es u = Inr b'" by (rule run_ConsE)
  from Cons.IH [OF u(2)] list_upd_sum [OF refines_Inr [OF u(1)]] show ?case by simp
qed

end

section \<open>What a report over well-formed lists adds up\<close>

lemma list_cnt_Cons_other: "f \<noteq> k \<Longrightarrow> list_cnt ((f, n) # xs) k = list_cnt xs k"
  by simp

lemma finite_list_tracked [simp]: "finite (list_tracked xs)"
  by (simp add: list_tracked_def)

lemma list_tracked_tags: "k \<in> list_tracked xs \<Longrightarrow> k \<in> tags xs"
  by (simp add: list_tracked_def tags_def)

lemma list_wf_sum:
  "list_wf_aux xs \<Longrightarrow> sum_list (map (\<lambda>x. unat (snd x)) xs) = (\<Sum>k \<in> list_tracked xs. unat (list_cnt xs k))"
proof (induction xs)
  case Nil
  then show ?case by simp
next
  case (Cons x xs)
  obtain f n where x: "x = (f, n)" by (cases x)
  show ?case
  proof (cases "f = 0")
    case True
    with Cons.prems have "n = 0" "list_tracked xs = {}" "list_wf_aux xs"
      by (auto simp: x list_tracked_zeros)
    with Cons.IH True show ?thesis by (simp add: x)
  next
    case False
    with Cons.prems have f: "f \<notin> list_tracked xs" "list_wf_aux xs"
      by (auto simp: x dest: list_tracked_tags)
    have "(\<Sum>k \<in> list_tracked xs. unat (list_cnt ((f, n) # xs) k)) = (\<Sum>k \<in> list_tracked xs. unat (list_cnt xs k))"
      by (rule sum.cong) (use f(1) in auto)
    with Cons.IH [OF f(2)] f(1) False show ?thesis by (simp add: x)
  qed
qed

lemma list_wf_nonzero:
  "list_wf_aux xs \<Longrightarrow> \<forall>k \<in> list_tracked xs. list_cnt xs k \<noteq> 0 \<Longrightarrow>
     length (filter (\<lambda>x. snd x \<noteq> 0) xs) = card (list_tracked xs)"
proof (induction xs)
  case Nil
  then show ?case by simp
next
  case (Cons x xs)
  obtain f n where x: "x = (f, n)" by (cases x)
  show ?case
  proof (cases "f = 0")
    case True
    with Cons.prems have "n = 0" "list_tracked xs = {}" "list_wf_aux xs"
      by (auto simp: x list_tracked_zeros)
    with Cons.IH True show ?thesis by (simp add: x)
  next
    case False
    with Cons.prems(1) have f: "f \<notin> list_tracked xs" "list_wf_aux xs"
      by (auto simp: x dest: list_tracked_tags)
    have "\<forall>k \<in> list_tracked xs. list_cnt xs k \<noteq> 0"
    proof
      fix k assume k: "k \<in> list_tracked xs"
      with f have "f \<noteq> k" by auto
      with bspec [OF Cons.prems(2), of k] k show "list_cnt xs k \<noteq> 0" by (simp add: x)
    qed
    with Cons.IH [OF f(2)] f(1) False Cons.prems(2) show ?thesis by (simp add: x)
  qed
qed

lemma sum_filter_by_key:
  assumes "finite S" and "\<forall>x \<in> set xs. P x \<longrightarrow> g x \<in> S"
  shows "(\<Sum>k \<in> S. length (filter (\<lambda>x. P x \<and> g x = k) xs)) = length (filter P xs)"
  using assms(2)
proof (induction xs)
  case Nil
  then show ?case by simp
next
  case (Cons x xs)
  have "(\<Sum>k \<in> S. length (filter (\<lambda>y. P y \<and> g y = k) (x # xs))) =
      (\<Sum>k \<in> S. (if k = g x then (if P x then 1 else 0) else 0) + length (filter (\<lambda>y. P y \<and> g y = k) xs))"
    by (rule sum.cong) auto
  also have "\<dots> = (if P x then 1 else 0) + length (filter P xs)"
    using Cons assms(1) by (auto simp: sum.distrib sum.delta)
  finally show ?case by simp
qed

text \<open>The packets of a bucket, by tag.\<close>

abbreviation tag_packets :: "mbuf list \<Rightarrow> nat \<Rightarrow> u16 \<Rightarrow> nat" where
  "tag_packets ms i k \<equiv> length (filter (\<lambda>m. h_slot (rss m) = i \<and> h_tag (rss m) = k) ms)"

lemma sum_tag_packets:
  "(\<Sum>k \<in> seen_tags ms i. tag_packets ms i k) = length (filter (\<lambda>m. h_slot (rss m) = i) ms)"
  by (rule sum_filter_by_key) (auto simp: seen_tags_def)

lemma tag_packets_pos: "k \<in> seen_tags ms i \<Longrightarrow> 0 < tag_packets ms i k"
  by (auto simp: seen_tags_def filter_empty_conv)

lemma flow_counts_tag:
  assumes "flow_counts cnt trk ms" and "i < FLOW_NUM" and "k \<in> seen_tags ms i"
    and "\<forall>m \<in> set ms. h_tag (rss m) \<noteq> 0"
  shows "cnt i k = of_nat (tag_packets ms i k)"
proof -
  from assms(3) obtain m where "m \<in> set ms" "h_tag (rss m) = k" "h_slot (rss m) = i"
    by (auto simp: seen_tags_def)
  with assms show ?thesis by (auto simp: flow_counts_def count_flow_filter)
qed

lemma flow_counts_unat:
  fixes cnt :: "nat \<Rightarrow> u16 \<Rightarrow> 'w::len word"
  assumes "flow_counts cnt trk ms" and "i < FLOW_NUM" and "k \<in> seen_tags ms i"
    and "\<forall>m \<in> set ms. h_tag (rss m) \<noteq> 0" and "length ms < 2 ^ LENGTH('w)"
  shows "unat (cnt i k) = tag_packets ms i k" and "cnt i k \<noteq> 0"
proof -
  show u: "unat (cnt i k) = tag_packets ms i k"
    unfolding flow_counts_tag [OF assms(1-4)]
    by (rule unat_of_nat_small) (rule length_filter_less [OF assms(5)])
  show "cnt i k \<noteq> 0" using u tag_packets_pos [OF assms(3)] by auto
qed

text \<open>The sum of the counters of a bucket's list and the number of its non-zero counters.\<close>

lemma list_bucket_report:
  fixes xs :: "('w::len) entries"
  assumes f: "flow_counts cnt trk ms" and i: "i < FLOW_NUM" and wf: "list_wf_aux xs"
    and c: "cnt i = list_cnt xs" and t: "trk i = list_tracked xs"
    and v: "\<forall>m \<in> set ms. h_tag (rss m) \<noteq> 0" and n: "length ms < 2 ^ LENGTH('w)"
  shows "sum_list (map (\<lambda>x. unat (snd x)) xs) = length (filter (\<lambda>m. h_slot (rss m) = i) ms)"
    and "length (filter (\<lambda>x. snd x \<noteq> 0) xs) = card (seen_tags ms i)"
proof -
  have tr: "list_tracked xs = seen_tags ms i" using f i t by (simp add: flow_counts_def)
  note u = flow_counts_unat [OF f i _ v n, unfolded c]
  have "(\<Sum>k \<in> seen_tags ms i. unat (list_cnt xs k)) = (\<Sum>k \<in> seen_tags ms i. tag_packets ms i k)"
    by (rule sum.cong) (auto simp: u(1))
  then show "sum_list (map (\<lambda>x. unat (snd x)) xs) = length (filter (\<lambda>m. h_slot (rss m) = i) ms)"
    unfolding list_wf_sum [OF wf] tr by (simp add: sum_tag_packets)
  show "length (filter (\<lambda>x. snd x \<noteq> 0) xs) = card (seen_tags ms i)"
    using list_wf_nonzero [OF wf] u(2) by (simp add: tr)
qed

end
