(* ===== verification/Linked_List.thy ===== *)
theory Linked_List
  imports Flow_Lists
begin

text \<open>
  The \<^verbatim>\<open>LINKED_LIST\<close> builds: a list of flow entries per bucket that grows by one entry for every
  new flow. Initialisation, the per-packet code, the loops around it and the reports at exit, for
  the run-to-completion and the pthread version.
\<close>

section \<open>Memory\<close>

text \<open>
  \<^verbatim>\<open>rte_calloc\<close> is a library call. Its answer, should the code call it while it processes a
  packet, is the parameter \<open>mem\<close>, a function of the buffer's \<open>mb_id\<close>; at start-up it is a function
  of the bucket and the position in the list. A successful call returns zeroed memory.
\<close>

section \<open>Start-up\<close>

text \<open>
  The inner loop of \<^verbatim>\<open>flow_struct_init\<close> for one bucket, at \<open>j\<close>: after the new node is linked
  the code tests \<^verbatim>\<open>f == NULL\<close>, the old node, so a failed allocation is dereferenced.
  \<open>sz\<close> is a \<^verbatim>\<open>uint32_t\<close>; the loop runs while \<^verbatim>\<open>j++ < size - 1\<close>.
\<close>

function ll_init_loop ::
  "(nat \<Rightarrow> bool) \<Rightarrow> 'n \<Rightarrow> u32 \<Rightarrow> u32 \<Rightarrow> 'n list \<Rightarrow> fw_error + 'n list"
where
  "ll_init_loop mem z sz j fs =
     (if j < sz - 1 then
        (if mem (unat j + 1) then ll_init_loop mem z sz (j + 1) (fs @ [z])
         else Inl (Undefined ''null pointer dereference''))
      else Inr fs)"
  by pat_completeness auto
termination
proof (relation "measure (\<lambda>(mem, z, sz, j, fs). unat (sz - 1) - unat j)")
  fix mem :: "nat \<Rightarrow> bool" and z :: 'n and sz j :: u32 and fs :: "'n list"
  assume j: "j < sz - 1"
  have "unat (sz - 1) < 2 ^ 32" by (rule order_less_le_trans [OF unsigned_less]) simp
  with j have "unat j + 1 < 2 ^ 32" by (simp add: word_less_nat_alt)
  then have "unat (j + 1) = unat j + 1" by (simp add: unat_word_ariths)
  with j show "((mem, z, sz, j + 1, fs @ [z]), mem, z, sz, j, fs)
      \<in> measure (\<lambda>(mem, z, sz, j, fs). unat (sz - 1) - unat j)"
    by (simp add: word_less_nat_alt)
qed simp

declare ll_init_loop.simps [simp del]

text \<open>
  \<^verbatim>\<open>flow_struct_init\<close>: the loop over the buckets, which returns -1 when the first entry of a bucket
  cannot be allocated.
\<close>

definition flow_struct_init ::
  "(nat \<Rightarrow> nat \<Rightarrow> bool) \<Rightarrow> 'n \<Rightarrow> u32 \<Rightarrow> (nat \<Rightarrow> 'n list) \<Rightarrow> fw_error + (nat \<Rightarrow> 'n list)"
where
  "flow_struct_init mem z sz t =
     run (\<lambda>i t. if mem i 0 then sbind (ll_init_loop (mem i) z sz 0 [z]) (\<lambda>fs. Inr (t(i := fs)))
                else Inl (Failed ''Flow entry allocation failed''))
       [0..<FLOW_NUM] t"

section \<open>Per-packet code: run-to-completion version\<close>

text \<open>The walk along the list: \<open>None\<close> is \<^verbatim>\<open>hit == 0\<close>.\<close>

fun rtc_ll_walk :: "cfg \<Rightarrow> u64 \<Rightarrow> u16 \<Rightarrow> u32 flow_entry list \<Rightarrow> u32 flow_entry list option" where
  "rtc_ll_walk c global hash_h [] = None"
| "rtc_ll_walk c global hash_h (f # fs) =
     (if rss_high f = 0 then
        Some ((let f = f\<lparr>rss_high := hash_h, e_ctr := e_ctr f + 1\<rparr>
               in if c_ipg c then f\<lparr>e_avg := 0, e_ipg := 0\<rparr> else f) # fs)
      else if rss_high f = hash_h then
        Some ((let f = f\<lparr>e_ctr := e_ctr f + 1\<rparr>
               in if c_ipg c then
                    (let cur = gap global (e_ipg f)
                     in f\<lparr>e_avg := mean_float (c_fpu c) (e_avg f) (e_ctr f) cur, e_ipg := global\<rparr>)
                  else f) # fs)
      else map_option ((#) f) (rtc_ll_walk c global hash_h fs))"

definition rtc_ll_zero :: "u32 flow_entry" where
  "rtc_ll_zero = \<lparr>rss_high = 0, e_ctr = 0, e_ipg = 0, e_avg = 0\<rparr>"

definition rtc_ll_packet ::
  "cfg \<Rightarrow> bool \<Rightarrow> u64 \<Rightarrow> u16 \<Rightarrow> u32 flow_entry list \<Rightarrow> fw_error + u32 flow_entry list"
where
  "rtc_ll_packet c ok global hash_h fs =
     (case rtc_ll_walk c global hash_h fs of
        Some fs' \<Rightarrow> Inr fs'
      | None \<Rightarrow>
          (let f = rtc_ll_zero\<lparr>rss_high := hash_h, e_ctr := 1\<rparr>;
               f = (if c_ipg c then
                      f\<lparr>e_avg := rnd64 (c_fpu c) (real (unat (gap global (e_ipg f)))), e_ipg := global\<rparr>
                    else f)
           in list_add ok f fs))"

definition rtc_ll_upd ::
  "cfg \<Rightarrow> (nat \<Rightarrow> bool) \<Rightarrow> event \<Rightarrow> u32 flow_entry list \<Rightarrow> fw_error + u32 flow_entry list"
where
  "rtc_ll_upd c mem e fs =
     rtc_ll_packet c (mem (mb_id (snd e))) (fst e) (ucast (rss_index_h (rss (snd e)))) fs"

section \<open>Per-packet code: pthread version\<close>

text \<open>Here the tag is kept in a \<^verbatim>\<open>uint32_t\<close> and the counters have 64 bits.\<close>

fun pth_ll_walk :: "cfg \<Rightarrow> u64 \<Rightarrow> u32 \<Rightarrow> u64 flow_entry_sd list \<Rightarrow> u64 flow_entry_sd list option" where
  "pth_ll_walk c global index_h [] = None"
| "pth_ll_walk c global index_h (f # fs) =
     (if rss_high f = 0 then
        Some ((let f = f\<lparr>rss_high := ucast index_h, e_ctr := e_ctr f + 1\<rparr>
               in if c_ipg c then f\<lparr>e_avg := 0, e_ipg := 0\<rparr> else f) # fs)
      else if ucast (rss_high f) = index_h then
        Some ((let f = f\<lparr>e_ctr := e_ctr f + 1\<rparr>
               in if c_ipg c then
                    (let cur = gap global (e_ipg f)
                     in f\<lparr>e_avg := mean_float (c_fpu c) (e_avg f) (e_ctr f) cur, e_ipg := global\<rparr>)
                  else f) # fs)
      else map_option ((#) f) (pth_ll_walk c global index_h fs))"

definition pth_ll_zero :: "u64 flow_entry_sd" where
  "pth_ll_zero = \<lparr>rss_high = 0, e_ctr = 0, e_ipg = 0, e_avg = 0, e_stdDev = 0\<rparr>"

definition pth_ll_packet ::
  "cfg \<Rightarrow> bool \<Rightarrow> u64 \<Rightarrow> u32 \<Rightarrow> u64 flow_entry_sd list \<Rightarrow> fw_error + u64 flow_entry_sd list"
where
  "pth_ll_packet c ok global index_h fs =
     (case pth_ll_walk c global index_h fs of
        Some fs' \<Rightarrow> Inr fs'
      | None \<Rightarrow>
          (let f = pth_ll_zero\<lparr>rss_high := ucast index_h, e_ctr := 1\<rparr>;
               f = (if c_ipg c then
                      f\<lparr>e_avg := rnd64 (c_fpu c) (real (unat (gap global (e_ipg f)))), e_ipg := global\<rparr>
                    else f)
           in list_add ok f fs))"

definition pth_ll_upd ::
  "cfg \<Rightarrow> nat \<Rightarrow> (nat \<Rightarrow> bool) \<Rightarrow> event \<Rightarrow> u64 flow_entry_sd list \<Rightarrow> fw_error + u64 flow_entry_sd list"
where
  "pth_ll_upd c bits mem e fs =
     pth_ll_packet c (mem (mb_id (snd e))) (fst e) (pth_index_h bits (rss (snd e))) fs"

section \<open>Both refine the list specification\<close>

definition ents :: "('w::len word, 'z) flow_entry_scheme list \<Rightarrow> 'w entries" where
  "ents fs = map (\<lambda>f. (rss_high f, e_ctr f)) fs"

lemma ents_simps [simp]:
  "ents [] = []" "ents (f # fs) = (rss_high f, e_ctr f) # ents fs" "ents (fs @ gs) = ents fs @ ents gs"
  "ents fs = [] \<longleftrightarrow> fs = []"
  by (simp_all add: ents_def)

lemma rtc_ll_walk_refines: "list_step k (ents fs) = map_option ents (rtc_ll_walk c g k fs)"
proof (induction fs)
  case Nil
  show ?case by simp
next
  case (Cons f fs)
  then show ?case by (cases "rtc_ll_walk c g k fs") (auto simp: Let_def)
qed

lemma pth_ll_walk_refines:
  assumes "unat h < 65536"
  shows "list_step (ucast h) (ents fs) = map_option ents (pth_ll_walk c g h fs)"
proof (induction fs)
  case Nil
  show ?case by simp
next
  case (Cons f fs)
  then show ?case by (cases "pth_ll_walk c g h fs") (auto simp: Let_def ucast_tag_eq [OF assms])
qed

lemma rtc_ll_upd_refines:
  "list_upd (mem (mb_id (snd e))) (tag e) (ents fs) = map_sum (\<lambda>x. x) ents (rtc_ll_upd c mem e fs)"
proof -
  let ?k = "tag e"
  have k: "ucast (rss_index_h (rss (snd e))) = ?k" by (simp add: tag_def h_tag_def)
  show ?thesis
    by (cases "rtc_ll_walk c (fst e) ?k fs")
      (auto simp: rtc_ll_upd_def rtc_ll_packet_def k list_upd_def list_add_def Let_def rtc_ll_zero_def
        rtc_ll_walk_refines [of ?k fs c "fst e"])
qed

lemma pth_ll_upd_refines:
  "list_upd (mem (mb_id (snd e))) (tag e) (ents fs) = map_sum (\<lambda>x. x) ents (pth_ll_upd c 16 mem e fs)"
proof -
  let ?h = "rss_index_h (rss (snd e))"
  have k: "tag e = ucast ?h" by (simp add: tag_def h_tag_def)
  show ?thesis
    by (cases "pth_ll_walk c (fst e) ?h fs")
      (auto simp: pth_ll_upd_def pth_ll_packet_def k pth_index_h_16 list_upd_def list_add_def Let_def
        pth_ll_zero_def pth_ll_walk_refines [of ?h fs c "fst e"])
qed

interpretation rtc_ll: list_bucket "rtc_ll_upd c mem" ents "\<lambda>e. mem (mb_id (snd e))" for c mem
  by unfold_locales (rule rtc_ll_upd_refines)

interpretation pth_ll: list_bucket "pth_ll_upd c 16 mem" ents "\<lambda>e. mem (mb_id (snd e))" for c mem
  by unfold_locales (rule pth_ll_upd_refines)

section \<open>The burst loops\<close>

text \<open>
  Run-to-completion: the queue counter is updated before \<^verbatim>\<open>global\<close> is summed up, and the buffers
  are freed after the per-packet loop.
\<close>

definition rtc_ll_one ::
  "cfg \<Rightarrow> (nat \<Rightarrow> bool) \<Rightarrow> mbuf \<Rightarrow> u32 flow_entry list mon_state \<Rightarrow> fw_error + u32 flow_entry list mon_state"
where
  "rtc_ll_one c mem m s =
     sbind (table_upd bucket_of (rtc_ll_upd c mem) (glob s, m) (tbl s)) (\<lambda>t. Inr (s\<lparr>tbl := t\<rparr>))"

definition rtc_linked_list ::
  "cfg \<Rightarrow> (nat \<Rightarrow> bool) \<Rightarrow> nat \<Rightarrow> mbuf list \<Rightarrow> u32 flow_entry list mon_state
     \<Rightarrow> fw_error + u32 flow_entry list mon_state"
where
  "rtc_linked_list c mem q bufs s =
     (if bufs = [] then Inr s
      else
        sbind (ring_add q (length bufs) (rings s)) (\<lambda>re.
        sbind (if c_ipg c then ring_total RTC_RX_RINGS re else Inr (glob s)) (\<lambda>g.
        sbind (run (rtc_ll_one c mem) bufs (s\<lparr>rings := re, glob := g\<rparr>)) (\<lambda>s.
        Inr (s\<lparr>freed := freed s @ bufs\<rparr>)))))"

definition pth_ll_one ::
  "cfg \<Rightarrow> nat \<Rightarrow> (nat \<Rightarrow> bool) \<Rightarrow> mbuf \<Rightarrow> u64 flow_entry_sd list mon_state
     \<Rightarrow> fw_error + u64 flow_entry_sd list mon_state"
where
  "pth_ll_one c bits mem m s =
     sbind (table_upd (\<lambda>e. unat (pth_index_l bits (rss (snd e)))) (pth_ll_upd c bits mem) (glob s, m) (tbl s))
       (\<lambda>t. Inr (s\<lparr>tbl := t, freed := freed s @ [m]\<rparr>))"

definition pth_count_linked_list ::
  "cfg \<Rightarrow> nat \<Rightarrow> (nat \<Rightarrow> bool) \<Rightarrow> nat \<Rightarrow> nat \<Rightarrow> mbuf list \<Rightarrow> u64 flow_entry_sd list mon_state
     \<Rightarrow> fw_error + u64 flow_entry_sd list mon_state"
where
  "pth_count_linked_list c bits mem n_rx q bufs s =
     (if bufs = [] then Inr s
      else
        sbind (ring_add q (length bufs) (rings s)) (\<lambda>re.
        sbind (if c_ipg c then ring_total n_rx re else Inr (glob s)) (\<lambda>g.
        run (pth_ll_one c bits mem) bufs (s\<lparr>rings := re, glob := g\<rparr>))))"

lemmas rtc_ll_run_one =
  run_one [of "rtc_ll_one c mem" bucket_of "rtc_ll_upd c mem" "\<lambda>m. []" for c mem,
    simplified, OF rtc_ll_one_def]
lemmas pth_ll_run_one =
  run_one [of "pth_ll_one c 16 mem" "\<lambda>e. unat (pth_index_l 16 (rss (snd e)))" "pth_ll_upd c 16 mem"
    "\<lambda>m. [m]" for c mem, OF pth_ll_one_def, simplified, unfolded pth_bucket_16]

interpretation rtc_ll_loop: burst_loop "rtc_linked_list c mem" "rtc_ll_upd c mem" for c mem
  by unfold_locales
    (auto simp: rtc_linked_list_def sbind_Inr_iff split: if_splits dest!: rtc_ll_run_one)

interpretation pth_ll_loop: burst_loop "pth_count_linked_list c 16 mem n_rx" "pth_ll_upd c 16 mem"
  for c mem n_rx
  by unfold_locales
    (auto simp: pth_count_linked_list_def sbind_Inr_iff split: if_splits dest!: pth_ll_run_one)

section \<open>Reports at exit\<close>

text \<open>Run-to-completion: \<^verbatim>\<open>sum += f->ctr; if (f->ctr) fls += 1;\<close> over every entry of every list.\<close>

definition rtc_ll_report :: "(nat \<Rightarrow> u32 flow_entry list) \<Rightarrow> u64 \<times> u64" where
  "rtc_ll_report t =
     fold (\<lambda>i. fold (\<lambda>f (sum, fls). (sum + ucast (e_ctr f), if e_ctr f \<noteq> 0 then fls + 1 else fls)) (t i))
       [0..<FLOW_NUM] (0, 0)"

text \<open>pthread: \<^verbatim>\<open>while (f != NULL && f->ctr > 0) { sum += 1; f = f->next; }\<close>\<close>

fun pth_ll_count :: "u64 flow_entry_sd list \<Rightarrow> u64 \<Rightarrow> u64" where
  "pth_ll_count [] n = n"
| "pth_ll_count (f # fs) n = (if e_ctr f > 0 then pth_ll_count fs (n + 1) else n)"

definition pth_ll_report :: "(nat \<Rightarrow> u64 flow_entry_sd list) \<Rightarrow> u64" where
  "pth_ll_report t = fold (\<lambda>i. pth_ll_count (t i)) [0..<FLOW_NUM] 0"

lemma rtc_ll_report_entries:
  "fold (\<lambda>f (sum, fls). (sum + ucast (e_ctr f), if e_ctr f \<noteq> 0 then fls + 1 else fls)) fs (a, b) =
     (a + of_nat (sum_list (map (\<lambda>x. unat (snd x)) (ents (fs :: u32 flow_entry list)))),
      b + (of_nat (length (filter (\<lambda>x. snd x \<noteq> 0) (ents fs))) :: u64))"
  by (induction fs arbitrary: a b) (auto simp: ents_def algebra_simps)

lemma rtc_ll_report_sum:
  "rtc_ll_report t =
     (of_nat (\<Sum>i < FLOW_NUM. sum_list (map (\<lambda>x. unat (snd x)) (ents (t i)))),
      of_nat (\<Sum>i < FLOW_NUM. length (filter (\<lambda>x. snd x \<noteq> 0) (ents (t i)))))"
proof -
  have "fold (\<lambda>i. fold (\<lambda>f (sum, fls). (sum + ucast (e_ctr f), if e_ctr f \<noteq> 0 then fls + 1 else fls)) (t i))
      [0..<n] (0 :: u64, 0 :: u64) =
     (of_nat (\<Sum>i < n. sum_list (map (\<lambda>x. unat (snd x)) (ents (t i)))),
      of_nat (\<Sum>i < n. length (filter (\<lambda>x. snd x \<noteq> 0) (ents (t i)))))" for n
    by (induction n) (simp_all add: rtc_ll_report_entries)
  then show ?thesis by (simp add: rtc_ll_report_def)
qed

lemma pth_ll_count_acc: "pth_ll_count fs a = a + pth_ll_count fs 0"
proof (induction fs arbitrary: a)
  case Nil
  show ?case by simp
next
  case (Cons f fs)
  show ?case using Cons [of "a + 1"] Cons [of 1] by (simp add: algebra_simps)
qed

text \<open>In a well-formed list with no zero counter on a used entry, the prefix the loop walks holds
  exactly the used entries.\<close>

lemma pth_ll_count_wf:
  "list_wf_aux (ents fs) \<Longrightarrow> \<forall>k \<in> list_tracked (ents fs). list_cnt (ents fs) k \<noteq> 0 \<Longrightarrow>
     pth_ll_count fs 0 = of_nat (length (filter (\<lambda>x. snd x \<noteq> 0) (ents fs)))"
proof (induction fs)
  case Nil
  show ?case by simp
next
  case (Cons f fs)
  show ?case
  proof (cases "rss_high f = 0")
    case True
    with Cons.prems(1) have z: "e_ctr f = 0" "\<forall>x \<in> set (ents fs). x = (0, 0)" by simp_all
    then have "filter (\<lambda>x. snd x \<noteq> 0) (ents fs) = []" by (auto simp: filter_empty_conv)
    with z True show ?thesis by simp
  next
    case False
    with Cons.prems(1) have f: "rss_high f \<notin> list_tracked (ents fs)" "list_wf_aux (ents fs)"
      by (auto dest: list_tracked_tags)
    have nz: "\<forall>k \<in> list_tracked (ents fs). list_cnt (ents fs) k \<noteq> 0"
    proof
      fix k assume k: "k \<in> list_tracked (ents fs)"
      with f have "rss_high f \<noteq> k" by auto
      with bspec [OF Cons.prems(2), of k] k show "list_cnt (ents fs) k \<noteq> 0" by simp
    qed
    have "e_ctr f \<noteq> 0" using Cons.prems(2) False by simp
    then show ?thesis
      using Cons.IH [OF f(2) nz] pth_ll_count_acc [of fs 1] by (simp add: word_gt_0)
  qed
qed

lemma pth_ll_report_sum: "pth_ll_report t = (\<Sum>i < FLOW_NUM. pth_ll_count (t i) 0)"
proof -
  have "pth_ll_report t = fold (\<lambda>i s. s + pth_ll_count (t i) 0) [0..<FLOW_NUM] 0"
    unfolding pth_ll_report_def by (rule fold_cong) (auto simp: fun_eq_iff, metis pth_ll_count_acc)
  then show ?thesis by (simp add: fold_plus_sum)
qed

end
