(* ===== verification/Linked_List_Correct.thy ===== *)
theory Linked_List_Correct
  imports Linked_List Double_Hash_Correct
begin

text \<open>
  What the \<^verbatim>\<open>LINKED_LIST\<close> loops compute: exact counts for every flow, safety when memory runs
  out, and the reports at exit.
\<close>

section \<open>Start-up\<close>

lemma ll_init_loop_ok:
  "ll_init_loop (\<lambda>_. True) z sz j fs = Inr (fs @ replicate (unat (sz - 1) - unat j) z)"
proof (induction "\<lambda>_ :: nat. True" z sz j fs rule: ll_init_loop.induct)
  case (1 z sz j fs)
  show ?case
  proof (cases "j < sz - 1")
    case True
    have "unat (sz - 1) < 2 ^ 32" by (rule order_less_le_trans [OF unsigned_less]) simp
    with True have j: "unat (j + 1) = unat j + 1" "unat j < unat (sz - 1)"
      by (simp_all add: word_less_nat_alt unat_word_ariths)
    then have "unat (sz - 1) - unat j = Suc (unat (sz - 1) - unat (j + 1))" by simp
    with 1 True show ?thesis by (subst ll_init_loop.simps) simp
  next
    case False
    then show ?thesis by (subst ll_init_loop.simps) (simp add: not_less word_le_nat_alt word_less_nat_alt)
  qed
qed

lemma ll_init_loop_safe:
  "(\<exists>k. ll_init_loop mem z sz j fs = Inr (fs @ replicate k z)) \<or>
   ll_init_loop mem z sz j fs = Inl (Undefined ''null pointer dereference'') \<and> \<not> (\<forall>j. mem j)"
proof (induction mem z sz j fs rule: ll_init_loop.induct)
  case (1 mem z sz j fs)
  show ?case
  proof (cases "j < sz - 1 \<and> mem (unat j + 1)")
    case True
    with 1 have "(\<exists>k. ll_init_loop mem z sz (j + 1) (fs @ [z]) = Inr (fs @ replicate (Suc k) z)) \<or>
        ll_init_loop mem z sz (j + 1) (fs @ [z]) = Inl (Undefined ''null pointer dereference'') \<and>
        \<not> (\<forall>j. mem j)" by simp
    with True show ?thesis by (subst (1 2) ll_init_loop.simps) (auto simp del: replicate_Suc)
  next
    case False
    then have "j < sz - 1 \<Longrightarrow> \<not> (\<forall>j. mem j)" by auto
    with False show ?thesis
      by (subst (1 2) ll_init_loop.simps) (auto intro: exI [of _ 0])
  qed
qed

lemma flow_struct_init_ok:
  assumes "\<forall>i j. mem i j" and "1 \<le> sz"
  shows "\<exists>t'. flow_struct_init mem z sz t = Inr t' \<and> (\<forall>i < FLOW_NUM. t' i = replicate (unat sz) z)"
proof -
  have m: "mem i = (\<lambda>_. True)" for i using assms(1) by auto
  have sz: "Suc (unat (sz - 1)) = unat sz"
    using assms(2) by (simp add: unat_sub word_le_nat_alt)
  let ?f = "\<lambda>i t. if mem i 0 then sbind (ll_init_loop (mem i) z sz 0 [z]) (\<lambda>fs. Inr (t(i := fs)))
                else Inl (Failed ''Flow entry allocation failed'')"
  have step: "?f i t = Inr (t(i := replicate (unat sz) z))" for i t
    by (simp add: m ll_init_loop_ok flip: sz)
  have "run ?f [0..<n] t = Inr (\<lambda>i. if i < n then replicate (unat sz) z else t i)" for n
    by (induction n) (auto simp: run_append step fun_eq_iff simp del: fun_upd_apply, auto)
  then show ?thesis by (simp add: flow_struct_init_def)
qed

section \<open>The loops return, or memory has run out\<close>

abbreviation no_memory :: fw_error where
  "no_memory \<equiv> Exit_failure ''flow bucket allocation failure''"

lemma rtc_ll_burst_safe:
  assumes "length (rings s) = n \<and> (\<forall>i < FLOW_NUM. tbl s i \<noteq> [])" and "RTC_RX_RINGS \<le> n" and "q < n"
  shows "(\<exists>s'. rtc_linked_list c mem q bufs s = Inr s' \<and>
      length (rings s') = n \<and> (\<forall>i < FLOW_NUM. tbl s' i \<noteq> [])) \<or>
    (\<exists>x. rtc_linked_list c mem q bufs s = Inl x \<and> (\<exists>m \<in> set bufs. \<not> mem (mb_id m)) \<and> x = no_memory)"
proof -
  let ?re = "(rings s)[q := rings s ! q + of_nat (length bufs)]"
  have r: "ring_add q (length bufs) (rings s) = Inr ?re" using assms by (simp add: ring_add_def)
  obtain g where g: "(if c_ipg c then ring_total RTC_RX_RINGS ?re else Inr (glob s)) = Inr g"
    using glob_returns [of RTC_RX_RINGS ?re "c_ipg c" "glob s"] assms by auto
  let ?s = "s\<lparr>rings := ?re, glob := g\<rparr>" and ?I = "\<lambda>t. \<forall>i < FLOW_NUM. t i \<noteq> []"
  have "(\<exists>s'. run (rtc_ll_one c mem) bufs ?s = Inr s' \<and> ?I (tbl s') \<and> rings s' = rings ?s \<and> glob s' = g) \<or>
    (\<exists>m \<in> set bufs. \<exists>x. run (rtc_ll_one c mem) bufs ?s = Inl x \<and>
       \<not> mem (mb_id m) \<and> x = no_memory)"
  proof (rule run_one_safe [where d = "\<lambda>_. []"])
    fix m :: mbuf and t :: "nat \<Rightarrow> u32 flow_entry list"
    assume "?I t"
    then show "(\<exists>u. table_upd bucket_of (rtc_ll_upd c mem) (g, m) t = Inr u \<and> ?I u) \<or>
      (\<exists>x. table_upd bucket_of (rtc_ll_upd c mem) (g, m) t = Inl x \<and> \<not> mem (mb_id m) \<and> x = no_memory)"
      using rtc_ll.table_safe [of t c mem "(g, m)"] by simp
  qed (use assms(1) in \<open>simp_all add: rtc_ll_one_def\<close>)
  with r g assms show ?thesis by (auto simp: rtc_linked_list_def)
qed

lemma pth_ll_burst_safe:
  assumes "length (rings s) = n \<and> (\<forall>i < FLOW_NUM. tbl s i \<noteq> [])" and "n_rx \<le> n" and "q < n"
  shows "(\<exists>s'. pth_count_linked_list c 16 mem n_rx q bufs s = Inr s' \<and>
      length (rings s') = n \<and> (\<forall>i < FLOW_NUM. tbl s' i \<noteq> [])) \<or>
    (\<exists>x. pth_count_linked_list c 16 mem n_rx q bufs s = Inl x \<and>
       (\<exists>m \<in> set bufs. \<not> mem (mb_id m)) \<and> x = no_memory)"
proof -
  let ?re = "(rings s)[q := rings s ! q + of_nat (length bufs)]"
  have r: "ring_add q (length bufs) (rings s) = Inr ?re" using assms by (simp add: ring_add_def)
  obtain g where g: "(if c_ipg c then ring_total n_rx ?re else Inr (glob s)) = Inr g"
    using glob_returns [of n_rx ?re "c_ipg c" "glob s"] assms by auto
  let ?s = "s\<lparr>rings := ?re, glob := g\<rparr>" and ?I = "\<lambda>t. \<forall>i < FLOW_NUM. t i \<noteq> []"
  have "(\<exists>s'. run (pth_ll_one c 16 mem) bufs ?s = Inr s' \<and> ?I (tbl s') \<and> rings s' = rings ?s \<and> glob s' = g) \<or>
    (\<exists>m \<in> set bufs. \<exists>x. run (pth_ll_one c 16 mem) bufs ?s = Inl x \<and>
       \<not> mem (mb_id m) \<and> x = no_memory)"
  proof (rule run_one_safe [where d = "\<lambda>m. [m]"])
    fix m :: mbuf and t :: "nat \<Rightarrow> u64 flow_entry_sd list"
    assume "?I t"
    then show "(\<exists>u. table_upd bucket_of (pth_ll_upd c 16 mem) (g, m) t = Inr u \<and> ?I u) \<or>
      (\<exists>x. table_upd bucket_of (pth_ll_upd c 16 mem) (g, m) t = Inl x \<and> \<not> mem (mb_id m) \<and> x = no_memory)"
      using pth_ll.table_safe [of t c mem "(g, m)"] by simp
  qed (use assms(1) in \<open>simp_all add: pth_ll_one_def pth_bucket_16\<close>)
  with r g assms show ?thesis by (auto simp: pth_count_linked_list_def)
qed

text \<open>The same over any sequence of bursts, for a loop with such bursts.\<close>

lemma run_bursts_safe:
  assumes "\<And>q bufs s. (q, bufs) \<in> set bs \<Longrightarrow> I s \<Longrightarrow> (\<exists>s'. burst q bufs s = Inr s' \<and> I s') \<or>
      (\<exists>x. burst q bufs s = Inl x \<and> (\<exists>m \<in> set bufs. \<not> mem (mb_id m)) \<and> x = no_memory)"
    and "I s"
  shows "(\<exists>s'. run (\<lambda>(q, bufs). burst q bufs) bs s = Inr s' \<and> I s') \<or>
    run (\<lambda>(q, bufs). burst q bufs) bs s = Inl no_memory \<and> (\<exists>m \<in> set (packets bs). \<not> mem (mb_id m))"
proof -
  have "(\<exists>s'. run (\<lambda>(q, bufs). burst q bufs) bs s = Inr s' \<and> I s') \<or>
    (\<exists>b \<in> set bs. \<exists>x. run (\<lambda>(q, bufs). burst q bufs) bs s = Inl x \<and>
       (\<exists>m \<in> set (snd b). \<not> mem (mb_id m)) \<and> x = no_memory)"
  proof (rule run_safe [where I = I, OF assms(2)])
    fix e u
    assume e: "e \<in> set bs" and u: "I u"
    obtain q bufs where "e = (q, bufs)" by (cases e)
    with assms(1) [of q bufs u] e u
    show "(\<exists>s'. (case e of (q, bufs) \<Rightarrow> burst q bufs) u = Inr s' \<and> I s') \<or>
      (\<exists>x. (case e of (q, bufs) \<Rightarrow> burst q bufs) u = Inl x \<and>
         (\<exists>m \<in> set (snd e). \<not> mem (mb_id m)) \<and> x = no_memory)" by simp
  qed
  then show ?thesis by fastforce
qed

lemma rtc_ll_run_safe:
  assumes "RTC_RX_RINGS \<le> length (rings s)" and "\<forall>b \<in> set bs. fst b < length (rings s)"
    and "\<forall>i < FLOW_NUM. tbl s i \<noteq> []"
  shows "(\<exists>s'. run (\<lambda>(q, bufs). rtc_linked_list c mem q bufs) bs s = Inr s') \<or>
    run (\<lambda>(q, bufs). rtc_linked_list c mem q bufs) bs s = Inl no_memory \<and>
      (\<exists>m \<in> set (packets bs). \<not> mem (mb_id m))"
proof -
  let ?I = "\<lambda>u :: u32 flow_entry list mon_state.
    length (rings u) = length (rings s) \<and> (\<forall>i < FLOW_NUM. tbl u i \<noteq> [])"
  have "(\<exists>s'. run (\<lambda>(q, bufs). rtc_linked_list c mem q bufs) bs s = Inr s' \<and> ?I s') \<or>
    run (\<lambda>(q, bufs). rtc_linked_list c mem q bufs) bs s = Inl no_memory \<and>
      (\<exists>m \<in> set (packets bs). \<not> mem (mb_id m))"
  proof (rule run_bursts_safe)
    fix q bufs u
    assume e: "(q, bufs) \<in> set bs" and u: "?I u"
    have "q < length (rings s)" using bspec [OF assms(2) e] by simp
    then show "(\<exists>s'. rtc_linked_list c mem q bufs u = Inr s' \<and> ?I s') \<or>
      (\<exists>x. rtc_linked_list c mem q bufs u = Inl x \<and> (\<exists>m \<in> set bufs. \<not> mem (mb_id m)) \<and> x = no_memory)"
      by (rule rtc_ll_burst_safe [OF u assms(1)])
  qed (use assms(3) in simp)
  then show ?thesis by blast
qed

lemma pth_ll_run_safe:
  assumes "n_rx \<le> length (rings s)" and "\<forall>b \<in> set bs. fst b < length (rings s)"
    and "\<forall>i < FLOW_NUM. tbl s i \<noteq> []"
  shows "(\<exists>s'. run (\<lambda>(q, bufs). pth_count_linked_list c 16 mem n_rx q bufs) bs s = Inr s') \<or>
    run (\<lambda>(q, bufs). pth_count_linked_list c 16 mem n_rx q bufs) bs s = Inl no_memory \<and>
      (\<exists>m \<in> set (packets bs). \<not> mem (mb_id m))"
proof -
  let ?I = "\<lambda>u :: u64 flow_entry_sd list mon_state.
    length (rings u) = length (rings s) \<and> (\<forall>i < FLOW_NUM. tbl u i \<noteq> [])"
  have "(\<exists>s'. run (\<lambda>(q, bufs). pth_count_linked_list c 16 mem n_rx q bufs) bs s = Inr s' \<and> ?I s') \<or>
    run (\<lambda>(q, bufs). pth_count_linked_list c 16 mem n_rx q bufs) bs s = Inl no_memory \<and>
      (\<exists>m \<in> set (packets bs). \<not> mem (mb_id m))"
  proof (rule run_bursts_safe)
    fix q bufs u
    assume e: "(q, bufs) \<in> set bs" and u: "?I u"
    have "q < length (rings s)" using bspec [OF assms(2) e] by simp
    then show "(\<exists>s'. pth_count_linked_list c 16 mem n_rx q bufs u = Inr s' \<and> ?I s') \<or>
      (\<exists>x. pth_count_linked_list c 16 mem n_rx q bufs u = Inl x \<and>
         (\<exists>m \<in> set bufs. \<not> mem (mb_id m)) \<and> x = no_memory)"
      by (rule pth_ll_burst_safe [OF u assms(1)])
  qed (use assms(3) in simp)
  then show ?thesis by blast
qed

lemma rtc_linked_list_frees:
  "rtc_linked_list c mem q bufs s = Inr s' \<Longrightarrow> freed s' = freed s @ bufs"
  by (auto simp: rtc_linked_list_def sbind_Inr_iff split: if_splits dest!: rtc_ll_run_one)

lemma pth_linked_list_frees:
  "pth_count_linked_list c 16 mem n_rx q bufs s = Inr s' \<Longrightarrow> freed s' = freed s @ bufs"
  by (auto simp: pth_count_linked_list_def sbind_Inr_iff split: if_splits dest!: pth_ll_run_one)

lemma rtc_ll_run_frees:
  "run (\<lambda>(q, bufs). rtc_linked_list c mem q bufs) bs s = Inr s' \<Longrightarrow> freed s' = freed s @ packets bs"
  by (erule run_frees [where f = "\<lambda>b. b"]) (rule rtc_linked_list_frees)

lemma pth_ll_run_frees:
  "run (\<lambda>(q, bufs). pth_count_linked_list c 16 mem n_rx q bufs) bs s = Inr s' \<Longrightarrow>
     freed s' = freed s @ packets bs"
  by (erule run_frees [where f = "\<lambda>b. b"]) (rule pth_linked_list_frees)

section \<open>Tables of free entries\<close>

definition ll_free :: "(nat \<Rightarrow> ('w::len word, 'z) flow_entry_scheme list) \<Rightarrow> bool" where
  "ll_free t \<longleftrightarrow> (\<forall>i < FLOW_NUM. list_empty (ents (t i)))"

lemma ll_free_facts:
  assumes "ll_free t"
  shows "\<forall>i < FLOW_NUM. t i \<noteq> []" and "\<forall>i < FLOW_NUM. list_wf (ents (t i))"
    and "\<forall>i < FLOW_NUM. list_wf (ents (t i)) \<and> list_tracked (ents (t i)) = {} \<and> (\<forall>k. list_cnt (ents (t i)) k = 0)"
proof -
  have e: "list_empty (ents (t i))" if "i < FLOW_NUM" for i using assms that by (simp add: ll_free_def)
  then show "\<forall>i < FLOW_NUM. t i \<noteq> []" by (auto simp: list_empty_def)
  from e show "\<forall>i < FLOW_NUM. list_wf (ents (t i))" by (simp add: list_empty_facts(1))
  from e show "\<forall>i < FLOW_NUM. list_wf (ents (t i)) \<and> list_tracked (ents (t i)) = {} \<and>
      (\<forall>k. list_cnt (ents (t i)) k = 0)" by (simp add: list_empty_facts(1-3))
qed

lemma replicate_free:
  assumes "\<forall>i < FLOW_NUM. t i = replicate n z" and "0 < n" and "rss_high z = 0" and "e_ctr z = 0"
  shows "ll_free t"
  using assms by (auto simp: ll_free_def list_empty_def ents_def)

section \<open>Properties\<close>

text \<open>
  \<^verbatim>\<open>flow_struct_init\<close> gives every bucket a list of \<open>size\<close> zeroed entries when all
  its allocations succeed, and terminates.
\<close>

theorem flow_struct_init_builds:
  assumes "\<forall>i j. mem i j" and "1 \<le> sz"
  shows "\<exists>t'. flow_struct_init mem z sz t = Inr t' \<and> (\<forall>i < FLOW_NUM. t' i = replicate (unat sz) z)"
  by (rule flow_struct_init_ok [OF assms])

theorem flow_struct_init_builds_witness:
  "\<exists>t'. flow_struct_init (\<lambda>_ _. True) rtc_ll_zero 2 (\<lambda>_. []) = Inr t' \<and> t' 65535 = [rtc_ll_zero, rtc_ll_zero]"
proof -
  have "unat (2 :: u32) = 2" "replicate 2 rtc_ll_zero = [rtc_ll_zero, rtc_ll_zero]"
    by (simp, simp add: numeral_2_eq_2)
  then show ?thesis
    using flow_struct_init_builds [of "\<lambda>_ _. True" 2 rtc_ll_zero "\<lambda>_. []"]
    by (auto simp: FLOW_NUM_def)
qed

text \<open>
  The second allocation check of \<^verbatim>\<open>flow_struct_init\<close> tests the wrong pointer: when the first
  entry of a bucket is allocated and the second is not, the null pointer is dereferenced instead of
  -1 being returned.
\<close>

theorem flow_struct_init_null_check:
  assumes "mem 0 0" and "\<not> mem 0 1" and "2 \<le> sz"
  shows "flow_struct_init mem z sz t = Inl (Undefined ''null pointer dereference'')"
proof -
  have "0 < sz - 1" using assms(3) by (simp add: word_less_nat_alt word_le_nat_alt unat_sub)
  then have "ll_init_loop (mem 0) z sz 0 [z] = Inl (Undefined ''null pointer dereference'')"
    using assms(2) by (subst ll_init_loop.simps) simp
  moreover have "0 < FLOW_NUM" by (simp add: FLOW_NUM_def)
  then have "[0..<FLOW_NUM] = 0 # [Suc 0..<FLOW_NUM]" by (rule upt_conv_Cons)
  ultimately show ?thesis using assms(1) by (simp add: flow_struct_init_def)
qed

theorem flow_struct_init_null_check_witness:
  "flow_struct_init (\<lambda>i j. j = 0) rtc_ll_zero 2 (\<lambda>_. []) = Inl (Undefined ''null pointer dereference'')"
  using flow_struct_init_null_check [of "\<lambda>i j. j = 0" 2] by simp

text \<open>
  C16: The run-to-completion linked-list loop counts every flow exactly (modulo \<open>2^32\<close>), has
  entries for exactly the flows it has seen and frees every buffer once; the only way it stops is the
  exit on a failed allocation of an entry, never an access that C leaves undefined.
\<close>

theorem rtc_linked_list_counts:
  assumes "RTC_RX_RINGS \<le> length (rings s)" and "\<forall>b \<in> set bs. fst b < length (rings s)"
    and "ll_free (tbl s)" and "\<forall>m \<in> set (packets bs). h_tag (rss m) \<noteq> 0"
  shows "(\<exists>s'. run (\<lambda>(q, bufs). rtc_linked_list c mem q bufs) bs s = Inr s' \<and>
      flow_counts (\<lambda>i. list_cnt (ents (tbl s' i))) (\<lambda>i. list_tracked (ents (tbl s' i))) (packets bs) \<and>
      freed s' = freed s @ packets bs) \<or>
    run (\<lambda>(q, bufs). rtc_linked_list c mem q bufs) bs s =
      Inl (Exit_failure ''flow bucket allocation failure'') \<and> (\<exists>m \<in> set (packets bs). \<not> mem (mb_id m))"
  using rtc_ll_run_safe [OF assms(1,2) ll_free_facts(1) [OF assms(3)], of c mem]
proof (elim disjE exE)
  fix s'
  assume s': "run (\<lambda>(q, bufs). rtc_linked_list c mem q bufs) bs s = Inr s'"
  obtain es where es: "map snd es = packets bs"
    "run (table_upd bucket_of (rtc_ll_upd c mem)) es (tbl s) = Inr (tbl s')"
    using rtc_ll_loop.run_events [OF s'] by blast
  from rtc_ll.table_flow_counts [OF es(2,1) ll_free_facts(3) [OF assms(3)] assms(4)]
    rtc_ll_run_frees [OF s'] s' show ?thesis by blast
qed blast

definition rtc_ll_start :: "nat \<Rightarrow> u32 flow_entry list" where
  "rtc_ll_start = (\<lambda>_. [rtc_ll_zero, rtc_ll_zero])"

definition pth_ll_start :: "nat \<Rightarrow> u64 flow_entry_sd list" where
  "pth_ll_start = (\<lambda>_. [pth_ll_zero])"

lemma ll_start_free: "ll_free rtc_ll_start" "ll_free pth_ll_start"
  by (simp_all add: ll_free_def list_empty_def rtc_ll_start_def rtc_ll_zero_def pth_ll_start_def pth_ll_zero_def)

theorem rtc_linked_list_counts_witness:
  "\<exists>s'. run (\<lambda>(q, bufs). rtc_linked_list ex_cfg (\<lambda>_. True) q bufs) ex_bursts (ex_state rtc_ll_start) = Inr s' \<and>
    flow_counts (\<lambda>i. list_cnt (ents (tbl s' i))) (\<lambda>i. list_tracked (ents (tbl s' i))) (packets ex_bursts) \<and>
    map mb_id (freed s') = [1, 2, 3, 4, 5]"
proof -
  have "RTC_RX_RINGS \<le> length (rings (ex_state rtc_ll_start))"
    "\<forall>b \<in> set ex_bursts. fst b < length (rings (ex_state rtc_ll_start))"
    "ll_free (tbl (ex_state rtc_ll_start))"
    using ex_bursts_facts(3) ll_start_free by (simp_all add: RTC_RX_RINGS_def)
  moreover have "map mb_id (packets ex_bursts) = [1, 2, 3, 4, 5]" by (simp add: ex_bursts_def)
  ultimately show ?thesis
    using rtc_linked_list_counts [of "ex_state rtc_ll_start" ex_bursts ex_cfg "\<lambda>_. True"] ex_bursts_facts(1)
    by auto
qed

text \<open>
  C17: The same for the counting thread of the pthread version, with 64-bit counters and the 16-bit
  masks.
\<close>

theorem pth_linked_list_counts:
  assumes "n_rx \<le> length (rings s)" and "\<forall>b \<in> set bs. fst b < length (rings s)"
    and "ll_free (tbl s)" and "\<forall>m \<in> set (packets bs). h_tag (rss m) \<noteq> 0"
  shows "(\<exists>s'. run (\<lambda>(q, bufs). pth_count_linked_list c 16 mem n_rx q bufs) bs s = Inr s' \<and>
      flow_counts (\<lambda>i. list_cnt (ents (tbl s' i))) (\<lambda>i. list_tracked (ents (tbl s' i))) (packets bs) \<and>
      freed s' = freed s @ packets bs) \<or>
    run (\<lambda>(q, bufs). pth_count_linked_list c 16 mem n_rx q bufs) bs s =
      Inl (Exit_failure ''flow bucket allocation failure'') \<and> (\<exists>m \<in> set (packets bs). \<not> mem (mb_id m))"
  using pth_ll_run_safe [OF assms(1,2) ll_free_facts(1) [OF assms(3)], of c mem]
proof (elim disjE exE)
  fix s'
  assume s': "run (\<lambda>(q, bufs). pth_count_linked_list c 16 mem n_rx q bufs) bs s = Inr s'"
  obtain es where es: "map snd es = packets bs"
    "run (table_upd bucket_of (pth_ll_upd c 16 mem)) es (tbl s) = Inr (tbl s')"
    using pth_ll_loop.run_events [OF s'] by blast
  from pth_ll.table_flow_counts [OF es(2,1) ll_free_facts(3) [OF assms(3)] assms(4)]
    pth_ll_run_frees [OF s'] s' show ?thesis by blast
qed blast

theorem pth_linked_list_counts_witness:
  "\<exists>s'. run (\<lambda>(q, bufs). pth_count_linked_list ex_cfg 16 (\<lambda>_. True) 1 q bufs) ex_bursts
      (ex_state pth_ll_start) = Inr s' \<and>
    flow_counts (\<lambda>i. list_cnt (ents (tbl s' i))) (\<lambda>i. list_tracked (ents (tbl s' i))) (packets ex_bursts) \<and>
    map mb_id (freed s') = [1, 2, 3, 4, 5]"
proof -
  have "1 \<le> length (rings (ex_state pth_ll_start))"
    "\<forall>b \<in> set ex_bursts. fst b < length (rings (ex_state pth_ll_start))"
    "ll_free (tbl (ex_state pth_ll_start))"
    using ex_bursts_facts(3) ll_start_free by simp_all
  moreover have "map mb_id (packets ex_bursts) = [1, 2, 3, 4, 5]" by (simp add: ex_bursts_def)
  ultimately show ?thesis
    using pth_linked_list_counts [of 1 "ex_state pth_ll_start" ex_bursts ex_cfg "\<lambda>_. True"] ex_bursts_facts(1)
    by auto
qed

section \<open>The reports\<close>

lemma list_table_report:
  fixes t :: "nat \<Rightarrow> ('w::len) entries"
  assumes f: "flow_counts (\<lambda>i. list_cnt (t i)) (\<lambda>i. list_tracked (t i)) ms"
    and wf: "\<forall>i < FLOW_NUM. list_wf (t i)"
    and v: "\<forall>m \<in> set ms. h_tag (rss m) \<noteq> 0" and n: "length ms < 2 ^ LENGTH('w)"
  shows "(\<Sum>i < FLOW_NUM. sum_list (map (\<lambda>x. unat (snd x)) (t i))) = length ms"
    and "(\<Sum>i < FLOW_NUM. length (filter (\<lambda>x. snd x \<noteq> 0) (t i))) = card (set (map rss ms))"
proof -
  have w: "list_wf_aux (t i)" if "i < FLOW_NUM" for i using wf that by (simp add: list_wf_def)
  note r = list_bucket_report [OF f _ w refl refl v n]
  have "(\<Sum>i < FLOW_NUM. sum_list (map (\<lambda>x. unat (snd x)) (t i))) =
      (\<Sum>i < FLOW_NUM. length (filter (\<lambda>m. h_slot (rss m) = i) ms))"
    by (rule sum.cong) (auto simp: r(1))
  then show "(\<Sum>i < FLOW_NUM. sum_list (map (\<lambda>x. unat (snd x)) (t i))) = length ms"
    by (simp add: sum_bucket_lengths)
  have "(\<Sum>i < FLOW_NUM. length (filter (\<lambda>x. snd x \<noteq> 0) (t i))) = (\<Sum>i < FLOW_NUM. card (seen_tags ms i))"
    by (rule sum.cong) (auto simp: r(2))
  then show "(\<Sum>i < FLOW_NUM. length (filter (\<lambda>x. snd x \<noteq> 0) (t i))) = card (set (map rss ms))"
    by (simp add: sum_seen_tags)
qed

lemma distinct_hashes_le: "card (set (map rss ms)) \<le> length ms"
  by (metis card_length length_map)

text \<open>
  The report of the run-to-completion linked-list version is exact: the number of packets and
  the number of distinct RSS hashes among them, for fewer than \<open>2^32\<close> packets.
\<close>

theorem rtc_linked_list_report:
  assumes "run (\<lambda>(q, bufs). rtc_linked_list c mem q bufs) bs s = Inr s'" and "ll_free (tbl s)"
    and "\<forall>m \<in> set (packets bs). h_tag (rss m) \<noteq> 0" and "length (packets bs) < 2 ^ 32"
  shows "rtc_ll_report (tbl s') = (of_nat (length (packets bs)), of_nat (card (rss ` set (packets bs))))"
proof -
  obtain es where es: "map snd es = packets bs"
    "run (table_upd bucket_of (rtc_ll_upd c mem)) es (tbl s) = Inr (tbl s')"
    using rtc_ll_loop.run_events [OF assms(1)] by blast
  have n: "length (packets bs) < 2 ^ LENGTH(32)" using assms(4) by simp
  note r = list_table_report [OF rtc_ll.table_flow_counts [OF es(2,1) ll_free_facts(3) [OF assms(2)] assms(3)]
      rtc_ll.table_start_wf [OF es(2,1) ll_free_facts(2) [OF assms(2)] assms(3)] assms(3) n]
  show ?thesis unfolding rtc_ll_report_sum r by simp
qed

theorem rtc_linked_list_report_witness:
  "\<exists>s'. run (\<lambda>(q, bufs). rtc_linked_list ex_cfg (\<lambda>_. True) q bufs) ex_bursts (ex_state rtc_ll_start) = Inr s' \<and>
    rtc_ll_report (tbl s') = (5, 4)"
proof -
  have "RTC_RX_RINGS \<le> length (rings (ex_state rtc_ll_start))"
    "\<forall>b \<in> set ex_bursts. fst b < length (rings (ex_state rtc_ll_start))"
    "ll_free (tbl (ex_state rtc_ll_start))"
    using ex_bursts_facts(3) ll_start_free by (simp_all add: RTC_RX_RINGS_def)
  then obtain s' where s': "run (\<lambda>(q, bufs). rtc_linked_list ex_cfg (\<lambda>_. True) q bufs) ex_bursts
      (ex_state rtc_ll_start) = Inr s'"
    using rtc_ll_run_safe ll_free_facts(1) by blast
  from s' rtc_linked_list_report [OF s'] ll_start_free(1) ex_bursts_facts(1,2,4) show ?thesis by simp
qed

text \<open>
  The report of the pthread linked-list version is the number of distinct RSS hashes among the
  packets: stopping at the first entry with a zero counter misses none.
\<close>

theorem pth_linked_list_report:
  assumes "run (\<lambda>(q, bufs). pth_count_linked_list c 16 mem n_rx q bufs) bs s = Inr s'" and "ll_free (tbl s)"
    and "\<forall>m \<in> set (packets bs). h_tag (rss m) \<noteq> 0" and "length (packets bs) < 2 ^ 64"
  shows "unat (pth_ll_report (tbl s')) = card (rss ` set (packets bs))"
proof -
  obtain es where es: "map snd es = packets bs"
    "run (table_upd bucket_of (pth_ll_upd c 16 mem)) es (tbl s) = Inr (tbl s')"
    using pth_ll_loop.run_events [OF assms(1)] by blast
  note f = pth_ll.table_flow_counts [OF es(2,1) ll_free_facts(3) [OF assms(2)] assms(3)]
    and w = pth_ll.table_start_wf [OF es(2,1) ll_free_facts(2) [OF assms(2)] assms(3)]
  have n: "length (packets bs) < 2 ^ LENGTH(64)" using assms(4) by simp
  have "pth_ll_count (tbl s' i) 0 = of_nat (length (filter (\<lambda>x. snd x \<noteq> 0) (ents (tbl s' i))))"
    if i: "i < FLOW_NUM" for i
  proof (rule pth_ll_count_wf)
    show "list_wf_aux (ents (tbl s' i))" using w i by (simp add: list_wf_def)
    show "\<forall>k \<in> list_tracked (ents (tbl s' i)). list_cnt (ents (tbl s' i)) k \<noteq> 0"
      using flow_counts_unat(2) [OF f i _ assms(3) n] f i by (simp add: flow_counts_def)
  qed
  then have "pth_ll_report (tbl s') =
      of_nat (\<Sum>i < FLOW_NUM. length (filter (\<lambda>x. snd x \<noteq> 0) (ents (tbl s' i))))"
    unfolding pth_ll_report_sum of_nat_sum by (intro sum.cong) auto
  also have "(\<Sum>i < FLOW_NUM. length (filter (\<lambda>x. snd x \<noteq> 0) (ents (tbl s' i)))) = card (rss ` set (packets bs))"
    using list_table_report(2) [OF f w assms(3) n] by simp
  finally show ?thesis
    using distinct_hashes_le [of "packets bs"] assms(4) by (simp add: unat_of_nat_small)
qed

theorem pth_linked_list_report_witness:
  "\<exists>s'. run (\<lambda>(q, bufs). pth_count_linked_list ex_cfg 16 (\<lambda>_. True) 1 q bufs) ex_bursts
      (ex_state pth_ll_start) = Inr s' \<and> unat (pth_ll_report (tbl s')) = 4"
proof -
  have "1 \<le> length (rings (ex_state pth_ll_start))"
    "\<forall>b \<in> set ex_bursts. fst b < length (rings (ex_state pth_ll_start))"
    "ll_free (tbl (ex_state pth_ll_start))"
    using ex_bursts_facts(3) ll_start_free by simp_all
  then obtain s' where s': "run (\<lambda>(q, bufs). pth_count_linked_list ex_cfg 16 (\<lambda>_. True) 1 q bufs) ex_bursts
      (ex_state pth_ll_start) = Inr s'"
    using pth_ll_run_safe ll_free_facts(1) by blast
  from s' pth_linked_list_report [OF s'] ll_start_free(2) ex_bursts_facts(1,2,4) show ?thesis by simp
qed

end
