(* ===== verification/Hash_List.thy ===== *)
theory Hash_List
  imports Linked_List Double_Hash
begin

text \<open>
  The \<^verbatim>\<open>HASH_LIST\<close> builds: two flows in the bucket itself and a linked list for all others.
  The specification of such a bucket and its laws, the per-packet code, initialisation, burst loops
  and reports of the run-to-completion and the pthread version.
\<close>

section \<open>Specification: two slots and a list\<close>

type_synonym 'w slots_list = "'w word slots \<times> 'w entries"

fun hl_upd :: "bool \<Rightarrow> u16 \<Rightarrow> ('w::len) slots_list \<Rightarrow> fw_error + 'w slots_list" where
  "hl_upd ok k ((f1, f2, c), xs) =
     (if f1 \<noteq> 0 \<and> f2 \<noteq> 0 \<and> f1 \<noteq> k \<and> f2 \<noteq> k then
        map_sum (\<lambda>x. x) (Pair (f1, f2, c)) (list_upd ok k xs)
      else Inr (slot_step False k (f1, f2, c), xs))"

fun hl_wf :: "('w::len) slots_list \<Rightarrow> bool" where
  "hl_wf (s, xs) \<longleftrightarrow> slot_wf 2 s \<and> list_wf xs \<and> (slot_full s \<or> list_tracked xs = {}) \<and>
     slot_tracked s \<inter> list_tracked xs = {}"

fun hl_cnt :: "('w::len) slots_list \<Rightarrow> u16 \<Rightarrow> 'w word" where
  "hl_cnt (s, xs) k = (if k \<in> slot_tracked s then slot_cnt s k else list_cnt xs k)"

fun hl_tracked :: "('w::len) slots_list \<Rightarrow> u16 set" where
  "hl_tracked (s, xs) = slot_tracked s \<union> list_tracked xs"

lemma list_cnt_not_tracked: "k \<notin> list_tracked xs \<Longrightarrow> list_cnt xs k = 0"
proof (cases "k = 0")
  case True
  show ?thesis unfolding True by (induction xs) auto
next
  case False
  assume "k \<notin> list_tracked xs"
  with False have "k \<notin> tags xs" by (auto simp: list_tracked_def tags_def)
  then show ?thesis by (rule list_cnt_untracked)
qed

text \<open>A packet goes to the list exactly when the slots are taken by other flows.\<close>

lemma hl_upd_cases:
  assumes "hl_upd ok k (s, xs) = Inr b'" and "k \<noteq> 0"
  obtains "slot_full s" and "k \<notin> slot_tracked s" and "\<exists>ys. list_upd ok k xs = Inr ys \<and> b' = (s, ys)"
    | "k \<in> slot_tracked s \<or> \<not> slot_full s" and "b' = (slot_step False k s, xs)"
proof -
  obtain f1 f2 c where s: "s = (f1, f2, c)" by (cases s)
  show thesis
  proof (cases "f1 \<noteq> 0 \<and> f2 \<noteq> 0 \<and> f1 \<noteq> k \<and> f2 \<noteq> k")
    case True
    with assms(1) obtain ys where "list_upd ok k xs = Inr ys" "b' = (s, ys)"
      by (cases "list_upd ok k xs") (auto simp: s)
    with True show thesis by (intro that(1)) (auto simp: s)
  next
    case False
    with assms show thesis by (intro that(2)) (auto simp: s)
  qed
qed

lemma hl_upd_laws:
  assumes u: "hl_upd ok k (s, xs) = Inr b'" and wf: "hl_wf (s, xs)" and k: "k \<noteq> 0"
  shows "hl_wf b' \<and> hl_tracked b' = insert k (hl_tracked (s, xs)) \<and>
    hl_cnt b' = (hl_cnt (s, xs))(k := hl_cnt (s, xs) k + 1)"
  using u k
proof (cases rule: hl_upd_cases)
  case 1
  then obtain ys where ys: "list_upd ok k xs = Inr ys" "b' = (s, ys)" by blast
  have "list_wf xs" using wf by simp
  note laws = list_upd_laws [OF ys(1) this k]
  from 1 ys laws wf show ?thesis by (auto simp: fun_eq_iff)
next
  case 2
  have w: "slot_wf 2 s" using wf by simp
  note laws = slot_step_wf [OF w k, of False] slot_step_hit [OF w k 2(1), of False]
  have full: "slot_full s \<Longrightarrow> slot_full (slot_step False k s)" by (rule slot_step_full [OF k])
  have "k \<notin> list_tracked xs" using wf 2(1) by auto
  then have z: "list_cnt xs k = 0" by (rule list_cnt_not_tracked)
  have n: "k \<notin> slot_tracked s \<Longrightarrow> slot_cnt s k = 0" using w k by (cases s) auto
  have "hl_wf b'" using wf laws full \<open>k \<notin> list_tracked xs\<close> 2 by (auto simp: 2(2))
  moreover have "hl_tracked b' = insert k (hl_tracked (s, xs))" using laws by (simp add: 2(2))
  moreover have "hl_cnt b' = (hl_cnt (s, xs))(k := hl_cnt (s, xs) k + 1)"
    using laws z n by (auto simp: 2(2) fun_eq_iff)
  ultimately show ?thesis by blast
qed

text \<open>The counters of the bucket add up to its packets, whatever their tags.\<close>

fun hl_sum :: "('w::len) slots_list \<Rightarrow> 'w word" where
  "hl_sum (s, xs) = slot_sum s + list_sum xs"

lemma hl_upd_sum:
  assumes "hl_upd ok k ((f1, f2, c), xs) = Inr b'" and "length c = 2"
  shows "hl_sum b' = hl_sum ((f1, f2, c), xs) + 1 \<and> length (snd (snd (fst b'))) = 2"
proof (cases "f1 \<noteq> 0 \<and> f2 \<noteq> 0 \<and> f1 \<noteq> k \<and> f2 \<noteq> k")
  case True
  with assms(1) obtain ys where "list_upd ok k xs = Inr ys" "b' = ((f1, f2, c), ys)"
    by (cases "list_upd ok k xs") auto
  with list_upd_sum [of ok k xs ys] assms(2) show ?thesis by simp
next
  case False
  with assms show ?thesis by (auto simp: sum_list_bump)
qed

section \<open>Buckets that refine it\<close>

locale hash_bucket =
  fixes upd :: "event \<Rightarrow> 'b \<Rightarrow> fw_error + 'b"
    and sl :: "'b \<Rightarrow> ('w::len) slots_list"
    and ok :: "event \<Rightarrow> bool"
  assumes refines: "upd e b = Inr b' \<Longrightarrow> hl_upd (ok e) (tag e) (sl b) = Inr (sl b')"

sublocale hash_bucket \<subseteq> flow_keeping upd "\<lambda>b. hl_wf (sl b)" "\<lambda>b. hl_cnt (sl b)"
  "\<lambda>b. hl_tracked (sl b)" "\<lambda>_. False"
proof unfold_locales
  fix b e b'
  assume b: "hl_wf (sl b)" "tag e \<noteq> 0" "upd e b = Inr b'"
  obtain s xs where s: "sl b = (s, xs)" by (cases "sl b")
  note laws = hl_upd_laws [OF refines [OF b(3), unfolded s] b(1) [unfolded s] b(2)]
  from laws show "hl_wf (sl b')" by simp
  from laws show "hl_tracked (sl b') = insert (tag e) (hl_tracked (sl b)) \<and>
      hl_cnt (sl b') = (hl_cnt (sl b))(tag e := hl_cnt (sl b) (tag e) + 1)" by (simp add: s)
qed simp_all

section \<open>Per-packet code: run-to-completion version\<close>

text \<open>
  The walk along the overflow list: here the tag is compared first, a hit does not store
  \<^verbatim>\<open>global\<close> in the entry, and only the reuse of a free entry sets its mean.
\<close>

fun rtc_hl_walk :: "cfg \<Rightarrow> u64 \<Rightarrow> u16 \<Rightarrow> u32 flow_entry_sd list \<Rightarrow> u32 flow_entry_sd list option" where
  "rtc_hl_walk c global index_h [] = None"
| "rtc_hl_walk c global index_h (f # fs) =
     (if rss_high f = index_h then
        Some ((let f = f\<lparr>e_ctr := e_ctr f + 1\<rparr>
               in if c_ipg c then
                    (let cur = gap global (e_ipg f);
                         f = f\<lparr>e_stdDev := std_dev (c_fpu c) (e_avg f) cur\<rparr>
                     in f\<lparr>e_avg := mean_float (c_fpu c) (e_avg f) (e_ctr f) cur\<rparr>)
                  else f) # fs)
      else if rss_high f = 0 then
        Some ((let f = f\<lparr>rss_high := index_h, e_ctr := e_ctr f + 1\<rparr>
               in if c_ipg c then
                    f\<lparr>e_avg := rnd64 (c_fpu c) (real (unat (gap global (e_ipg f)))), e_ipg := global\<rparr>
                  else f) # fs)
      else map_option ((#) f) (rtc_hl_walk c global index_h fs))"

definition rtc_hl_zero :: "u32 flow_entry_sd" where
  "rtc_hl_zero = \<lparr>rss_high = 0, e_ctr = 0, e_ipg = 0, e_avg = 0, e_stdDev = 0\<rparr>"

text \<open>
  \<^verbatim>\<open>tmp\<close> is a variable of the function, not of the loop: with an empty list it still points into
  another bucket or nowhere, which \<open>list_add\<close> reports as undefined.
\<close>

definition rtc_hl_chain ::
  "cfg \<Rightarrow> bool \<Rightarrow> u64 \<Rightarrow> u16 \<Rightarrow> u32 flow_entry_sd list \<Rightarrow> fw_error + u32 flow_entry_sd list"
where
  "rtc_hl_chain c ok global index_h fs =
     (case rtc_hl_walk c global index_h fs of
        Some fs' \<Rightarrow> Inr fs'
      | None \<Rightarrow> list_add ok (rtc_hl_zero\<lparr>rss_high := index_h, e_ctr := e_ctr rtc_hl_zero + 1\<rparr>) fs)"

definition rtc_hl_packet ::
  "cfg \<Rightarrow> bool \<Rightarrow> u64 \<Rightarrow> u16 \<Rightarrow> u32 hl_count \<Rightarrow> fw_error + u32 hl_count"
where
  "rtc_hl_packet c ok global index_h b =
     (let fp = c_fpu c in
      if hi_f1 b = 0 then
        (let b = b\<lparr>hi_f1 := index_h, ctr := bump 0 (ctr b)\<rparr>
         in Inr (if c_ipg c then b\<lparr>avg := (avg b)[0 := rnd64 fp (real (unat (ipg b ! 0)))]\<rparr> else b))
      else if hi_f2 b = 0 \<and> hi_f1 b \<noteq> index_h then
        (let b = b\<lparr>hi_f2 := index_h, ctr := bump 1 (ctr b)\<rparr>
         in Inr (if c_ipg c then b\<lparr>avg := (avg b)[1 := rnd64 fp (real (unat (ipg b ! 1)))]\<rparr> else b))
      else if hi_f1 b = index_h then slot_hit c global 0 b
      else if hi_f2 b = index_h then slot_hit c global 1 b
      else sbind (rtc_hl_chain c ok global index_h (hl_flows b)) (\<lambda>fs. Inr (b\<lparr>hl_flows := fs\<rparr>)))"

definition rtc_hl_upd :: "cfg \<Rightarrow> (nat \<Rightarrow> bool) \<Rightarrow> event \<Rightarrow> u32 hl_count \<Rightarrow> fw_error + u32 hl_count" where
  "rtc_hl_upd c mem e b =
     rtc_hl_packet c (mem (mb_id (snd e))) (fst e) (ucast (rss_index_h (rss (snd e)))) b"

section \<open>Per-packet code: pthread version\<close>

text \<open>
  The pthread version hashes in software. \<open>pkt_data m\<close> is the memory \<^verbatim>\<open>rte_pktmbuf_mtod\<close> points to; the
  addresses are read at their place in an IPv4 header behind a 14-byte Ethernet header. The hash
  function \<^verbatim>\<open>rte_softrss_be\<close> with the converted default key is the parameter \<open>softrss\<close>; it is called
  on the first \<^verbatim>\<open>RTE_THASH_V4_L3_LEN\<close> words of the tuple, the two addresses.
\<close>

definition be32 :: "u8 list \<Rightarrow> nat \<Rightarrow> u32" where
  "be32 d i = push_bit 24 (ucast (d ! i)) OR push_bit 16 (ucast (d ! (i + 1)))
     OR push_bit 8 (ucast (d ! (i + 2))) OR ucast (d ! (i + 3))"

definition ETHER_HDR_LEN :: nat where
  "ETHER_HDR_LEN = 14"

definition pth_soft_hash :: "(u32 list \<Rightarrow> u32) \<Rightarrow> u8 list \<Rightarrow> u32" where
  "pth_soft_hash softrss d = softrss [be32 d (ETHER_HDR_LEN + 12), be32 d (ETHER_HDR_LEN + 16)]"

fun pth_hl_walk :: "cfg \<Rightarrow> u64 \<Rightarrow> u32 \<Rightarrow> u64 flow_entry_sd list \<Rightarrow> u64 flow_entry_sd list option" where
  "pth_hl_walk c global index_h [] = None"
| "pth_hl_walk c global index_h (f # fs) =
     (if ucast (rss_high f) = index_h then
        Some ((let f = f\<lparr>e_ctr := e_ctr f + 1\<rparr>
               in if c_ipg c then
                    (let cur = gap global (e_ipg f);
                         f = f\<lparr>e_stdDev := std_dev (c_fpu c) (e_avg f) cur\<rparr>
                     in f\<lparr>e_avg := mean_float (c_fpu c) (e_avg f) (e_ctr f) cur\<rparr>)
                  else f) # fs)
      else if rss_high f = 0 then
        Some ((let f = f\<lparr>rss_high := ucast index_h, e_ctr := e_ctr f + 1\<rparr>
               in if c_ipg c then
                    f\<lparr>e_avg := rnd64 (c_fpu c) (real (unat (gap global (e_ipg f)))), e_ipg := global\<rparr>
                  else f) # fs)
      else map_option ((#) f) (pth_hl_walk c global index_h fs))"

definition pth_hl_chain ::
  "cfg \<Rightarrow> bool \<Rightarrow> u64 \<Rightarrow> u32 \<Rightarrow> u64 flow_entry_sd list \<Rightarrow> fw_error + u64 flow_entry_sd list"
where
  "pth_hl_chain c ok global index_h fs =
     (case pth_hl_walk c global index_h fs of
        Some fs' \<Rightarrow> Inr fs'
      | None \<Rightarrow> list_add ok (pth_ll_zero\<lparr>rss_high := ucast index_h, e_ctr := e_ctr pth_ll_zero + 1\<rparr>) fs)"

text \<open>A hit of a slot is the code of the other versions without its \<^verbatim>\<open>QUANTILE\<close> part.\<close>

definition pth_hl_packet ::
  "cfg \<Rightarrow> bool \<Rightarrow> u64 \<Rightarrow> u32 \<Rightarrow> u64 hl_count \<Rightarrow> fw_error + u64 hl_count"
where
  "pth_hl_packet c ok global index_h b =
     (let fp = c_fpu c; c = c\<lparr>c_quantile := False\<rparr> in
      if hi_f1 b = 0 then
        (let b = b\<lparr>hi_f1 := ucast index_h, ctr := bump 0 (ctr b)\<rparr>
         in Inr (if c_ipg c then b\<lparr>avg := (avg b)[0 := rnd64 fp (real (unat (ipg b ! 0)))]\<rparr> else b))
      else if hi_f2 b = 0 \<and> ucast (hi_f1 b) \<noteq> index_h then
        (let b = b\<lparr>hi_f2 := ucast index_h, ctr := bump 1 (ctr b)\<rparr>
         in Inr (if c_ipg c then b\<lparr>avg := (avg b)[1 := rnd64 fp (real (unat (ipg b ! 1)))]\<rparr> else b))
      else if ucast (hi_f1 b) = index_h then slot_hit c global 0 b
      else if ucast (hi_f2 b) = index_h then slot_hit c global 1 b
      else sbind (pth_hl_chain c ok global index_h (hl_flows b)) (\<lambda>fs. Inr (b\<lparr>hl_flows := fs\<rparr>)))"

definition pth_hl_upd :: "cfg \<Rightarrow> (nat \<Rightarrow> bool) \<Rightarrow> event \<Rightarrow> u64 hl_count \<Rightarrow> fw_error + u64 hl_count" where
  "pth_hl_upd c mem e b =
     pth_hl_packet c (mem (mb_id (snd e))) (fst e) (rss_index_h (rss (snd e))) b"

section \<open>Both refine the specification\<close>

definition hl_slots :: "('w::len) word hl_count \<Rightarrow> 'w slots_list" where
  "hl_slots b = (slots b, ents (hl_flows b))"

lemma rtc_hl_walk_refines: "list_step k (ents fs) = map_option ents (rtc_hl_walk c g k fs)"
proof (induction fs)
  case Nil
  show ?case by simp
next
  case (Cons f fs)
  then show ?case by (cases "rtc_hl_walk c g k fs") (auto simp: Let_def)
qed

lemma pth_hl_walk_refines:
  assumes "unat h < 65536"
  shows "list_step (ucast h) (ents fs) = map_option ents (pth_hl_walk c g h fs)"
proof (induction fs)
  case Nil
  show ?case by simp
next
  case (Cons f fs)
  then show ?case by (cases "pth_hl_walk c g h fs") (auto simp: Let_def ucast_tag_eq [OF assms])
qed

lemma rtc_hl_chain_refines:
  "list_upd ok k (ents fs) = map_sum (\<lambda>x. x) ents (rtc_hl_chain c ok g k fs)"
  by (cases "rtc_hl_walk c g k fs")
    (auto simp: rtc_hl_chain_def list_upd_def list_add_def rtc_hl_zero_def rtc_hl_walk_refines [of k fs c g])

lemma pth_hl_chain_refines:
  "unat h < 65536 \<Longrightarrow> list_upd ok (ucast h) (ents fs) = map_sum (\<lambda>x. x) ents (pth_hl_chain c ok g h fs)"
  by (cases "pth_hl_walk c g h fs")
    (auto simp: pth_hl_chain_def list_upd_def list_add_def pth_ll_zero_def pth_hl_walk_refines [of h fs c g])

lemma slot_hit_flows:
  fixes b :: "('w::len) word hl_count"
  assumes "slot_hit c g i b = Inr b'"
  shows "hl_slots b' = ((hi_f1 b, hi_f2 b, bump i (ctr b)), ents (hl_flows b))"
proof -
  have "hl_flows b' = hl_flows b"
    using assms by (auto simp: slot_hit_def Let_def sbind_Inr_iff split: if_splits)
  with slot_hit_slots [OF assms] show ?thesis by (simp add: hl_slots_def)
qed

lemma rtc_hl_refines:
  assumes "rtc_hl_packet c ok g k b = Inr b'"
  shows "hl_upd ok k (hl_slots b) = Inr (hl_slots b')"
  using assms
  by (auto simp: rtc_hl_packet_def Let_def sbind_Inr_iff rtc_hl_chain_refines [where c = c and g = g]
      hl_slots_def [of b] slots_def [of b] dest!: slot_hit_flows split: if_splits)
    (auto simp: hl_slots_def slots_def)

lemma pth_hl_refines:
  assumes "pth_hl_packet c ok g h b = Inr b'" and "unat h < 65536"
  shows "hl_upd ok (ucast h) (hl_slots b) = Inr (hl_slots b')"
  using assms
  by (auto simp: pth_hl_packet_def Let_def sbind_Inr_iff 
      pth_hl_chain_refines [OF assms(2), where c = "c\<lparr>c_quantile := False\<rparr>" and g = g]
      ucast_tag_eq hl_slots_def [of b] slots_def [of b] dest!: slot_hit_flows split: if_splits)
    (auto simp: hl_slots_def slots_def)

lemma rtc_hl_upd_refines:
  "rtc_hl_upd c mem e b = Inr b' \<Longrightarrow> hl_upd (mem (mb_id (snd e))) (tag e) (hl_slots b) = Inr (hl_slots b')"
  by (auto simp: rtc_hl_upd_def tag_def h_tag_def dest: rtc_hl_refines)

lemma pth_hl_upd_refines:
  "pth_hl_upd c mem e b = Inr b' \<Longrightarrow> hl_upd (mem (mb_id (snd e))) (tag e) (hl_slots b) = Inr (hl_slots b')"
  by (auto simp: pth_hl_upd_def tag_def h_tag_def dest: pth_hl_refines)

interpretation rtc_hl: hash_bucket "rtc_hl_upd c mem" hl_slots "\<lambda>e. mem (mb_id (snd e))" for c mem
  by unfold_locales (rule rtc_hl_upd_refines)

interpretation pth_hl: hash_bucket "pth_hl_upd c mem" hl_slots "\<lambda>e. mem (mb_id (snd e))" for c mem
  by unfold_locales (rule pth_hl_upd_refines)

section \<open>The burst loops\<close>

definition rtc_hl_one ::
  "cfg \<Rightarrow> (nat \<Rightarrow> bool) \<Rightarrow> mbuf \<Rightarrow> u32 hl_count mon_state \<Rightarrow> fw_error + u32 hl_count mon_state"
where
  "rtc_hl_one c mem m s =
     sbind (table_upd bucket_of (rtc_hl_upd c mem) (glob s, m) (tbl s))
       (\<lambda>t. Inr (s\<lparr>tbl := t, freed := freed s @ [m]\<rparr>))"

definition rtc_hash_list ::
  "cfg \<Rightarrow> (nat \<Rightarrow> bool) \<Rightarrow> nat \<Rightarrow> mbuf list \<Rightarrow> u32 hl_count mon_state \<Rightarrow> fw_error + u32 hl_count mon_state"
where
  "rtc_hash_list c mem q bufs s =
     (if bufs = [] then Inr s
      else
        sbind (if c_ipg c then ring_total RTC_RX_RINGS (rings s) else Inr (glob s)) (\<lambda>g.
        sbind (ring_add q (length bufs) (rings s)) (\<lambda>re.
        run (rtc_hl_one c mem) bufs (s\<lparr>glob := g, rings := re\<rparr>))))"

text \<open>
  The pthread loop works on the software hash of each packet; \<open>pkt_data\<close> and \<open>softrss\<close> as above.
\<close>

definition soft_rss :: "(u32 list \<Rightarrow> u32) \<Rightarrow> (mbuf \<Rightarrow> u8 list) \<Rightarrow> mbuf \<Rightarrow> mbuf" where
  "soft_rss softrss pkt_data m = m\<lparr>rss := pth_soft_hash softrss (pkt_data m)\<rparr>"

definition pth_hl_one ::
  "cfg \<Rightarrow> (nat \<Rightarrow> bool) \<Rightarrow> (u32 list \<Rightarrow> u32) \<Rightarrow> (mbuf \<Rightarrow> u8 list) \<Rightarrow> mbuf \<Rightarrow> u64 hl_count mon_state
     \<Rightarrow> fw_error + u64 hl_count mon_state"
where
  "pth_hl_one c mem softrss pkt_data m s =
     sbind (table_upd bucket_of (pth_hl_upd c mem) (glob s, soft_rss softrss pkt_data m) (tbl s))
       (\<lambda>t. Inr (s\<lparr>tbl := t, freed := freed s @ [m]\<rparr>))"

definition pth_count_hash_list ::
  "cfg \<Rightarrow> (nat \<Rightarrow> bool) \<Rightarrow> (u32 list \<Rightarrow> u32) \<Rightarrow> (mbuf \<Rightarrow> u8 list) \<Rightarrow> nat \<Rightarrow> nat \<Rightarrow> mbuf list
     \<Rightarrow> u64 hl_count mon_state \<Rightarrow> fw_error + u64 hl_count mon_state"
where
  "pth_count_hash_list c mem softrss pkt_data n_rx q bufs s =
     (if bufs = [] then Inr s
      else
        sbind (ring_add q (length bufs) (rings s)) (\<lambda>re.
        sbind (if c_ipg c then ring_total n_rx re else Inr (glob s)) (\<lambda>g.
        run (pth_hl_one c mem softrss pkt_data) bufs (s\<lparr>rings := re, glob := g\<rparr>))))"

lemmas rtc_hl_run_one =
  run_one [of "rtc_hl_one c mem" bucket_of "rtc_hl_upd c mem" "\<lambda>m. [m]" for c mem,
    OF rtc_hl_one_def, simplified]

interpretation rtc_hl_loop: burst_loop "rtc_hash_list c mem" "rtc_hl_upd c mem" for c mem
  by unfold_locales
    (auto simp: rtc_hash_list_def sbind_Inr_iff split: if_splits dest!: rtc_hl_run_one)

lemma run_premap: "run f (map g es) s = run (\<lambda>e. f (g e)) es s"
  by (induction es arbitrary: s) (auto split: sum.split)

lemma pth_hl_run_one:
  assumes "run (pth_hl_one c mem softrss pkt_data) bufs s = Inr s'"
  shows "run (table_upd bucket_of (pth_hl_upd c mem))
      (map (\<lambda>m. (glob s, soft_rss softrss pkt_data m)) bufs) (tbl s) = Inr (tbl s')
    \<and> rings s' = rings s \<and> glob s' = glob s \<and> freed s' = freed s @ bufs"
proof -
  let ?p = "\<lambda>e. (fst e, soft_rss softrss pkt_data (snd e))"
  have t: "table_upd (\<lambda>e. bucket_of (?p e)) (\<lambda>e. pth_hl_upd c mem (?p e)) e =
      table_upd bucket_of (pth_hl_upd c mem) (?p e)" for e
    by (simp add: table_upd_def fun_eq_iff)
  have "run (table_upd (\<lambda>e. bucket_of (?p e)) (\<lambda>e. pth_hl_upd c mem (?p e)))
      (map (Pair (glob s)) bufs) (tbl s) = Inr (tbl s')
    \<and> rings s' = rings s \<and> glob s' = glob s \<and> freed s' = freed s @ concat (map (\<lambda>m. [m]) bufs)"
    by (rule run_one [OF _ assms]) (simp add: t pth_hl_one_def)
  then show ?thesis by (simp add: run_premap t)
qed

interpretation pth_hl_loop:
  hashed_loop "pth_count_hash_list c mem softrss pkt_data n_rx" "pth_hl_upd c mem" "soft_rss softrss pkt_data"
  for c mem softrss pkt_data n_rx
  by unfold_locales
    (auto simp: pth_count_hash_list_def sbind_Inr_iff split: if_splits dest!: pth_hl_run_one)

section \<open>Initialisation\<close>

text \<open>
  The list of a bucket: the first entry is allocated without a check, every further one is linked
  to the last and then dereferenced. \<open>fs\<close> is the list built so far, empty when the first
  allocation returned NULL; \<open>k\<close> numbers the allocations.
\<close>

fun hl_chain_loop :: "(nat \<Rightarrow> bool) \<Rightarrow> 'n \<Rightarrow> nat \<Rightarrow> nat \<Rightarrow> 'n list \<Rightarrow> fw_error + 'n list" where
  "hl_chain_loop mem z 0 k fs = Inr fs"
| "hl_chain_loop mem z (Suc j) k fs =
     (if fs \<noteq> [] \<and> mem k then hl_chain_loop mem z j (k + 1) (fs @ [z])
      else Inl (Undefined ''null pointer dereference''))"

definition HL_ENTRY_PER_FLOW :: nat where
  "HL_ENTRY_PER_FLOW = 1"

definition hl_init_bucket ::
  "cfg \<Rightarrow> (nat \<Rightarrow> bool) \<Rightarrow> ('w::len) word flow_entry_sd \<Rightarrow> 'w word hl_count \<Rightarrow> fw_error + 'w word hl_count"
where
  "hl_init_bucket c mem z b =
     (let b = b\<lparr>hi_f1 := 0, hi_f2 := 0, ctr := (ctr b)[0 := 0, 1 := 0]\<rparr>;
          b = (if c_ipg c then
                 (let b = b\<lparr>avg := (avg b)[0 := 0, 1 := 0], ipg := (ipg b)[0 := 0, 1 := 0]\<rparr>; fp = c_fpu c
                  in if c_quantile c then
                       b\<lparr>qt := (qt b)[0 := qt_init fp (c_p c) (qt b ! 0), 1 := qt_init fp (c_p c) (qt b ! 1)]\<rparr>
                     else b)
               else b)
      in sbind (hl_chain_loop mem z (HL_ENTRY_PER_FLOW - 1) 1 (if mem 0 then [z] else []))
           (\<lambda>fs. Inr (b\<lparr>hl_flows := fs\<rparr>)))"

definition hl_init_table ::
  "cfg \<Rightarrow> (nat \<Rightarrow> nat \<Rightarrow> bool) \<Rightarrow> ('w::len) word flow_entry_sd \<Rightarrow> (nat \<Rightarrow> 'w word hl_count)
     \<Rightarrow> fw_error + (nat \<Rightarrow> 'w word hl_count)"
where
  "hl_init_table c mem z t =
     run (\<lambda>i t. sbind (hl_init_bucket c (mem i) z (t i)) (\<lambda>b. Inr (t(i := b)))) [0..<FLOW_NUM] t"

section \<open>Reports at exit\<close>

text \<open>Run-to-completion: flows with a non-zero counter and the sum of all counters.\<close>

definition rtc_hl_report :: "(nat \<Rightarrow> u32 hl_count) \<Rightarrow> u64 \<times> u64" where
  "rtc_hl_report t =
     fold (\<lambda>i (flows, sum).
       let (flows, sum) = (if ctr (t i) ! 0 > 0 then (flows + 1, sum + ucast (ctr (t i) ! 0)) else (flows, sum));
           (flows, sum) = (if ctr (t i) ! 1 > 0 then (flows + 1, sum + ucast (ctr (t i) ! 1)) else (flows, sum))
       in fold (\<lambda>f (flows, sum). (if e_ctr f > 0 then flows + 1 else flows, sum + ucast (e_ctr f)))
            (hl_flows (t i)) (flows, sum))
       [0..<FLOW_NUM] (0, 0)"

text \<open>pthread: one number, to which an entry of a list adds one and its counter.\<close>

definition pth_hl_report :: "(nat \<Rightarrow> u64 hl_count) \<Rightarrow> u64" where
  "pth_hl_report t =
     fold (\<lambda>i sum.
       let sum = (if ctr (t i) ! 0 > 0 then sum + 1 else sum);
           sum = (if ctr (t i) ! 1 > 0 then sum + 1 else sum)
       in fold (\<lambda>f sum. (if e_ctr f > 0 then sum + 1 else sum) + e_ctr f) (hl_flows (t i)) sum)
       [0..<FLOW_NUM] 0"

end
