(* ===== verification/Hash_List_Correct.thy ===== *)
theory Hash_List_Correct
  imports Hash_List Linked_List_Correct
begin

text \<open>
  What the \<^verbatim>\<open>HASH_LIST\<close> loops compute: exact counts for every flow, safety when memory runs out
  and with quantiles, start-up, and the two reports at exit.
\<close>

section \<open>Start-up\<close>

text \<open>A table ready for packets: empty slots, free list entries, fresh estimators.\<close>

definition hl_ready :: "cfg \<Rightarrow> (nat \<Rightarrow> ('w::len) word hl_count) \<Rightarrow> bool" where
  "hl_ready c t \<longleftrightarrow> (\<forall>i < FLOW_NUM. slot_empty 2 (slots (t i)) \<and> list_empty (ents (hl_flows (t i))) \<and>
     slot_qt_ok c (t i))"

definition hl_zeroed :: "('w::len) word hl_count \<Rightarrow> bool" where
  "hl_zeroed b \<longleftrightarrow> length (ctr b) = 2 \<and> ipg b = [0, 0] \<and> length (avg b) = 2 \<and> length (stdDev b) = 2 \<and>
     length (qt b) = 2 \<and> (\<forall>i < 2. length (qt_q (qt b ! i)) = 5 \<and> qt_l (qt b ! i) = 0)"

lemma hl_init_bucket_qt:
  assumes "hl_zeroed b" and "hl_init_bucket c mem z b = Inr b'"
  shows "slot_qt_ok c b'"
proof (cases "c_ipg c \<and> c_quantile c")
  case False
  then show ?thesis by (auto simp: slot_qt_ok_def)
next
  case True
  from assms(1) obtain t0 t1 where q: "qt b = [t0, t1]"
    by (auto simp: hl_zeroed_def eval_nat_numeral length_Suc_conv)
  have "length (qt_q t0) = 5 \<and> qt_l t0 = 0" "length (qt_q t1) = 5 \<and> qt_l t1 = 0"
    using assms(1) by (auto simp: hl_zeroed_def q dest: spec [of _ 0] spec [of _ 1])
  then have i: "qt_wf (c_fpu c) (qt_init (c_fpu c) (c_p c) t) \<and> (\<exists>vs. qt_seen (qt_init (c_fpu c) (c_p c) t) vs)"
    if "t = t0 \<or> t = t1" for t using qt_init_start that by blast
  have "ipg b' = [0, 0]" "qt b' = [qt_init (c_fpu c) (c_p c) t0, qt_init (c_fpu c) (c_p c) t1]"
    using assms True by (auto simp: hl_init_bucket_def Let_def sbind_Inr_iff hl_zeroed_def q)
  with i show ?thesis by (simp add: slot_qt_ok_def less_2_cases_iff)
qed

lemma hl_init_bucket_ok:
  assumes "hl_zeroed b" and "mem 0" and "rss_high z = 0" and "e_ctr z = 0"
  shows "\<exists>b'. hl_init_bucket c mem z b = Inr b' \<and> slot_empty 2 (slots b') \<and>
    list_empty (ents (hl_flows b')) \<and> slot_qt_ok c b'"
proof -
  from assms(1) obtain x y where c: "ctr b = [x, y]"
    by (auto simp: hl_zeroed_def eval_nat_numeral length_Suc_conv)
  obtain b' where b': "hl_init_bucket c mem z b = Inr b'"
    by (simp add: hl_init_bucket_def HL_ENTRY_PER_FLOW_def Let_def)
  then have "slots b' = (0, 0, [0, 0])" "hl_flows b' = [z]"
    using assms(2) by (auto simp: hl_init_bucket_def HL_ENTRY_PER_FLOW_def Let_def slots_def c sbind_Inr_iff)
  with b' hl_init_bucket_qt [OF assms(1) b'] assms(3,4) show ?thesis
    by (auto simp: list_empty_def eval_nat_numeral)
qed

lemma hl_init_table_ok:
  assumes "\<forall>i. hl_zeroed (t i)" and "\<forall>i. mem i 0" and "rss_high z = 0" and "e_ctr z = 0"
  shows "\<exists>t'. hl_init_table c mem z t = Inr t' \<and> hl_ready c t'"
proof -
  let ?f = "\<lambda>i t. sbind (hl_init_bucket c (mem i) z (t i)) (\<lambda>b. Inr (t(i := b)))"
  let ?ok = "\<lambda>b. slot_empty 2 (slots b) \<and> list_empty (ents (hl_flows b)) \<and> slot_qt_ok c b"
  have "\<exists>t'. run ?f [0..<n] t = Inr t' \<and> (\<forall>i < n. ?ok (t' i)) \<and> (\<forall>i \<ge> n. t' i = t i)" for n
  proof (induction n)
    case 0
    show ?case by simp
  next
    case (Suc n)
    then obtain u where u: "run ?f [0..<n] t = Inr u" "\<forall>i < n. ?ok (u i)" "\<forall>i \<ge> n. u i = t i" by blast
    obtain b where b: "hl_init_bucket c (mem n) z (u n) = Inr b" "?ok b"
      using hl_init_bucket_ok [of "u n" "mem n" z c] assms u(3) by auto
    have "run ?f [0..<Suc n] t = Inr (u(n := b))" using u(1) b(1) by (simp add: run_append)
    moreover have "\<forall>i < Suc n. ?ok ((u(n := b)) i)" using u(2) b(2) by (simp add: less_Suc_eq)
    moreover have "\<forall>i \<ge> Suc n. (u(n := b)) i = t i" using u(3) by simp
    ultimately show ?case by blast
  qed
  from this [of FLOW_NUM] show ?thesis by (auto simp: hl_init_table_def hl_ready_def)
qed

lemma hl_ready_facts:
  assumes "hl_ready c t"
  shows "\<forall>i < FLOW_NUM. slot_qt_ok c (t i) \<and> hl_flows (t i) \<noteq> []"
    and "\<forall>i < FLOW_NUM. hl_wf (hl_slots (t i))"
    and "\<forall>i < FLOW_NUM. hl_wf (hl_slots (t i)) \<and> hl_tracked (hl_slots (t i)) = {} \<and>
      (\<forall>k. hl_cnt (hl_slots (t i)) k = 0)"
proof -
  have e: "slot_empty 2 (slots (t i))" "list_empty (ents (hl_flows (t i)))" "slot_qt_ok c (t i)"
    if "i < FLOW_NUM" for i using assms that by (auto simp: hl_ready_def)
  then show "\<forall>i < FLOW_NUM. slot_qt_ok c (t i) \<and> hl_flows (t i) \<noteq> []" by (auto simp: list_empty_def)
  have w: "slot_wf 2 (slots (t i)) \<and> slot_tracked (slots (t i)) = {}" if "i < FLOW_NUM" for i
    using slot_empty_facts(1,2) [OF e(1) [OF that]] by simp
  show "\<forall>i < FLOW_NUM. hl_wf (hl_slots (t i))"
    using w list_empty_facts(1,2) [OF e(2)] by (simp add: hl_slots_def)
  show "\<forall>i < FLOW_NUM. hl_wf (hl_slots (t i)) \<and> hl_tracked (hl_slots (t i)) = {} \<and>
      (\<forall>k. hl_cnt (hl_slots (t i)) k = 0)"
    using w list_empty_facts(1-3) [OF e(2)] by (simp add: hl_slots_def)
qed

section \<open>Safety of the packet code\<close>

lemma list_add_error: "list_add ok x xs = Inl e \<Longrightarrow> xs \<noteq> [] \<Longrightarrow> \<not> ok \<and> e = no_memory"
  by (auto simp: list_add_def split: if_splits)

lemma list_add_not_Nil: "list_add ok x xs = Inr ys \<Longrightarrow> ys \<noteq> []"
  by (auto simp: list_add_def split: if_splits)

lemma rtc_hl_walk_not_Nil: "rtc_hl_walk c g k fs = Some fs' \<Longrightarrow> fs' \<noteq> []"
  by (cases fs) (auto split: if_splits)

lemma pth_hl_walk_not_Nil: "pth_hl_walk c g k fs = Some fs' \<Longrightarrow> fs' \<noteq> []"
  by (cases fs) (auto split: if_splits)

lemma rtc_hl_chain_safe:
  assumes "fs \<noteq> []"
  shows "(\<exists>fs'. rtc_hl_chain c ok g k fs = Inr fs' \<and> fs' \<noteq> []) \<or>
    (\<exists>x. rtc_hl_chain c ok g k fs = Inl x \<and> \<not> ok \<and> x = no_memory)"
proof (cases "rtc_hl_chain c ok g k fs")
  case (Inl x)
  with assms show ?thesis by (auto simp: rtc_hl_chain_def dest: list_add_error split: option.splits)
next
  case (Inr fs')
  then show ?thesis
    by (auto simp: rtc_hl_chain_def dest: list_add_not_Nil rtc_hl_walk_not_Nil split: option.splits)
qed

lemma pth_hl_chain_safe:
  assumes "fs \<noteq> []"
  shows "(\<exists>fs'. pth_hl_chain c ok g k fs = Inr fs' \<and> fs' \<noteq> []) \<or>
    (\<exists>x. pth_hl_chain c ok g k fs = Inl x \<and> \<not> ok \<and> x = no_memory)"
proof (cases "pth_hl_chain c ok g k fs")
  case (Inl x)
  with assms show ?thesis by (auto simp: pth_hl_chain_def dest: list_add_error split: option.splits)
next
  case (Inr fs')
  then show ?thesis
    by (auto simp: pth_hl_chain_def dest: list_add_not_Nil pth_hl_walk_not_Nil split: option.splits)
qed

abbreviation hl_inv :: "cfg \<Rightarrow> ('w::len) word hl_count \<Rightarrow> bool" where
  "hl_inv c b \<equiv> slot_qt_ok c b \<and> hl_flows b \<noteq> []"

lemma slot_hit_inv:
  fixes b :: "('w::len) word hl_count"
  assumes "ieee_double (c_fpu c)" and "hl_inv c b" and "unat g < 2 ^ 31" and "i < 2"
  shows "\<exists>b'. slot_hit c g i b = Inr b' \<and> hl_inv c b'"
proof -
  from assms(2) have "slot_qt_ok c b" by simp
  from slot_hit_ok [OF assms(1) this assms(3,4)] obtain b' where
    b': "slot_hit c g i b = Inr b'" "slot_qt_ok c b'" by blast
  have "hl_flows b' = hl_flows b"
    using b'(1) by (auto simp: slot_hit_def Let_def sbind_Inr_iff split: if_splits)
  with b' assms(2) show ?thesis by simp
qed

lemma rtc_hl_packet_safe:
  assumes "ieee_double (c_fpu c)" and "hl_inv c b" and "unat g < 2 ^ 31"
  shows "(\<exists>b'. rtc_hl_packet c ok g k b = Inr b' \<and> hl_inv c b') \<or>
    (\<exists>x. rtc_hl_packet c ok g k b = Inl x \<and> \<not> ok \<and> x = no_memory)"
proof -
  note h = slot_hit_inv [OF assms, of 0] slot_hit_inv [OF assms, of 1]
  have q: "slot_qt_ok c b" and f: "hl_flows b \<noteq> []" using assms(2) by auto
  have inv: "hl_inv c b'" if "ipg b' = ipg b" "qt b' = qt b" "hl_flows b' \<noteq> []" for b' :: "u32 hl_count"
    using slot_qt_ok_frame [OF q, of b'] that by simp
  consider "hi_f1 b = 0" | "hi_f1 b \<noteq> 0" "hi_f2 b = 0" "hi_f1 b \<noteq> k"
    | "hi_f1 b \<noteq> 0" "hi_f1 b = k" | "hi_f1 b \<noteq> 0" "hi_f2 b \<noteq> 0" "hi_f1 b \<noteq> k" "hi_f2 b = k"
    | "hi_f1 b \<noteq> 0" "hi_f2 b \<noteq> 0" "hi_f1 b \<noteq> k" "hi_f2 b \<noteq> k" by blast
  then show ?thesis
  proof cases
    case 1
    with f show ?thesis by (simp add: rtc_hl_packet_def Let_def inv)
  next
    case 2
    with f show ?thesis by (simp add: rtc_hl_packet_def Let_def inv)
  next
    case 3
    with h(1) show ?thesis by (simp add: rtc_hl_packet_def)
  next
    case 4
    with h(2) show ?thesis by (simp add: rtc_hl_packet_def)
  next
    case 5
    then have "rtc_hl_packet c ok g k b =
        sbind (rtc_hl_chain c ok g k (hl_flows b)) (\<lambda>fs. Inr (b\<lparr>hl_flows := fs\<rparr>))"
      by (simp add: rtc_hl_packet_def)
    with rtc_hl_chain_safe [OF f, of c ok g k] show ?thesis by (auto simp: inv)
  qed
qed

lemma slot_qt_ok_off [simp]: "slot_qt_ok (c\<lparr>c_quantile := False\<rparr>) b"
  by (simp add: slot_qt_ok_def)

lemma slot_hit_off: "\<exists>b'. slot_hit (c\<lparr>c_quantile := False\<rparr>) g i b = Inr b'"
  by (simp add: slot_hit_def Let_def)

lemma pth_hl_packet_safe:
  assumes "hl_flows b \<noteq> []"
  shows "(\<exists>b'. pth_hl_packet c ok g k b = Inr b' \<and> hl_flows b' \<noteq> []) \<or>
    (\<exists>x. pth_hl_packet c ok g k b = Inl x \<and> \<not> ok \<and> x = no_memory)"
proof -
  have h: "\<exists>b'. slot_hit (c\<lparr>c_quantile := False\<rparr>) g i b = Inr b' \<and> hl_flows b' \<noteq> []" for i
  proof -
    obtain b' where b': "slot_hit (c\<lparr>c_quantile := False\<rparr>) g i b = Inr b'" using slot_hit_off by blast
    then have "hl_flows b' = hl_flows b" by (auto simp: slot_hit_def Let_def split: if_splits)
    with b' assms show ?thesis by simp
  qed
  from pth_hl_chain_safe [OF assms, of "c\<lparr>c_quantile := False\<rparr>" ok g k] h [of 0] h [of 1] show ?thesis
    using assms by (elim disjE exE conjE) (auto simp: pth_hl_packet_def Let_def)
qed

section \<open>The loops return, or memory has run out\<close>

lemma table_upd_premap: "table_upd (\<lambda>e. slot (f e)) (\<lambda>e. upd (f e)) e t = table_upd slot upd (f e) t"
  by (simp add: table_upd_def)

lemma hl_table_safe:
  assumes "\<forall>i < FLOW_NUM. P (t i)"
    and "\<And>b. P b \<Longrightarrow> (\<exists>b'. upd e b = Inr b' \<and> P b') \<or> (\<exists>x. upd e b = Inl x \<and> Q x)"
  shows "(\<exists>u. table_upd bucket_of upd e t = Inr u \<and> (\<forall>i < FLOW_NUM. P (u i))) \<or>
    (\<exists>x. table_upd bucket_of upd e t = Inl x \<and> Q x)"
proof -
  have "P (t (bucket_of e))" using assms(1) by simp
  from assms(2) [OF this] assms(1) show ?thesis by (auto simp: table_upd_def)
qed

lemma rtc_hl_burst_safe:
  assumes fp: "ieee_double (c_fpu c)" and re: "rings s = [of_nat k]" and g: "unat (glob s) < 2 ^ 31"
    and k: "k + length bufs < 2 ^ 31" and inv: "\<forall>i < FLOW_NUM. hl_inv c (tbl s i)"
  shows "(\<exists>s'. rtc_hash_list c mem 0 bufs s = Inr s' \<and> rings s' = [of_nat (k + length bufs)] \<and>
      unat (glob s') < 2 ^ 31 \<and> (\<forall>i < FLOW_NUM. hl_inv c (tbl s' i))) \<or>
    (\<exists>x. rtc_hash_list c mem 0 bufs s = Inl x \<and> (\<exists>m \<in> set bufs. \<not> mem (mb_id m)) \<and> x = no_memory)"
proof (cases "bufs = []")
  case True
  with assms show ?thesis by (simp add: rtc_hash_list_def)
next
  case False
  define g' where "g' = (if c_ipg c then of_nat k else glob s)"
  have t: "(if c_ipg c then ring_total RTC_RX_RINGS (rings s) else Inr (glob s)) = Inr g'"
    by (simp add: ring_total_def RTC_RX_RINGS_def re g'_def)
  have r: "ring_add 0 (length bufs) (rings s) = Inr [of_nat (k + length bufs)]"
    by (simp add: ring_add_def re)
  have "unat (of_nat k :: u64) = k" using k by (intro unat_of_nat_small) simp
  then have small: "unat g' < 2 ^ 31" using g k by (simp add: g'_def)
  let ?s = "s\<lparr>glob := g', rings := [of_nat (k + length bufs)]\<rparr>" and ?I = "\<lambda>t. \<forall>i < FLOW_NUM. hl_inv c (t i)"
  have "(\<exists>s'. run (rtc_hl_one c mem) bufs ?s = Inr s' \<and> ?I (tbl s') \<and> rings s' = rings ?s \<and> glob s' = g') \<or>
    (\<exists>m \<in> set bufs. \<exists>x. run (rtc_hl_one c mem) bufs ?s = Inl x \<and> \<not> mem (mb_id m) \<and> x = no_memory)"
  proof (rule run_one_safe [where d = "\<lambda>m. [m]"])
    fix m :: mbuf and t :: "nat \<Rightarrow> u32 hl_count"
    assume I: "?I t"
    show "(\<exists>u. table_upd bucket_of (rtc_hl_upd c mem) (g', m) t = Inr u \<and> ?I u) \<or>
      (\<exists>x. table_upd bucket_of (rtc_hl_upd c mem) (g', m) t = Inl x \<and> \<not> mem (mb_id m) \<and> x = no_memory)"
      using rtc_hl_packet_safe [OF fp _ small, where ok = "mem (mb_id m)"]
      by (intro hl_table_safe [where P = "\<lambda>b. hl_inv c b", OF I]) (simp add: rtc_hl_upd_def)
  qed (use inv in \<open>simp_all add: rtc_hl_one_def\<close>)
  with False t r small show ?thesis by (auto simp: rtc_hash_list_def)
qed

lemma rtc_hl_run_safe:
  assumes fp: "ieee_double (c_fpu c)"
  shows "rings s = [of_nat k] \<Longrightarrow> unat (glob s) < 2 ^ 31 \<Longrightarrow> k + length (packets bs) < 2 ^ 31 \<Longrightarrow>
    \<forall>i < FLOW_NUM. hl_inv c (tbl s i) \<Longrightarrow> \<forall>b \<in> set bs. fst b = 0 \<Longrightarrow>
    (\<exists>s'. run (\<lambda>(q, bufs). rtc_hash_list c mem q bufs) bs s = Inr s') \<or>
    run (\<lambda>(q, bufs). rtc_hash_list c mem q bufs) bs s = Inl no_memory \<and>
      (\<exists>m \<in> set (packets bs). \<not> mem (mb_id m))"
proof (induction bs arbitrary: s k)
  case Nil
  then show ?case by simp
next
  case (Cons b bs)
  obtain bufs where b: "b = (0, bufs)" using Cons.prems(5) by (cases b) auto
  have "k + length bufs < 2 ^ 31" using Cons.prems(3) by (simp add: b)
  from rtc_hl_burst_safe [OF fp Cons.prems(1,2) this Cons.prems(4), of mem] show ?case
  proof (elim disjE exE conjE)
    fix u
    assume u: "rtc_hash_list c mem 0 bufs s = Inr u" "rings u = [of_nat (k + length bufs)]"
      "unat (glob u) < 2 ^ 31" "\<forall>i < FLOW_NUM. hl_inv c (tbl u i)"
    have "k + length bufs + length (packets bs) < 2 ^ 31" using Cons.prems(3) by (simp add: b)
    from Cons.IH [OF u(2,3) this u(4)] Cons.prems(5) u(1) show ?thesis by (auto simp: b)
  qed (auto simp: b)
qed

lemma pth_hl_burst_safe:
  assumes "length (rings s) = n \<and> (\<forall>i < FLOW_NUM. hl_flows (tbl s i) \<noteq> [])" and "n_rx \<le> n" and "q < n"
  shows "(\<exists>s'. pth_count_hash_list c mem softrss pkt_data n_rx q bufs s = Inr s' \<and>
      length (rings s') = n \<and> (\<forall>i < FLOW_NUM. hl_flows (tbl s' i) \<noteq> [])) \<or>
    (\<exists>x. pth_count_hash_list c mem softrss pkt_data n_rx q bufs s = Inl x \<and>
       (\<exists>m \<in> set bufs. \<not> mem (mb_id m)) \<and> x = no_memory)"
proof -
  let ?re = "(rings s)[q := rings s ! q + of_nat (length bufs)]"
  have r: "ring_add q (length bufs) (rings s) = Inr ?re" using assms by (simp add: ring_add_def)
  obtain g where g: "(if c_ipg c then ring_total n_rx ?re else Inr (glob s)) = Inr g"
    using glob_returns [of n_rx ?re "c_ipg c" "glob s"] assms by auto
  let ?s = "s\<lparr>rings := ?re, glob := g\<rparr>" and ?I = "\<lambda>t. \<forall>i < FLOW_NUM. hl_flows (t i) \<noteq> []"
  let ?pk = "soft_rss softrss pkt_data"
  let ?upd = "\<lambda>e. pth_hl_upd c mem (fst e, ?pk (snd e))"
  have one: "pth_hl_one c mem softrss pkt_data m s =
      sbind (table_upd (\<lambda>e. bucket_of (fst e, ?pk (snd e))) ?upd (glob s, m) (tbl s))
       (\<lambda>t. Inr (s\<lparr>tbl := t, freed := freed s @ [m]\<rparr>))" for m s
    by (simp add: pth_hl_one_def table_upd_def split: sum.split)
  have "(\<exists>s'. run (pth_hl_one c mem softrss pkt_data) bufs ?s = Inr s' \<and> ?I (tbl s') \<and>
      rings s' = rings ?s \<and> glob s' = g) \<or>
    (\<exists>m \<in> set bufs. \<exists>x. run (pth_hl_one c mem softrss pkt_data) bufs ?s = Inl x \<and>
       \<not> mem (mb_id m) \<and> x = no_memory)"
  proof (rule run_one_safe [OF one])
    fix m :: mbuf and t :: "nat \<Rightarrow> u64 hl_count"
    assume I: "?I t"
    have "(\<exists>u. table_upd bucket_of (pth_hl_upd c mem) (g, ?pk m) t = Inr u \<and> ?I u) \<or>
      (\<exists>x. table_upd bucket_of (pth_hl_upd c mem) (g, ?pk m) t = Inl x \<and> \<not> mem (mb_id m) \<and> x = no_memory)"
      using pth_hl_packet_safe [where ok = "mem (mb_id m)"]
      by (intro hl_table_safe [where P = "\<lambda>b. hl_flows b \<noteq> []", OF I]) (simp add: pth_hl_upd_def soft_rss_def)
    then show "(\<exists>u. table_upd (\<lambda>e. bucket_of (fst e, ?pk (snd e))) ?upd (g, m) t = Inr u \<and> ?I u) \<or>
      (\<exists>x. table_upd (\<lambda>e. bucket_of (fst e, ?pk (snd e))) ?upd (g, m) t = Inl x \<and>
        \<not> mem (mb_id m) \<and> x = no_memory)"
      unfolding table_upd_premap [of bucket_of "\<lambda>e. (fst e, ?pk (snd e))" "pth_hl_upd c mem"] by simp
  qed (use assms(1) in simp_all)
  with r g assms show ?thesis by (auto simp: pth_count_hash_list_def)
qed

lemma pth_hl_run_safe:
  assumes "n_rx \<le> length (rings s)" and "\<forall>b \<in> set bs. fst b < length (rings s)"
    and "\<forall>i < FLOW_NUM. hl_flows (tbl s i) \<noteq> []"
  shows "(\<exists>s'. run (\<lambda>(q, bufs). pth_count_hash_list c mem softrss pkt_data n_rx q bufs) bs s = Inr s') \<or>
    run (\<lambda>(q, bufs). pth_count_hash_list c mem softrss pkt_data n_rx q bufs) bs s = Inl no_memory \<and>
      (\<exists>m \<in> set (packets bs). \<not> mem (mb_id m))"
proof -
  let ?I = "\<lambda>u :: u64 hl_count mon_state.
    length (rings u) = length (rings s) \<and> (\<forall>i < FLOW_NUM. hl_flows (tbl u i) \<noteq> [])"
  have "(\<exists>s'. run (\<lambda>(q, bufs). pth_count_hash_list c mem softrss pkt_data n_rx q bufs) bs s = Inr s' \<and> ?I s') \<or>
    run (\<lambda>(q, bufs). pth_count_hash_list c mem softrss pkt_data n_rx q bufs) bs s = Inl no_memory \<and>
      (\<exists>m \<in> set (packets bs). \<not> mem (mb_id m))"
  proof (rule run_bursts_safe)
    fix q bufs u
    assume e: "(q, bufs) \<in> set bs" and u: "?I u"
    have "q < length (rings s)" using bspec [OF assms(2) e] by simp
    then show "(\<exists>s'. pth_count_hash_list c mem softrss pkt_data n_rx q bufs u = Inr s' \<and> ?I s') \<or>
      (\<exists>x. pth_count_hash_list c mem softrss pkt_data n_rx q bufs u = Inl x \<and>
         (\<exists>m \<in> set bufs. \<not> mem (mb_id m)) \<and> x = no_memory)"
      by (rule pth_hl_burst_safe [OF u assms(1)])
  qed (use assms(3) in simp)
  then show ?thesis by blast
qed

lemma rtc_hash_list_frees:
  "rtc_hash_list c mem q bufs s = Inr s' \<Longrightarrow> freed s' = freed s @ bufs"
  by (auto simp: rtc_hash_list_def sbind_Inr_iff split: if_splits dest!: rtc_hl_run_one)

lemma pth_hash_list_frees:
  "pth_count_hash_list c mem softrss pkt_data n_rx q bufs s = Inr s' \<Longrightarrow> freed s' = freed s @ bufs"
  by (auto simp: pth_count_hash_list_def sbind_Inr_iff split: if_splits dest!: pth_hl_run_one)

lemma rtc_hl_run_frees:
  "run (\<lambda>(q, bufs). rtc_hash_list c mem q bufs) bs s = Inr s' \<Longrightarrow> freed s' = freed s @ packets bs"
  by (erule run_frees [where f = "\<lambda>b. b"]) (rule rtc_hash_list_frees)

lemma pth_hl_run_frees:
  "run (\<lambda>(q, bufs). pth_count_hash_list c mem softrss pkt_data n_rx q bufs) bs s = Inr s' \<Longrightarrow>
     freed s' = freed s @ packets bs"
  by (erule run_frees [where f = "\<lambda>b. b"]) (rule pth_hash_list_frees)

section \<open>What a bucket adds up to\<close>

lemma slot_counters:
  assumes "slot_wf 2 (f1, f2, c)"
  shows "(\<Sum>k \<in> slot_tracked (f1, f2, c). unat (slot_cnt (f1, f2, c) k)) = unat (c ! 0) + unat (c ! 1)"
  using assms by (auto simp: insert_Diff_if)

lemma slot_nonzero:
  assumes "slot_wf 2 (f1, f2, c)" and "\<forall>k \<in> slot_tracked (f1, f2, c). slot_cnt (f1, f2, c) k \<noteq> 0"
  shows "of_bool (c ! 0 \<noteq> 0) + of_bool (c ! 1 \<noteq> 0) = card (slot_tracked (f1, f2, c))"
  using assms by (auto simp: insert_Diff_if split: if_splits)

lemma hl_bucket_report:
  fixes c :: "'w::len word list"
  assumes f: "flow_counts cnt trk ms" and i: "i < FLOW_NUM"
    and wf: "hl_wf ((f1, f2, c), xs)" and cn: "cnt i = hl_cnt ((f1, f2, c), xs)"
    and t: "trk i = hl_tracked ((f1, f2, c), xs)"
    and v: "\<forall>m \<in> set ms. h_tag (rss m) \<noteq> 0" and n: "length ms < 2 ^ LENGTH('w)"
  shows "of_bool (c ! 0 \<noteq> 0) + of_bool (c ! 1 \<noteq> 0) + length (filter (\<lambda>x. snd x \<noteq> 0) xs) =
      card (seen_tags ms i)"
    and "sum_list (map (\<lambda>x. unat (snd x)) xs) =
      length (filter (\<lambda>m. h_slot (rss m) = i \<and> h_tag (rss m) \<in> list_tracked xs) ms)"
    and "unat (c ! 0) + unat (c ! 1) + sum_list (map (\<lambda>x. unat (snd x)) xs) =
      length (filter (\<lambda>m. h_slot (rss m) = i) ms)"
proof -
  let ?S = "slot_tracked (f1, f2, c)" and ?L = "list_tracked xs"
  have sw: "slot_wf 2 (f1, f2, c)" and lw: "list_wf_aux xs" and dis: "?S \<inter> ?L = {}"
    using wf by (simp_all add: list_wf_def)
  have fin: "finite ?S" "finite ?L" by simp_all
  have seen: "seen_tags ms i = ?S \<union> ?L" using f i t by (simp add: flow_counts_def)
  note u = flow_counts_unat [OF f i _ v n]
  have s: "unat (slot_cnt (f1, f2, c) k) = tag_packets ms i k \<and> slot_cnt (f1, f2, c) k \<noteq> 0" if "k \<in> ?S" for k
    using u [of k] that unfolding seen cn by (simp del: slot_cnt.simps slot_tracked.simps)
  have l: "unat (list_cnt xs k) = tag_packets ms i k \<and> list_cnt xs k \<noteq> 0" if "k \<in> ?L" for k
  proof -
    have "k \<notin> ?S" using that dis by blast
    with u [of k] that show ?thesis unfolding seen cn by (simp del: slot_cnt.simps slot_tracked.simps)
  qed
  have "of_bool (c ! 0 \<noteq> 0) + of_bool (c ! 1 \<noteq> 0) = card ?S"
    by (rule slot_nonzero [OF sw]) (use s in blast)
  moreover have "length (filter (\<lambda>x. snd x \<noteq> 0) xs) = card ?L"
    by (rule list_wf_nonzero [OF lw]) (use l in blast)
  ultimately show "of_bool (c ! 0 \<noteq> 0) + of_bool (c ! 1 \<noteq> 0) + length (filter (\<lambda>x. snd x \<noteq> 0) xs) =
      card (seen_tags ms i)"
    unfolding seen by (simp only: card_Un_disjoint [OF fin dis])
  have ls: "sum_list (map (\<lambda>x. unat (snd x)) xs) = (\<Sum>k \<in> ?L. tag_packets ms i k)"
    unfolding list_wf_sum [OF lw] by (rule sum.cong) (use l in auto)
  have "(\<Sum>k \<in> ?L. tag_packets ms i k) =
      (\<Sum>k \<in> ?L. length (filter (\<lambda>m. (h_slot (rss m) = i \<and> h_tag (rss m) \<in> ?L) \<and> h_tag (rss m) = k) ms))"
    by (rule sum.cong) (auto intro!: arg_cong [of _ _ length] filter_cong)
  also have "\<dots> = length (filter (\<lambda>m. h_slot (rss m) = i \<and> h_tag (rss m) \<in> ?L) ms)"
    by (rule sum_filter_by_key) auto
  finally show "sum_list (map (\<lambda>x. unat (snd x)) xs) =
      length (filter (\<lambda>m. h_slot (rss m) = i \<and> h_tag (rss m) \<in> ?L) ms)" using ls by simp
  have "unat (c ! 0) + unat (c ! 1) = (\<Sum>k \<in> ?S. tag_packets ms i k)"
    unfolding slot_counters [OF sw, symmetric] by (rule sum.cong) (use s in auto)
  with ls have "unat (c ! 0) + unat (c ! 1) + sum_list (map (\<lambda>x. unat (snd x)) xs) =
      (\<Sum>k \<in> seen_tags ms i. tag_packets ms i k)"
    unfolding seen by (simp only: sum.union_disjoint [OF fin dis])
  then show "unat (c ! 0) + unat (c ! 1) + sum_list (map (\<lambda>x. unat (snd x)) xs) =
      length (filter (\<lambda>m. h_slot (rss m) = i) ms)"
    by (simp add: sum_tag_packets)
qed

definition hl_flow_n :: "('w::len) word hl_count \<Rightarrow> nat" where
  "hl_flow_n b = of_bool (ctr b ! 0 \<noteq> 0) + of_bool (ctr b ! 1 \<noteq> 0) +
     length (filter (\<lambda>x. snd x \<noteq> 0) (ents (hl_flows b)))"

definition hl_chain_n :: "('w::len) word hl_count \<Rightarrow> nat" where
  "hl_chain_n b = sum_list (map (\<lambda>x. unat (snd x)) (ents (hl_flows b)))"

definition hl_pkt_n :: "('w::len) word hl_count \<Rightarrow> nat" where
  "hl_pkt_n b = unat (ctr b ! 0) + unat (ctr b ! 1) + hl_chain_n b"

lemma rtc_hl_report_chain:
  "fold (\<lambda>f (flows, sum). (if e_ctr f > 0 then flows + 1 else flows, sum + ucast (e_ctr f))) fs (a, b) =
     (a + of_nat (length (filter (\<lambda>x. snd x \<noteq> 0) (ents (fs :: u32 flow_entry_sd list)))),
      b + (of_nat (sum_list (map (\<lambda>x. unat (snd x)) (ents fs))) :: u64))"
  by (induction fs arbitrary: a b) (auto simp: ents_def algebra_simps word_gt_0)

lemma ucast_zero: "\<not> w > 0 \<Longrightarrow> ucast (w :: u32) = (0 :: u64)"
  by (simp add: word_gt_0)

lemma rtc_hl_report_step:
  "(let (flows, sum) = (if ctr b ! 0 > 0 then (x + 1, y + ucast (ctr b ! 0)) else (x, y));
        (flows, sum) = (if ctr b ! 1 > 0 then (flows + 1, sum + ucast (ctr b ! 1)) else (flows, sum))
    in fold (\<lambda>f (flows, sum). (if e_ctr f > 0 then flows + 1 else flows, sum + ucast (e_ctr f)))
         (hl_flows b) (flows, sum)) =
   (x + of_nat (hl_flow_n b), y + of_nat (hl_pkt_n (b :: u32 hl_count)) :: u64)"
  by (cases "ctr b ! 0 > 0"; cases "ctr b ! 1 > 0")
    (simp_all add: rtc_hl_report_chain hl_flow_n_def hl_pkt_n_def hl_chain_n_def algebra_simps,
      simp_all add: word_gt_0)

lemma rtc_hl_report_sum:
  "rtc_hl_report t = (of_nat (\<Sum>i < FLOW_NUM. hl_flow_n (t i)), of_nat (\<Sum>i < FLOW_NUM. hl_pkt_n (t i)))"
proof -
  have "rtc_hl_report t = fold (\<lambda>i (x, y). (x + of_nat (hl_flow_n (t i)), y + of_nat (hl_pkt_n (t i))))
      [0..<FLOW_NUM] (0, 0)"
    unfolding rtc_hl_report_def
    by (rule fold_cong) (auto simp only: fun_eq_iff split_paired_all prod.case rtc_hl_report_step)
  also have "fold (\<lambda>i (x, y). (x + of_nat (hl_flow_n (t i)), y + of_nat (hl_pkt_n (t i)))) [0..<n] (0 :: u64, 0 :: u64) =
      (of_nat (\<Sum>i < n. hl_flow_n (t i)), of_nat (\<Sum>i < n. hl_pkt_n (t i)))" for n
    by (induction n) simp_all
  finally show ?thesis .
qed

lemma pth_hl_report_chain:
  "fold (\<lambda>f sum. (if e_ctr f > 0 then sum + 1 else sum) + e_ctr f) fs a =
     a + of_nat (length (filter (\<lambda>x. snd x \<noteq> 0) (ents (fs :: u64 flow_entry_sd list)))) +
     of_nat (sum_list (map (\<lambda>x. unat (snd x)) (ents fs)))"
  by (induction fs arbitrary: a) (auto simp: ents_def algebra_simps word_gt_0)

lemma pth_hl_report_sum: "pth_hl_report t = of_nat (\<Sum>i < FLOW_NUM. hl_flow_n (t i) + hl_chain_n (t i))"
proof -
  have "pth_hl_report t = fold (\<lambda>i s. s + of_nat (hl_flow_n (t i) + hl_chain_n (t i))) [0..<FLOW_NUM] 0"
    unfolding pth_hl_report_def
    by (rule fold_cong)
      (auto simp: fun_eq_iff Let_def pth_hl_report_chain hl_flow_n_def hl_chain_n_def, simp_all add: word_gt_0)
  then show ?thesis by (simp add: fold_plus_sum)
qed

text \<open>The totals over a table with exact counts.\<close>

lemma hl_table_report:
  fixes t :: "nat \<Rightarrow> ('w::len) word hl_count"
  assumes f: "flow_counts (\<lambda>i. hl_cnt (hl_slots (t i))) (\<lambda>i. hl_tracked (hl_slots (t i))) ms"
    and wf: "\<forall>i < FLOW_NUM. hl_wf (hl_slots (t i))"
    and v: "\<forall>m \<in> set ms. h_tag (rss m) \<noteq> 0" and n: "length ms < 2 ^ LENGTH('w)"
  shows "(\<Sum>i < FLOW_NUM. hl_flow_n (t i)) = card (set (map rss ms))"
    and "(\<Sum>i < FLOW_NUM. hl_pkt_n (t i)) = length ms"
    and "(\<Sum>i < FLOW_NUM. hl_chain_n (t i)) =
      length (filter (\<lambda>m. h_tag (rss m) \<in> list_tracked (ents (hl_flows (t (h_slot (rss m)))))) ms)"
proof -
  have s: "hl_slots (t i) = ((hi_f1 (t i), hi_f2 (t i), ctr (t i)), ents (hl_flows (t i)))" for i
    by (simp add: hl_slots_def slots_def)
  have w: "hl_wf ((hi_f1 (t i), hi_f2 (t i), ctr (t i)), ents (hl_flows (t i)))" if "i < FLOW_NUM" for i
    using wf that by (simp only: s)
  note r = hl_bucket_report [OF f _ w, OF _ _ arg_cong [OF s, of hl_cnt] arg_cong [OF s, of hl_tracked] v n]
  have r1: "hl_flow_n (t i) = card (seen_tags ms i)" if "i < FLOW_NUM" for i
    using r(1) [OF that that] by (simp only: hl_flow_n_def)
  have r2: "hl_chain_n (t i) = length (filter (\<lambda>m. h_slot (rss m) = i \<and>
      h_tag (rss m) \<in> list_tracked (ents (hl_flows (t i)))) ms)" if "i < FLOW_NUM" for i
    using r(2) [OF that that] by (simp only: hl_chain_n_def)
  have r3: "hl_pkt_n (t i) = length (filter (\<lambda>m. h_slot (rss m) = i) ms)" if "i < FLOW_NUM" for i
    using r(3) [OF that that] by (simp only: hl_pkt_n_def hl_chain_n_def)
  have "(\<Sum>i < FLOW_NUM. hl_flow_n (t i)) = (\<Sum>i < FLOW_NUM. card (seen_tags ms i))"
    by (rule sum.cong) (auto simp: r1)
  then show "(\<Sum>i < FLOW_NUM. hl_flow_n (t i)) = card (set (map rss ms))" by (simp add: sum_seen_tags)
  have "(\<Sum>i < FLOW_NUM. hl_pkt_n (t i)) = (\<Sum>i < FLOW_NUM. length (filter (\<lambda>m. h_slot (rss m) = i) ms))"
    by (rule sum.cong) (auto simp: r3)
  then show "(\<Sum>i < FLOW_NUM. hl_pkt_n (t i)) = length ms" by (simp add: sum_bucket_lengths)
  have "(\<Sum>i < FLOW_NUM. hl_chain_n (t i)) = (\<Sum>i < FLOW_NUM. length (filter (\<lambda>m. h_slot (rss m) = i \<and>
      h_tag (rss m) \<in> list_tracked (ents (hl_flows (t i)))) ms))"
    by (rule sum.cong) (auto simp: r2)
  then show "(\<Sum>i < FLOW_NUM. hl_chain_n (t i)) =
      length (filter (\<lambda>m. h_tag (rss m) \<in> list_tracked (ents (hl_flows (t (h_slot (rss m)))))) ms)"
    using sum_bucket_packets [of "\<lambda>m i. h_tag (rss m) \<in> list_tracked (ents (hl_flows (t i)))" ms] by simp
qed

section \<open>Properties\<close>

definition rtc_hl_start :: "nat \<Rightarrow> u32 hl_count" where
  "rtc_hl_start = (\<lambda>_. \<lparr>hi_f1 = 0, hi_f2 = 0, ctr = [0, 0], ipg = [0, 0], avg = [0, 0], stdDev = [0, 0],
     qt = [qt_init exact_fpu (99 / 100) qt_zero, qt_init exact_fpu (99 / 100) qt_zero],
     hl_flows = [rtc_hl_zero]\<rparr>)"

definition pth_hl_start :: "nat \<Rightarrow> u64 hl_count" where
  "pth_hl_start = (\<lambda>_. \<lparr>hi_f1 = 0, hi_f2 = 0, ctr = [0, 0], ipg = [0, 0], avg = [0, 0], stdDev = [0, 0],
     qt = [qt_init exact_fpu (99 / 100) qt_zero, qt_init exact_fpu (99 / 100) qt_zero],
     hl_flows = [pth_ll_zero]\<rparr>)"

definition hl_unset :: "u32 hl_count" where
  "hl_unset = \<lparr>hi_f1 = 0, hi_f2 = 0, ctr = [0, 0], ipg = [0, 0], avg = [0, 0], stdDev = [0, 0],
     qt = [qt_zero, qt_zero], hl_flows = []\<rparr>"

lemma hl_unset_zeroed: "hl_zeroed hl_unset"
  by (simp add: hl_zeroed_def hl_unset_def qt_zero_def less_2_cases_iff)

lemma replicate_2: "replicate 2 x = [x, x]"
  by (simp add: eval_nat_numeral)

lemma hl_start_ready: "hl_ready ex_cfg rtc_hl_start" "hl_ready ex_cfg pth_hl_start"
proof -
  have i: "qt_wf exact_fpu (qt_init exact_fpu (99 / 100) qt_zero) \<and>
      (\<exists>vs. qt_seen (qt_init exact_fpu (99 / 100) qt_zero) vs)"
    using qt_init_start [of qt_zero exact_fpu "99 / 100"] by (auto simp: qt_zero_def)
  then show "hl_ready ex_cfg rtc_hl_start" "hl_ready ex_cfg pth_hl_start"
    by (simp_all add: hl_ready_def rtc_hl_start_def pth_hl_start_def slots_def list_empty_def ents_def
        rtc_hl_zero_def pth_ll_zero_def slot_qt_ok_def less_2_cases_iff replicate_2)
qed

text \<open>
  The initialisation of the hash-list table gives every bucket empty slots, fresh quantile
  estimators and a list of free entries, when the first allocation of every bucket succeeds.
\<close>

theorem hl_init_table_builds:
  assumes "\<forall>i. hl_zeroed (t i)" and "\<forall>i. mem i 0" and "rss_high z = 0" and "e_ctr z = 0"
  shows "\<exists>t'. hl_init_table c mem z t = Inr t' \<and> hl_ready c t'"
  by (rule hl_init_table_ok [where t = t and mem = mem]) (fact assms)+

theorem hl_init_table_builds_witness:
  "\<exists>t'. hl_init_table ex_cfg (\<lambda>_ _. True) rtc_hl_zero (\<lambda>_. hl_unset) = Inr t' \<and> hl_ready ex_cfg t'"
  by (rule hl_init_table_builds) (simp_all add: hl_unset_zeroed rtc_hl_zero_def)

text \<open>
  The allocation of a bucket's first list entry is not checked: when it fails, initialisation
  still succeeds, with an empty list, and the first packet of a third flow in that bucket follows
  the uninitialised pointer \<^verbatim>\<open>tmp\<close>.
\<close>

theorem hl_init_unchecked:
  assumes "\<not> mem 0" and "hl_init_bucket c mem z b = Inr b'"
    and "hi_f1 u \<noteq> 0" and "hi_f2 u \<noteq> 0" and "k \<noteq> hi_f1 u" and "k \<noteq> hi_f2 u"
    and "hl_flows u = hl_flows b'"
  shows "\<exists>x. rtc_hl_packet d True g k u = Inl (Undefined x)"
proof -
  have "hl_flows b' = []"
    using assms(1,2) by (auto simp: hl_init_bucket_def HL_ENTRY_PER_FLOW_def Let_def sbind_Inr_iff)
  with assms(3-7) show ?thesis
    by (auto simp: rtc_hl_packet_def rtc_hl_chain_def list_add_def)
qed

theorem hl_init_unchecked_witness:
  "\<exists>b'. hl_init_bucket ex_cfg (\<lambda>_. False) rtc_hl_zero hl_unset = Inr b' \<and>
     (\<exists>x. rtc_hl_packet ex_cfg True 3 7 (b'\<lparr>hi_f1 := 5, hi_f2 := 6\<rparr>) = Inl (Undefined x))"
proof -
  obtain b' where b': "hl_init_bucket ex_cfg (\<lambda>_. False) rtc_hl_zero hl_unset = Inr b'"
    by (simp add: hl_init_bucket_def HL_ENTRY_PER_FLOW_def Let_def)
  from hl_init_unchecked [OF _ b', of "b'\<lparr>hi_f1 := 5, hi_f2 := 6\<rparr>" 7 ex_cfg 3] b' show ?thesis by simp
qed

text \<open>
  C14: The run-to-completion hash-list loop counts every flow exactly (modulo \<open>2^32\<close>), tracks
  exactly the flows it has seen and frees every buffer once; for fewer than \<open>2^31\<close> packets the
  quantile code never leaves its arrays, and the only way the loop stops is a failed allocation.
\<close>

theorem rtc_hash_list_counts:
  assumes "ieee_double (c_fpu c)" and "hl_ready c (tbl s)" and "rings s = [of_nat k]"
    and "unat (glob s) < 2 ^ 31" and "k + length (packets bs) < 2 ^ 31" and "\<forall>b \<in> set bs. fst b = 0"
    and "\<forall>m \<in> set (packets bs). h_tag (rss m) \<noteq> 0"
  shows "(\<exists>s'. run (\<lambda>(q, bufs). rtc_hash_list c mem q bufs) bs s = Inr s' \<and>
      flow_counts (\<lambda>i. hl_cnt (hl_slots (tbl s' i))) (\<lambda>i. hl_tracked (hl_slots (tbl s' i))) (packets bs) \<and>
      freed s' = freed s @ packets bs) \<or>
    run (\<lambda>(q, bufs). rtc_hash_list c mem q bufs) bs s =
      Inl (Exit_failure ''flow bucket allocation failure'') \<and> (\<exists>m \<in> set (packets bs). \<not> mem (mb_id m))"
  using rtc_hl_run_safe [OF assms(1,3,4,5) hl_ready_facts(1) [OF assms(2)] assms(6), of mem]
proof (elim disjE exE)
  fix s'
  assume s': "run (\<lambda>(q, bufs). rtc_hash_list c mem q bufs) bs s = Inr s'"
  obtain es where es: "map snd es = packets bs"
    "run (table_upd bucket_of (rtc_hl_upd c mem)) es (tbl s) = Inr (tbl s')"
    using rtc_hl_loop.run_events [OF s'] by blast
  from rtc_hl.table_flow_counts [OF es(2,1) hl_ready_facts(3) [OF assms(2)] assms(7)]
    rtc_hl_run_frees [OF s'] s' show ?thesis by blast
qed blast

lemma ex_bursts_queue0: "\<forall>b \<in> set ex_bursts. fst b = 0"
  using ex_bursts_facts(3) by simp

theorem rtc_hash_list_counts_witness:
  "\<exists>s'. run (\<lambda>(q, bufs). rtc_hash_list ex_cfg (\<lambda>_. True) q bufs) ex_bursts (ex_state rtc_hl_start) = Inr s' \<and>
    flow_counts (\<lambda>i. hl_cnt (hl_slots (tbl s' i))) (\<lambda>i. hl_tracked (hl_slots (tbl s' i))) (packets ex_bursts) \<and>
    map mb_id (freed s') = [1, 2, 3, 4, 5]"
proof -
  have "map mb_id (packets ex_bursts) = [1, 2, 3, 4, 5]" by (simp add: ex_bursts_def)
  then show ?thesis
    using rtc_hash_list_counts [of ex_cfg "ex_state rtc_hl_start" 0 ex_bursts "\<lambda>_. True"]
      ex_bursts_facts(1,2) hl_start_ready ex_bursts_queue0 by auto
qed

text \<open>
  C18: The same for the pthread version, whose flows are the values of the software hash.
\<close>

theorem pth_hash_list_counts:
  assumes "n_rx \<le> length (rings s)" and "\<forall>b \<in> set bs. fst b < length (rings s)" and "hl_ready c (tbl s)"
    and "\<forall>m \<in> set (packets bs). h_tag (pth_soft_hash softrss (pkt_data m)) \<noteq> 0"
  shows "(\<exists>s'. run (\<lambda>(q, bufs). pth_count_hash_list c mem softrss pkt_data n_rx q bufs) bs s = Inr s' \<and>
      flow_counts (\<lambda>i. hl_cnt (hl_slots (tbl s' i))) (\<lambda>i. hl_tracked (hl_slots (tbl s' i)))
        (map (soft_rss softrss pkt_data) (packets bs)) \<and>
      freed s' = freed s @ packets bs) \<or>
    run (\<lambda>(q, bufs). pth_count_hash_list c mem softrss pkt_data n_rx q bufs) bs s =
      Inl (Exit_failure ''flow bucket allocation failure'') \<and> (\<exists>m \<in> set (packets bs). \<not> mem (mb_id m))"
proof -
  have "\<forall>i < FLOW_NUM. hl_flows (tbl s i) \<noteq> []" using hl_ready_facts(1) [OF assms(3)] by blast
  from pth_hl_run_safe [OF assms(1,2) this, of c mem softrss pkt_data] show ?thesis
  proof (elim disjE exE)
    fix s'
    assume s': "run (\<lambda>(q, bufs). pth_count_hash_list c mem softrss pkt_data n_rx q bufs) bs s = Inr s'"
    obtain es where es: "map snd es = map (soft_rss softrss pkt_data) (packets bs)"
      "run (table_upd bucket_of (pth_hl_upd c mem)) es (tbl s) = Inr (tbl s')"
      using pth_hl_loop.run_hashed_events [OF s'] by blast
    have v: "\<forall>m \<in> set (map (soft_rss softrss pkt_data) (packets bs)). h_tag (rss m) \<noteq> 0"
      using assms(4) by (auto simp: soft_rss_def)
    from pth_hl.table_flow_counts [OF es(2,1) hl_ready_facts(3) [OF assms(3)] v]
      pth_hl_run_frees [OF s'] s' show ?thesis by blast
  qed blast
qed

text \<open>Packets whose data is an IPv4 header with the hash of the packet as source address.\<close>

definition ex_data :: "mbuf \<Rightarrow> u8 list" where
  "ex_data m = replicate 26 0 @ [ucast (drop_bit 24 (rss m)), ucast (drop_bit 16 (rss m)),
     ucast (drop_bit 8 (rss m)), ucast (rss m)] @ replicate 4 0"

lemma be32_bytes:
  fixes r :: u32
  shows "be32 (xs @ [ucast (drop_bit 24 r), ucast (drop_bit 16 r), ucast (drop_bit 8 r), ucast r] @ ys) (length xs) = r"
proof -
  have "push_bit 24 (ucast (ucast (drop_bit 24 r) :: u8)) OR push_bit 16 (ucast (ucast (drop_bit 16 r) :: u8))
      OR push_bit 8 (ucast (ucast (drop_bit 8 r) :: u8)) OR ucast (ucast r :: u8) = r"
  proof (rule bit_word_eqI)
    fix n
    assume "n < LENGTH(32)"
    then consider "n < 8" | "8 \<le> n" "n < 16" | "16 \<le> n" "n < 24" | "24 \<le> n" "n < 32" by fastforce
    then show "bit (push_bit 24 (ucast (ucast (drop_bit 24 r) :: u8)) OR push_bit 16 (ucast (ucast (drop_bit 16 r) :: u8))
        OR push_bit 8 (ucast (ucast (drop_bit 8 r) :: u8)) OR ucast (ucast r :: u8) :: u32) n = bit r n"
      by cases (simp_all add: bit_simps, (cases "bit r n"; simp; arith)+)
  qed
  then show ?thesis by (simp add: be32_def nth_append)
qed

lemma ex_data_hash: "pth_soft_hash hd (ex_data m) = rss m"
  using be32_bytes [of "replicate 26 0" "rss m" "replicate 4 0"]
  by (simp add: pth_soft_hash_def ETHER_HDR_LEN_def ex_data_def)

theorem pth_hash_list_counts_witness:
  "\<exists>s'. run (\<lambda>(q, bufs). pth_count_hash_list ex_cfg (\<lambda>_. True) hd ex_data 1 q bufs) ex_bursts
      (ex_state pth_hl_start) = Inr s' \<and>
    flow_counts (\<lambda>i. hl_cnt (hl_slots (tbl s' i))) (\<lambda>i. hl_tracked (hl_slots (tbl s' i)))
      (map (soft_rss hd ex_data) (packets ex_bursts)) \<and>
    map mb_id (freed s') = [1, 2, 3, 4, 5]"
proof -
  have "map mb_id (packets ex_bursts) = [1, 2, 3, 4, 5]" by (simp add: ex_bursts_def)
  then show ?thesis
    using pth_hash_list_counts [of 1 "ex_state pth_hl_start" ex_bursts ex_cfg hd ex_data "\<lambda>_. True"]
      ex_bursts_facts(1,3) hl_start_ready by (auto simp: ex_data_hash)
qed

text \<open>
  The exit report of the run-to-completion hash-list version is exact: the number of distinct
  RSS hashes and the number of packets, for fewer than \<open>2^32\<close> packets.
\<close>

theorem rtc_hash_list_report:
  assumes "run (\<lambda>(q, bufs). rtc_hash_list c mem q bufs) bs s = Inr s'" and "hl_ready c (tbl s)"
    and "\<forall>m \<in> set (packets bs). h_tag (rss m) \<noteq> 0" and "length (packets bs) < 2 ^ 32"
  shows "rtc_hl_report (tbl s') = (of_nat (card (rss ` set (packets bs))), of_nat (length (packets bs)))"
proof -
  obtain es where es: "map snd es = packets bs"
    "run (table_upd bucket_of (rtc_hl_upd c mem)) es (tbl s) = Inr (tbl s')"
    using rtc_hl_loop.run_events [OF assms(1)] by blast
  have n: "length (packets bs) < 2 ^ LENGTH(32)" using assms(4) by simp
  note r = hl_table_report [OF rtc_hl.table_flow_counts [OF es(2,1) hl_ready_facts(3) [OF assms(2)] assms(3)]
      rtc_hl.table_start_wf [OF es(2,1) hl_ready_facts(2) [OF assms(2)] assms(3)] assms(3) n]
  show ?thesis unfolding rtc_hl_report_sum r by simp
qed

theorem rtc_hash_list_report_witness:
  "\<exists>s'. run (\<lambda>(q, bufs). rtc_hash_list ex_cfg (\<lambda>_. True) q bufs) ex_bursts (ex_state rtc_hl_start) = Inr s' \<and>
    rtc_hl_report (tbl s') = (4, 5)"
proof -
  have "\<forall>i < FLOW_NUM. hl_inv ex_cfg (tbl (ex_state rtc_hl_start) i)"
    using hl_ready_facts(1) [OF hl_start_ready(1)] by simp
  then obtain s' where s': "run (\<lambda>(q, bufs). rtc_hash_list ex_cfg (\<lambda>_. True) q bufs) ex_bursts
      (ex_state rtc_hl_start) = Inr s'"
    using rtc_hl_run_safe [of ex_cfg "ex_state rtc_hl_start" 0 ex_bursts "\<lambda>_. True"]
      ex_bursts_facts(2) ex_bursts_queue0 by auto
  from s' rtc_hash_list_report [OF s'] hl_start_ready(1) ex_bursts_facts(1,2,4) show ?thesis by simp
qed

text \<open>
  C40: The exit report of the pthread hash-list version is not the number of flows: it exceeds the
  number of distinct software hashes by the number of packets counted in overflow lists.
\<close>

theorem pth_hash_list_report:
  assumes "run (\<lambda>(q, bufs). pth_count_hash_list c mem softrss pkt_data n_rx q bufs) bs s = Inr s'"
    and "hl_ready c (tbl s)"
    and "\<forall>m \<in> set (packets bs). h_tag (pth_soft_hash softrss (pkt_data m)) \<noteq> 0"
    and "length (packets bs) < 2 ^ 63" and "ms = map (soft_rss softrss pkt_data) (packets bs)"
  shows "unat (pth_hl_report (tbl s')) = card (rss ` set ms) +
    length (filter (\<lambda>m. h_tag (rss m) \<in> list_tracked (ents (hl_flows (tbl s' (h_slot (rss m)))))) ms)"
proof -
  obtain es where es: "map snd es = ms"
    "run (table_upd bucket_of (pth_hl_upd c mem)) es (tbl s) = Inr (tbl s')"
    using pth_hl_loop.run_hashed_events [OF assms(1)] assms(5) by blast
  have n: "length ms < 2 ^ LENGTH(64)" and n': "length ms < 2 ^ 63" using assms(4,5) by simp_all
  have v: "\<forall>m \<in> set ms. h_tag (rss m) \<noteq> 0" using assms(3,5) by (auto simp: soft_rss_def)
  let ?chained = "filter (\<lambda>m. h_tag (rss m) \<in> list_tracked (ents (hl_flows (tbl s' (h_slot (rss m)))))) ms"
  note r = hl_table_report [OF pth_hl.table_flow_counts [OF es(2,1) hl_ready_facts(3) [OF assms(2)] v]
      pth_hl.table_start_wf [OF es(2,1) hl_ready_facts(2) [OF assms(2)] v] v n]
  have "card (set (map rss ms)) < 2 ^ 63" by (rule le_less_trans [OF distinct_hashes_le n'])
  moreover have "length ?chained < 2 ^ 63" by (rule length_filter_less [OF n'])
  ultimately have "card (set (map rss ms)) + length ?chained < 2 ^ LENGTH(64)" by simp
  moreover have "pth_hl_report (tbl s') = of_nat (card (set (map rss ms)) + length ?chained)"
    unfolding pth_hl_report_sum sum.distrib r ..
  ultimately show ?thesis by (simp only: unat_of_nat_small set_map)
qed

theorem pth_hash_list_report_witness:
  "\<exists>s' n. run (\<lambda>(q, bufs). pth_count_hash_list ex_cfg (\<lambda>_. True) hd ex_data 1 q bufs) ex_bursts
      (ex_state pth_hl_start) = Inr s' \<and> unat (pth_hl_report (tbl s')) = 4 + n"
proof -
  have "\<forall>i < FLOW_NUM. hl_flows (tbl (ex_state pth_hl_start) i) \<noteq> []" by (simp add: pth_hl_start_def)
  then obtain s' where s': "run (\<lambda>(q, bufs). pth_count_hash_list ex_cfg (\<lambda>_. True) hd ex_data 1 q bufs)
      ex_bursts (ex_state pth_hl_start) = Inr s'"
    using pth_hl_run_safe [of 1 "ex_state pth_hl_start" ex_bursts ex_cfg "\<lambda>_. True" hd ex_data]
      ex_bursts_facts(3) by auto
  have i: "soft_rss hd ex_data = (\<lambda>m. m)" by (simp add: soft_rss_def ex_data_hash fun_eq_iff)
  from s' pth_hash_list_report [OF s' _ _ _ refl] hl_start_ready(2) ex_bursts_facts(1,2,4)
  show ?thesis by (simp add: ex_data_hash i)
qed

text \<open>
  The software hash of the pthread version reads only the two IPv4 addresses: packets between
  the same two hosts fall into one flow, whatever their protocol and ports.
\<close>

theorem soft_hash_hosts:
  assumes "\<And>i. i \<in> {26..<34} \<Longrightarrow> pkt_data m ! i = pkt_data m' ! i"
  shows "tag (g, soft_rss softrss pkt_data m) = tag (g', soft_rss softrss pkt_data m') \<and>
    bucket_of (g, soft_rss softrss pkt_data m) = bucket_of (g', soft_rss softrss pkt_data m')"
proof -
  have "pth_soft_hash softrss (pkt_data m) = pth_soft_hash softrss (pkt_data m')"
    using assms by (simp add: pth_soft_hash_def be32_def ETHER_HDR_LEN_def)
  then show ?thesis by (simp add: tag_def bucket_of_def soft_rss_def)
qed

theorem soft_hash_hosts_witness:
  "tag (1, soft_rss hd (\<lambda>m. replicate 34 0 @ [ucast (rss m), of_nat (mb_id m)]) \<lparr>mb_id = 1, rss = 7\<rparr>) =
   tag (2, soft_rss hd (\<lambda>m. replicate 34 0 @ [ucast (rss m), of_nat (mb_id m)]) \<lparr>mb_id = 2, rss = 8\<rparr>)"
  using soft_hash_hosts [of "\<lambda>m. replicate 34 0 @ [ucast (rss m), of_nat (mb_id m)]"
      "\<lparr>mb_id = 1, rss = 7\<rparr>" "\<lparr>mb_id = 2, rss = 8\<rparr>" 1 hd 2]
  by (simp add: nth_append)

end
