(* ===== verification/Thread_Config.thy ===== *)
theory Thread_Config
  imports FW_Prelude
begin

text \<open>
  From the command-line parameters to the thread structures of the pthread and L-thread versions:
  \<^verbatim>\<open>init_rx_queues\<close>, \<^verbatim>\<open>init_tx_threads\<close>, \<^verbatim>\<open>init_rx_rings\<close>, and the checks and helpers of the
  L-thread version. The model gives the arrays \<^verbatim>\<open>rx_thread\<close> and \<^verbatim>\<open>tx_thread\<close> as functions from the
  index; thread numbers are 8-bit, so they never leave the arrays of 1024 entries.
\<close>

section \<open>Structures\<close>

record rx_params =
  port_id :: u8
  queue_id :: u8
  lcore_id :: u8
  thread_id :: u8

record tx_params =
  t_lcore_id :: u8
  t_thread_id :: u8

record thread_conf =
  tc_lcore :: u16
  tc_cpu :: u16
  tc_thread :: u16

text \<open>
  The ring pointers of a receiving thread: \<open>None\<close> is the null pointer. The length of the list is the
  length of the array, \<^verbatim>\<open>RTE_MAX_LCORE\<close>, a constant of the DPDK build.
\<close>

record 'r rx_conf =
  rx_tc :: thread_conf
  n_rx_queue :: u16
  rx_queue_list :: "(u8 \<times> u8) list"
  n_ring :: u16
  rx_ring :: "'r option list"

record 'r tx_conf =
  tx_tc :: thread_conf
  tx_ring :: "'r option"

definition MAX_RX_QUEUE_PER_LCORE :: nat where
  "MAX_RX_QUEUE_PER_LCORE = 16"

definition MAX_RX_QUEUE_PER_PORT :: nat where
  "MAX_RX_QUEUE_PER_PORT = 128"

section \<open>Receive queues\<close>

type_synonym 'r rx_state = "u16 \<times> (nat \<Rightarrow> 'r rx_conf)"

text \<open>
  One round of the loop. \<open>err\<close> is what happens on too many queues: -1 in the pthread version,
  \<^verbatim>\<open>rte_exit\<close> in the L-thread version.
\<close>

definition rx_queue_step :: "fw_error \<Rightarrow> rx_params \<Rightarrow> 'r rx_state \<Rightarrow> fw_error + 'r rx_state" where
  "rx_queue_step err p s =
     (let (n_rx_thread, rx_thread) = s; thread = unat (thread_id p); r = rx_thread thread;
          nb_rx_queue = unat (n_rx_queue r)
      in if nb_rx_queue \<ge> MAX_RX_QUEUE_PER_LCORE then Inl err
         else
           (let r = r\<lparr>rx_tc := (rx_tc r)\<lparr>tc_thread := ucast (thread_id p), tc_lcore := ucast (lcore_id p)\<rparr>,
                      rx_queue_list := (rx_queue_list r)[nb_rx_queue := (port_id p, queue_id p)],
                      n_rx_queue := n_rx_queue r + 1\<rparr>
            in Inr (if ucast (thread_id p) \<ge> n_rx_thread then ucast (thread_id p) + 1 else n_rx_thread,
                    rx_thread(thread := r))))"

definition pth_init_rx_queues :: "rx_params list \<Rightarrow> (nat \<Rightarrow> 'r rx_conf) \<Rightarrow> fw_error + 'r rx_state" where
  "pth_init_rx_queues ps rx_thread = run (rx_queue_step (Failed ''too many queues'')) ps (0, rx_thread)"

definition lt_init_rx_queues :: "rx_params list \<Rightarrow> (nat \<Rightarrow> 'r rx_conf) \<Rightarrow> fw_error + 'r rx_state" where
  "lt_init_rx_queues ps rx_thread = run (rx_queue_step (Exit_failure ''too many queues'')) ps (0, rx_thread)"

section \<open>Counting threads\<close>

definition init_tx_step :: "tx_params \<Rightarrow> u16 \<times> (nat \<Rightarrow> 'r tx_conf) \<Rightarrow> u16 \<times> (nat \<Rightarrow> 'r tx_conf)" where
  "init_tx_step p s =
     (let (n_tx_thread, tx_thread) = s; t = tx_thread (unat n_tx_thread)
      in (n_tx_thread + 1,
          tx_thread(unat n_tx_thread := t\<lparr>tx_tc := (tx_tc t)\<lparr>tc_thread := ucast (t_thread_id p),
            tc_lcore := ucast (t_lcore_id p)\<rparr>\<rparr>)))"

definition init_tx_threads :: "tx_params list \<Rightarrow> (nat \<Rightarrow> 'r tx_conf) \<Rightarrow> u16 \<times> (nat \<Rightarrow> 'r tx_conf)" where
  "init_tx_threads ps tx_thread = fold init_tx_step ps (0, tx_thread)"

section \<open>Rings\<close>

text \<open>
  \<open>mk\<close> is \<^verbatim>\<open>rte_ring_create\<close> on the name built from the socket, the receiving and the counting
  thread, \<open>None\<close> its null result; \<open>socket_of\<close> is \<^verbatim>\<open>rte_lcore_to_socket_id\<close>.
\<close>

type_synonym 'r ring_state = "(nat \<Rightarrow> 'r rx_conf) \<times> (nat \<Rightarrow> 'r tx_conf)"

definition rx_ring_step ::
  "(u16 \<Rightarrow> u32) \<Rightarrow> (u32 \<Rightarrow> nat \<Rightarrow> nat \<Rightarrow> 'r option) \<Rightarrow> u16 \<Rightarrow> nat \<Rightarrow> 'r ring_state \<Rightarrow> fw_error + 'r ring_state"
where
  "rx_ring_step socket_of mk n_tx_thread tx_id s =
     (let (rx_thread, tx_thread) = s; rx_id = unat (tc_thread (tx_tc (tx_thread tx_id)))
      in if rx_id > unat n_tx_thread then Inl (Failed ''rx-thread not defined'')
         else
           (let r = rx_thread rx_id
            in case mk (socket_of (tc_lcore (rx_tc r))) rx_id tx_id of
                 None \<Rightarrow> Inl (Exit_failure ''Cannot create ring'')
               | Some ring \<Rightarrow>
                   if unat (n_ring r) < length (rx_ring r) then
                     Inr (rx_thread(rx_id := r\<lparr>rx_ring := (rx_ring r)[unat (n_ring r) := Some ring],
                                              n_ring := n_ring r + 1\<rparr>),
                          tx_thread(tx_id := (tx_thread tx_id)\<lparr>tx_ring := Some ring\<rparr>))
                   else Inl (Undefined ''ring index out of range'')))"

definition init_rx_rings ::
  "(u16 \<Rightarrow> u32) \<Rightarrow> (u32 \<Rightarrow> nat \<Rightarrow> nat \<Rightarrow> 'r option) \<Rightarrow> u16 \<Rightarrow> 'r ring_state \<Rightarrow> fw_error + 'r ring_state"
where
  "init_rx_rings socket_of mk n_tx_thread s =
     run (rx_ring_step socket_of mk n_tx_thread) [0..<unat n_tx_thread] s"

section \<open>Checks and helpers of the L-thread version\<close>

text \<open>\<open>enabled\<close> is \<^verbatim>\<open>rte_lcore_is_enabled\<close>; the NUMA warning only prints.\<close>

fun check_lcore_params :: "(u8 \<Rightarrow> bool) \<Rightarrow> rx_params list \<Rightarrow> fw_error + unit" where
  "check_lcore_params enabled [] = Inr ()"
| "check_lcore_params enabled (p # ps) =
     (if unat (queue_id p) \<ge> MAX_RX_QUEUE_PER_PORT then Inl (Failed ''invalid queue number'')
      else if \<not> enabled (lcore_id p) then Inl (Failed ''lcore is not enabled in lcore mask'')
      else check_lcore_params enabled ps)"

definition get_port_n_rx_queues :: "rx_params list \<Rightarrow> u8 \<Rightarrow> u8" where
  "get_port_n_rx_queues ps port =
     word_of_int (fold (\<lambda>p queue. if port_id p = port \<and> int (unat (queue_id p)) > queue
                                  then int (unat (queue_id p)) else queue) ps (-1) + 1)"

text \<open>
  \<^verbatim>\<open>init_mem1\<close> makes one buffer pool per receiving thread; \<open>mk_pool\<close> is
  \<^verbatim>\<open>rte_pktmbuf_pool_create\<close> on the queue's name. \<^verbatim>\<open>pktmbuf_pool\<close> has \<^verbatim>\<open>NB_SOCKETS\<close> entries and
  is indexed unchecked.
\<close>

definition NB_SOCKETS :: nat where
  "NB_SOCKETS = 4"

definition init_mem_step :: "(nat \<Rightarrow> 'p option) \<Rightarrow> nat \<Rightarrow> 'p option list \<Rightarrow> fw_error + 'p option list" where
  "init_mem_step mk_pool q pool =
     (if q < length pool then
        (case mk_pool q of
           None \<Rightarrow> Inl (Exit_failure ''Cannot init mbuf pool'')
         | Some p \<Rightarrow> Inr (pool[q := Some p]))
      else Inl (Undefined ''pktmbuf_pool index out of range''))"

definition init_mem1 :: "(nat \<Rightarrow> 'p option) \<Rightarrow> u16 \<Rightarrow> 'p option list \<Rightarrow> fw_error + 'p option list" where
  "init_mem1 mk_pool n_rx_thread pool = run (init_mem_step mk_pool) [0..<unat n_rx_thread] pool"

section \<open>Default parameters\<close>

definition pth_default_rx :: "rx_params list" where
  "pth_default_rx = [\<lparr>port_id = 3, queue_id = 0, lcore_id = 2, thread_id = 0\<rparr>,
     \<lparr>port_id = 3, queue_id = 1, lcore_id = 4, thread_id = 1\<rparr>]"

definition pth_default_tx :: "tx_params list" where
  "pth_default_tx = [\<lparr>t_lcore_id = 6, t_thread_id = 0\<rparr>, \<lparr>t_lcore_id = 8, t_thread_id = 1\<rparr>]"

definition lt_default_rx :: "rx_params list" where
  "lt_default_rx =
     map (\<lambda>(p, q, l, t). \<lparr>port_id = p, queue_id = q, lcore_id = l, thread_id = t\<rparr>)
       [(0, 0, 2, 0), (0, 1, 2, 1), (0, 2, 2, 2), (1, 0, 2, 3), (1, 1, 2, 4), (1, 2, 2, 5),
        (2, 0, 2, 6), (3, 0, 3, 7), (3, 1, 3, 8)]"

definition lt_default_tx :: "tx_params list" where
  "lt_default_tx = [\<lparr>t_lcore_id = 4, t_thread_id = 0\<rparr>, \<lparr>t_lcore_id = 5, t_thread_id = 1\<rparr>,
     \<lparr>t_lcore_id = 6, t_thread_id = 2\<rparr>]"

end
