(* ===== verification/Thread_Config_Correct.thy ===== *)
theory Thread_Config_Correct
  imports Thread_Config
begin

text \<open>
  What start-up makes of the thread parameters: the queues of every receiving thread, the rings
  that connect receiving and counting threads, the buffer pools; and the checks that test the
  wrong bound.
\<close>

section \<open>Receive queues\<close>

text \<open>The queues the parameters \<open>ps\<close> give thread \<open>t\<close>, in order.\<close>

definition queues_of :: "rx_params list \<Rightarrow> u8 \<Rightarrow> (u8 \<times> u8) list" where
  "queues_of ps t = map (\<lambda>p. (port_id p, queue_id p)) (filter (\<lambda>p. thread_id p = t) ps)"

definition queues_fit :: "rx_params list \<Rightarrow> bool" where
  "queues_fit ps \<longleftrightarrow> (\<forall>t. length (queues_of ps t) \<le> MAX_RX_QUEUE_PER_LCORE)"

definition thread_count :: "rx_params list \<Rightarrow> nat" where
  "thread_count ps = fold (\<lambda>p n. max n (unat (thread_id p) + 1)) ps 0"

definition rx_fresh :: "(nat \<Rightarrow> 'r rx_conf) \<Rightarrow> bool" where
  "rx_fresh rt \<longleftrightarrow> (\<forall>t. n_rx_queue (rt t) = 0 \<and> length (rx_queue_list (rt t)) = MAX_RX_QUEUE_PER_LCORE \<and>
     n_ring (rt t) = 0)"

text \<open>The state of the loop after the parameters \<open>ps\<close>.\<close>

definition rx_after :: "(nat \<Rightarrow> 'r rx_conf) \<Rightarrow> rx_params list \<Rightarrow> 'r rx_state \<Rightarrow> bool" where
  "rx_after rt ps s \<longleftrightarrow> unat (fst s) = thread_count ps \<and>
     (\<forall>t :: u8. let r = snd s (unat t); qs = queues_of ps t in
        unat (n_rx_queue r) = length qs \<and> length (rx_queue_list r) = MAX_RX_QUEUE_PER_LCORE \<and>
        length qs \<le> MAX_RX_QUEUE_PER_LCORE \<and> take (length qs) (rx_queue_list r) = qs \<and>
        (qs \<noteq> [] \<longrightarrow> tc_thread (rx_tc r) = ucast t)) \<and>
     (\<forall>t. n_ring (snd s t) = n_ring (rt t) \<and> rx_ring (snd s t) = rx_ring (rt t))"

lemma queues_of_snoc: "queues_of (ps @ [p]) t = queues_of ps t @ (if thread_id p = t then [(port_id p, queue_id p)] else [])"
  by (simp add: queues_of_def)

lemma queues_fit_snoc:
  "queues_fit (ps @ [p]) \<longleftrightarrow> queues_fit ps \<and> length (queues_of ps (thread_id p)) < MAX_RX_QUEUE_PER_LCORE"
proof
  assume l: "queues_fit (ps @ [p])"
  then have "length (queues_of (ps @ [p]) t) \<le> MAX_RX_QUEUE_PER_LCORE" for t by (simp add: queues_fit_def)
  from this [of "thread_id p"] this show "queues_fit ps \<and> length (queues_of ps (thread_id p)) < MAX_RX_QUEUE_PER_LCORE"
    by (auto simp: queues_fit_def queues_of_snoc intro: order_trans [OF le_add1])
next
  assume "queues_fit ps \<and> length (queues_of ps (thread_id p)) < MAX_RX_QUEUE_PER_LCORE"
  then show "queues_fit (ps @ [p])" by (simp add: queues_fit_def queues_of_snoc)
qed

lemma thread_count_le: "thread_count ps \<le> 256"
proof -
  have "fold (\<lambda>p n. max n (unat (thread_id p) + 1)) ps n \<le> 256" if "n \<le> 256" for n
    using that
  proof (induction ps arbitrary: n)
    case (Cons p ps)
    with Cons show ?case using unat_u8_less [of "thread_id p"] by simp
  qed simp
  then show ?thesis by (simp add: thread_count_def)
qed

lemma rx_after_step:
  assumes r: "rx_after rt ps s" and l: "length (queues_of ps (thread_id p)) < MAX_RX_QUEUE_PER_LCORE"
  shows "\<exists>s'. rx_queue_step err p s = Inr s' \<and> rx_after rt (ps @ [p]) s'"
proof -
  obtain n f where s: "s = (n, f)" by (cases s)
  let ?t = "thread_id p" and ?c = "length (queues_of ps (thread_id p))"
  let ?n = "if ucast ?t \<ge> n then ucast ?t + 1 else n :: u16"
  let ?r = "(f (unat ?t))\<lparr>rx_tc := (rx_tc (f (unat ?t)))\<lparr>tc_thread := ucast ?t, tc_lcore := ucast (lcore_id p)\<rparr>,
      rx_queue_list := (rx_queue_list (f (unat ?t)))[?c := (port_id p, queue_id p)],
      n_rx_queue := n_rx_queue (f (unat ?t)) + 1\<rparr>"
  have c: "unat (n_rx_queue (f (unat ?t))) = ?c" using r by (simp add: rx_after_def s Let_def)
  with l have step: "rx_queue_step err p s = Inr (?n, f(unat ?t := ?r))"
    by (simp add: rx_queue_step_def s Let_def fun_eq_iff)
  have "unat (n_rx_queue (f (unat ?t)) + 1) = ?c + 1"
    using c l by (simp add: unat_word_ariths MAX_RX_QUEUE_PER_LCORE_def)
  moreover have "unat ?n = thread_count (ps @ [p])"
  proof -
    have n: "unat n = thread_count ps" using r by (simp add: rx_after_def s)
    have t: "unat (ucast ?t :: u16) = unat ?t" "unat ?t < 256"
      using unat_u8_less by simp_all
    then have "unat (ucast ?t + 1 :: u16) = unat ?t + 1" by (simp add: unat_word_ariths)
    with n t show ?thesis by (simp add: thread_count_def word_le_nat_alt)
  qed
  moreover have "unat t = unat ?t \<longleftrightarrow> t = ?t" for t :: u8 by (simp add: word_unat_eq_iff)
  ultimately have "rx_after rt (ps @ [p]) (?n, f(unat ?t := ?r))"
    using r l by (auto simp: rx_after_def s Let_def queues_of_snoc take_Suc_conv_app_nth)
  with step show ?thesis by blast
qed

lemma rx_queue_run:
  assumes "rx_fresh rt"
  shows "(queues_fit ps \<longrightarrow> (\<exists>s. run (rx_queue_step err) ps (0, rt) = Inr s \<and> rx_after rt ps s)) \<and>
    (\<not> queues_fit ps \<longrightarrow> run (rx_queue_step err) ps (0, rt) = Inl err)"
proof (induction ps rule: rev_induct)
  case Nil
  show ?case using assms by (simp add: rx_after_def rx_fresh_def queues_of_def queues_fit_def thread_count_def Let_def)
next
  case (snoc p ps)
  show ?case
  proof (cases "queues_fit ps")
    case False
    with snoc show ?thesis by (simp add: run_append queues_fit_snoc)
  next
    case True
    with snoc obtain s where s: "run (rx_queue_step err) ps (0, rt) = Inr s" "rx_after rt ps s" by blast
    show ?thesis
    proof (cases "length (queues_of ps (thread_id p)) < MAX_RX_QUEUE_PER_LCORE")
      case l: True
      with rx_after_step [OF s(2) l, of err] s(1) True show ?thesis
        by (auto simp: run_append queues_fit_snoc)
    next
      case False
      moreover have "unat (n_rx_queue (snd s (unat (thread_id p)))) = length (queues_of ps (thread_id p))"
        using s(2) by (simp add: rx_after_def Let_def)
      ultimately have "rx_queue_step err p s = Inl err"
        by (cases s) (simp add: rx_queue_step_def Let_def)
      with s(1) False show ?thesis by (simp add: run_append queues_fit_snoc)
    qed
  qed
qed

section \<open>Counting threads\<close>

lemma init_tx_run:
  assumes "length ps < 65536"
  shows "fst (init_tx_threads ps tt) = of_nat (length ps) \<and>
    (\<forall>i < length ps. tc_thread (tx_tc (snd (init_tx_threads ps tt) i)) = ucast (t_thread_id (ps ! i)) \<and>
      tc_lcore (tx_tc (snd (init_tx_threads ps tt) i)) = ucast (t_lcore_id (ps ! i)))"
  using assms
proof (induction ps rule: rev_induct)
  case Nil
  show ?case by (simp add: init_tx_threads_def)
next
  case (snoc p ps)
  obtain n f where s: "init_tx_threads ps tt = (n, f)" by (cases "init_tx_threads ps tt")
  have "init_tx_threads (ps @ [p]) tt = init_tx_step p (n, f)"
    using s by (simp add: init_tx_threads_def)
  moreover have "n = of_nat (length ps)" using snoc s by simp
  moreover from this have "unat n = length ps" using snoc.prems by (simp add: unat_of_nat_small)
  ultimately show ?case using snoc s by (auto simp: init_tx_step_def Let_def nth_append less_Suc_eq)
qed

section \<open>Rings\<close>

abbreviation rx_of :: "(nat \<Rightarrow> 'r tx_conf) \<Rightarrow> nat \<Rightarrow> nat" where
  "rx_of tt i \<equiv> unat (tc_thread (tx_tc (tt i)))"

text \<open>The counting threads below \<open>k\<close> that are attached to receiving thread \<open>t\<close>.\<close>

definition conns :: "(nat \<Rightarrow> 'r tx_conf) \<Rightarrow> nat \<Rightarrow> nat \<Rightarrow> nat list" where
  "conns tt k t = filter (\<lambda>i. rx_of tt i = t) [0..<k]"

definition rings_after ::
  "(u16 \<Rightarrow> u32) \<Rightarrow> (u32 \<Rightarrow> nat \<Rightarrow> nat \<Rightarrow> 'r option) \<Rightarrow> 'r ring_state \<Rightarrow> nat \<Rightarrow> 'r ring_state \<Rightarrow> bool"
where
  "rings_after socket_of mk s k s' \<longleftrightarrow>
     (\<forall>i. tx_tc (snd s' i) = tx_tc (snd s i)) \<and>
     (\<forall>i < k. tx_ring (snd s' i) = mk (socket_of (tc_lcore (rx_tc (fst s (rx_of (snd s) i))))) (rx_of (snd s) i) i) \<and>
     (\<forall>t. rx_tc (fst s' t) = rx_tc (fst s t) \<and> length (rx_ring (fst s' t)) = length (rx_ring (fst s t)) \<and>
        unat (n_ring (fst s' t)) = length (conns (snd s) k t) \<and>
        take (length (conns (snd s) k t)) (rx_ring (fst s' t)) = map (\<lambda>i. tx_ring (snd s' i)) (conns (snd s) k t))"

lemma conns_Suc: "conns tt (Suc k) t = conns tt k t @ (if rx_of tt k = t then [k] else [])"
  by (simp add: conns_def)

lemma length_conns: "length (conns tt k t) \<le> k"
  using length_filter_le [of _ "[0..<k]"] by (simp add: conns_def)

lemma rings_after_step:
  assumes a: "rings_after socket_of mk s k s'" and id: "rx_of (snd s) k \<le> unat n"
    and k: "k < unat (n :: u16)" and mk: "\<And>a b c. mk a b c \<noteq> None"
    and room: "length (conns (snd s) k (rx_of (snd s) k)) < length (rx_ring (fst s (rx_of (snd s) k)))"
  shows "\<exists>u. rx_ring_step socket_of mk n k s' = Inr u \<and> rings_after socket_of mk s (Suc k) u"
proof -
  obtain f g where s': "s' = (f, g)" by (cases s')
  let ?t = "rx_of (snd s) k"
  have t: "rx_of g k = ?t" and r: "rx_tc (f ?t) = rx_tc (fst s ?t)" using a by (simp_all add: rings_after_def s')
  obtain ring where ring: "mk (socket_of (tc_lcore (rx_tc (fst s ?t)))) ?t k = Some ring" using mk by blast
  have c: "unat (n_ring (f ?t)) = length (conns (snd s) k ?t)" "length (rx_ring (f ?t)) = length (rx_ring (fst s ?t))"
    using a by (simp_all add: rings_after_def s')
  let ?f = "f(?t := (f ?t)\<lparr>rx_ring := (rx_ring (f ?t))[unat (n_ring (f ?t)) := Some ring], n_ring := n_ring (f ?t) + 1\<rparr>)"
  let ?g = "g(k := (g k)\<lparr>tx_ring := Some ring\<rparr>)"
  have "rx_ring_step socket_of mk n k s' = Inr (?f, ?g)"
    using id room c by (simp add: rx_ring_step_def s' t r ring Let_def)
  moreover have "unat (n_ring (f ?t) + 1) = length (conns (snd s) k ?t) + 1"
  proof -
    have "unat n < 65536" using order_less_le_trans [OF unsigned_less, of 65536 n] by simp
    with k length_conns [of "snd s" k ?t] c(1) show ?thesis by (simp add: unat_word_ariths)
  qed
  moreover have "map (\<lambda>i. tx_ring (?g i)) (conns (snd s) k t) = map (\<lambda>i. tx_ring (g i)) (conns (snd s) k t)" for t
    by (rule map_cong) (auto simp: conns_def)
  ultimately have "rings_after socket_of mk s (Suc k) (?f, ?g)"
    using a ring room c unfolding rings_after_def s' fst_conv snd_conv
    by (auto simp: less_Suc_eq conns_Suc take_Suc_conv_app_nth)
  with \<open>rx_ring_step socket_of mk n k s' = Inr (?f, ?g)\<close> show ?thesis by blast
qed

lemma init_rx_rings_run:
  assumes "\<forall>t. n_ring (fst s t) = 0" and "\<forall>i < unat n. rx_of (snd s) i \<le> unat n" and "\<And>a b c. mk a b c \<noteq> None"
    and "\<forall>t. length (conns (snd s) (unat n) t) \<le> length (rx_ring (fst s t))" and "k \<le> unat n"
  shows "\<exists>s'. run (rx_ring_step socket_of mk n) [0..<k] s = Inr s' \<and> rings_after socket_of mk s k s'"
  using assms(5)
proof (induction k)
  case 0
  show ?case using assms(1) by (simp add: rings_after_def conns_def)
next
  case (Suc k)
  then obtain s' where s': "run (rx_ring_step socket_of mk n) [0..<k] s = Inr s'" "rings_after socket_of mk s k s'"
    by auto
  let ?t = "rx_of (snd s) k"
  have "conns (snd s) (unat n) ?t = conns (snd s) (Suc k) ?t @ filter (\<lambda>i. rx_of (snd s) i = ?t) [Suc k..<unat n]"
    using upt_add_eq_append [of 0 "Suc k" "unat n - Suc k"] Suc.prems by (simp add: conns_def)
  then have "length (conns (snd s) k ?t) < length (conns (snd s) (unat n) ?t)" by (simp add: conns_Suc)
  with assms(4) have room: "length (conns (snd s) k ?t) < length (rx_ring (fst s ?t))"
    using order_less_le_trans by blast
  from rings_after_step [OF s'(2) _ _ assms(3) room, of n] assms(2) Suc.prems s'(1) show ?case
    by (auto simp: run_append)
qed

section \<open>Properties\<close>

definition fresh_rx :: "nat \<Rightarrow> nat \<Rightarrow> nat rx_conf" where
  "fresh_rx max_lcore = (\<lambda>_. \<lparr>rx_tc = \<lparr>tc_lcore = 0, tc_cpu = 0, tc_thread = 0\<rparr>, n_rx_queue = 0,
     rx_queue_list = replicate 16 (0, 0), n_ring = 0, rx_ring = replicate max_lcore None\<rparr>)"

definition fresh_tx :: "nat \<Rightarrow> nat tx_conf" where
  "fresh_tx = (\<lambda>_. \<lparr>tx_tc = \<lparr>tc_lcore = 0, tc_cpu = 0, tc_thread = 0\<rparr>, tx_ring = None\<rparr>)"

lemma fresh_rx_fresh: "rx_fresh (fresh_rx n)"
  by (simp add: rx_fresh_def fresh_rx_def MAX_RX_QUEUE_PER_LCORE_def)

text \<open>
  C25: \<^verbatim>\<open>init_rx_queues\<close> of the pthread version succeeds exactly when no thread has more than 16
  queues; every thread then polls its own queues in the order of the parameters, and
  \<^verbatim>\<open>n_rx_thread\<close> is one more than the largest thread number.
\<close>

theorem init_rx_queues_correct:
  assumes "rx_fresh rt"
  shows "if queues_fit ps
    then \<exists>n rt'. pth_init_rx_queues ps rt = Inr (n, rt') \<and> unat n = thread_count ps \<and>
      (\<forall>t :: u8. unat (n_rx_queue (rt' (unat t))) = length (queues_of ps t) \<and>
        take (length (queues_of ps t)) (rx_queue_list (rt' (unat t))) = queues_of ps t)
    else pth_init_rx_queues ps rt = Inl (Failed ''too many queues'')"
  using rx_queue_run [OF assms, of ps "Failed ''too many queues''"]
  by (auto simp: pth_init_rx_queues_def rx_after_def Let_def)

lemma pth_default_queues: "queues_of pth_default_rx 1 = [(3, 1)]" "thread_count pth_default_rx = 2"
  by (simp_all add: queues_of_def pth_default_rx_def thread_count_def)

lemma length_queues_of: "length (queues_of ps t) \<le> length ps"
  by (simp add: queues_of_def)

lemma few_queues_fit: "length ps \<le> 16 \<Longrightarrow> queues_fit ps"
  using length_queues_of [of ps] order_trans unfolding queues_fit_def MAX_RX_QUEUE_PER_LCORE_def by blast

theorem init_rx_queues_correct_witness:
  "\<exists>n rt'. pth_init_rx_queues pth_default_rx (fresh_rx 128) = Inr (n, rt') \<and> unat n = 2 \<and>
     take 1 (rx_queue_list (rt' 1)) = [(3, 1)]"
proof -
  have "queues_fit pth_default_rx" by (rule few_queues_fit) (simp add: pth_default_rx_def)
  with init_rx_queues_correct [OF fresh_rx_fresh, of pth_default_rx 128] pth_default_queues show ?thesis
    by (force dest: spec [of _ "1 :: u8"])
qed

text \<open>
  C24: \<^verbatim>\<open>init_rx_rings\<close> gives every counting thread a ring of its own and every receiving thread
  the rings of the counting threads attached to it, in order, when all rings can be created and
  the ring array of \<^verbatim>\<open>RTE_MAX_LCORE\<close> pointers is large enough.
\<close>

theorem init_rx_rings_connects:
  assumes "\<forall>t. n_ring (rt t) = 0" and "\<forall>i < unat n. rx_of tt i \<le> unat n" and "\<And>a b c. mk a b c \<noteq> None"
    and "\<forall>t. length (conns tt (unat n) t) \<le> length (rx_ring (rt t))"
  shows "\<exists>rt' tt'. init_rx_rings socket_of mk n (rt, tt) = Inr (rt', tt') \<and>
    (\<forall>i < unat n. tx_ring (tt' i) = mk (socket_of (tc_lcore (rx_tc (rt (rx_of tt i))))) (rx_of tt i) i) \<and>
    (\<forall>t. unat (n_ring (rt' t)) = length (conns tt (unat n) t) \<and>
      take (length (conns tt (unat n) t)) (rx_ring (rt' t)) = map (\<lambda>i. tx_ring (tt' i)) (conns tt (unat n) t))"
  using init_rx_rings_run [of "(rt, tt)" n mk "unat n" socket_of] assms
  by (auto simp: init_rx_rings_def rings_after_def)

theorem init_rx_rings_connects_witness:
  "\<exists>rt' tt'. init_rx_rings (\<lambda>_. 0) (\<lambda>_ _ i. Some i) 2 (fresh_rx 128, snd (init_tx_threads pth_default_tx fresh_tx)) =
      Inr (rt', tt') \<and> take 1 (rx_ring (rt' 1)) = [Some 1]"
proof -
  let ?tt = "snd (init_tx_threads pth_default_tx fresh_tx)"
  have t: "rx_of ?tt 0 = 0" "rx_of ?tt 1 = 1"
    by (simp_all add: init_tx_threads_def pth_default_tx_def init_tx_step_def fresh_tx_def)
  have n: "unat (2 :: u16) = 2" "[0..<2] = [0, 1 :: nat]" by (simp_all add: upt_rec)
  have c: "conns ?tt 2 t = (if t = 0 then [0] else if t = 1 then [1] else [])" for t
    using t unfolding conns_def n by auto
  have "\<exists>rt' tt'. init_rx_rings (\<lambda>_. 0) (\<lambda>_ _ i. Some i) 2 (fresh_rx 128, ?tt) = Inr (rt', tt') \<and>
    (\<forall>i < unat (2 :: u16). tx_ring (tt' i) = Some i) \<and>
    (\<forall>t. unat (n_ring (rt' t)) = length (conns ?tt (unat (2 :: u16)) t) \<and>
      take (length (conns ?tt (unat (2 :: u16)) t)) (rx_ring (rt' t)) = map (\<lambda>i. tx_ring (tt' i)) (conns ?tt (unat (2 :: u16)) t))"
    by (rule init_rx_rings_connects)
      (use t in \<open>auto simp: n c fresh_rx_def less_2_cases_iff\<close>)
  then obtain rt' tt' where r: "init_rx_rings (\<lambda>_. 0) (\<lambda>_ _ i. Some i) 2 (fresh_rx 128, ?tt) = Inr (rt', tt')"
    "tx_ring (tt' 1) = Some 1"
    "take (length (conns ?tt (unat (2 :: u16)) 1)) (rx_ring (rt' 1)) = map (\<lambda>i. tx_ring (tt' i)) (conns ?tt (unat (2 :: u16)) 1)"
    by auto
  from r(2,3) have "take 1 (rx_ring (rt' 1)) = [Some 1]" unfolding n c by simp
  with r(1) show ?thesis by blast
qed

text \<open>
  C38: \<^verbatim>\<open>init_rx_rings\<close> tests the number of the receiving thread against \<^verbatim>\<open>n_tx_thread\<close>, with
  \<^verbatim>\<open>>\<close>. So it refuses to attach the only counting thread to the third of three receiving threads,
  and accepts a counting thread attached to thread 2 when there is only receiving thread 0: the
  ring it makes then is one that no thread fills.
\<close>

theorem init_rx_rings_wrong_bound:
  assumes "\<And>a b c. mk a b c \<noteq> None" and "1 \<le> max_lcore"
    and "rx3 = map (\<lambda>t. \<lparr>port_id = 0, queue_id = t, lcore_id = 2, thread_id = t\<rparr>) [0, 1, 2]"
    and "rx1 = [\<lparr>port_id = 0, queue_id = 0, lcore_id = 2, thread_id = 0\<rparr>]"
  shows "(\<exists>rt. pth_init_rx_queues rx3 (fresh_rx max_lcore) = Inr (3, rt) \<and>
      init_rx_rings socket_of mk 1 (rt, snd (init_tx_threads [\<lparr>t_lcore_id = 6, t_thread_id = 2\<rparr>] fresh_tx)) =
        Inl (Failed ''rx-thread not defined'')) \<and>
    (\<exists>rt rt' tt'. pth_init_rx_queues rx1 (fresh_rx max_lcore) = Inr (1, rt) \<and>
      init_rx_rings socket_of mk 2 (rt, snd (init_tx_threads [\<lparr>t_lcore_id = 6, t_thread_id = 0\<rparr>,
        \<lparr>t_lcore_id = 8, t_thread_id = 2\<rparr>] fresh_tx)) = Inr (rt', tt') \<and> unat (n_ring (rt' 2)) = 1)"
proof
  show "\<exists>rt. pth_init_rx_queues rx3 (fresh_rx max_lcore) = Inr (3, rt) \<and>
      init_rx_rings socket_of mk 1 (rt, snd (init_tx_threads [\<lparr>t_lcore_id = 6, t_thread_id = 2\<rparr>] fresh_tx)) =
        Inl (Failed ''rx-thread not defined'')"
    by (simp add: assms(3) pth_init_rx_queues_def rx_queue_step_def fresh_rx_def MAX_RX_QUEUE_PER_LCORE_def
        init_rx_rings_def init_tx_threads_def init_tx_step_def rx_ring_step_def fresh_tx_def)
  let ?tt = "snd (init_tx_threads [\<lparr>t_lcore_id = 6, t_thread_id = 0\<rparr>, \<lparr>t_lcore_id = 8, t_thread_id = 2\<rparr>] fresh_tx)"
  have t: "rx_of ?tt 0 = 0" "rx_of ?tt 1 = 2"
    by (simp_all add: init_tx_threads_def init_tx_step_def fresh_tx_def)
  have n: "unat (2 :: u16) = 2" "[0..<2] = [0, 1 :: nat]" by (simp_all add: upt_rec)
  have c: "conns ?tt 2 t = (if t = 0 then [0] else if t = 2 then [1] else [])" for t
    using t unfolding conns_def n by auto
  have q: "queues_fit rx1" by (rule few_queues_fit) (simp add: assms(4))
  obtain r where r: "pth_init_rx_queues rx1 (fresh_rx max_lcore) = Inr r" "rx_after (fresh_rx max_lcore) rx1 r"
    using rx_queue_run [OF fresh_rx_fresh [of max_lcore], of rx1 "Failed ''too many queues''"] q
    unfolding pth_init_rx_queues_def by blast
  have "thread_count rx1 = 1" by (simp add: thread_count_def assms(4))
  then have "unat (fst r) = 1" using r(2) by (simp add: rx_after_def)
  then have one: "fst r = 1" by (simp add: word_unat_eq_iff)
  have f: "rx_ring (snd r t) = rx_ring (fresh_rx max_lcore t)" "n_ring (snd r t) = 0" for t
    using r(2) by (simp_all add: rx_after_def fresh_rx_def)
  have room: "\<forall>t. length (conns ?tt (unat (2 :: u16)) t) \<le> length (rx_ring (snd r t))"
    using assms(2) by (simp add: n c f fresh_rx_def)
  have le: "\<forall>i < unat (2 :: u16). rx_of ?tt i \<le> unat (2 :: u16)"
    using t by (simp add: n less_2_cases_iff)
  obtain s' where s': "init_rx_rings socket_of mk 2 (snd r, ?tt) = Inr s'"
      "rings_after socket_of mk (snd r, ?tt) (unat (2 :: u16)) s'"
    using init_rx_rings_run [of "(snd r, ?tt)" 2 mk "unat (2 :: u16)" socket_of] assms(1) f(2) room le
    by (auto simp: init_rx_rings_def)
  have "unat (n_ring (fst s' 2)) = 1" using s'(2) by (simp add: rings_after_def n c)
  moreover have "pth_init_rx_queues rx1 (fresh_rx max_lcore) = Inr (1, snd r)" using r(1) one by (cases r) simp
  ultimately show "\<exists>rt rt' tt'. pth_init_rx_queues rx1 (fresh_rx max_lcore) = Inr (1, rt) \<and>
      init_rx_rings socket_of mk 2 (rt, ?tt) = Inr (rt', tt') \<and> unat (n_ring (rt' 2)) = 1"
    using s'(1) by (cases s') auto
qed

theorem init_rx_rings_wrong_bound_witness:
  "\<exists>rt. pth_init_rx_queues (map (\<lambda>t. \<lparr>port_id = 0, queue_id = t, lcore_id = 2, thread_id = t\<rparr>) [0, 1, 2])
      (fresh_rx 128) = Inr (3, rt) \<and>
    init_rx_rings (\<lambda>_. 0) (\<lambda>_ _ i. Some i) 1
      (rt, snd (init_tx_threads [\<lparr>t_lcore_id = 6, t_thread_id = 2\<rparr>] fresh_tx)) =
      Inl (Failed ''rx-thread not defined'')"
  by (rule init_rx_rings_wrong_bound [THEN conjunct1]) simp_all

section \<open>Checks and pools of the L-thread version\<close>

definition port_queues :: "rx_params list \<Rightarrow> u8 \<Rightarrow> nat set" where
  "port_queues ps port = (\<lambda>p. unat (queue_id p)) ` {p \<in> set ps. port_id p = port}"

lemma fold_largest:
  fixes f :: "'a \<Rightarrow> int"
  shows "fold (\<lambda>p q. if P p \<and> f p > q then f p else q) ps a = Max (insert a (f ` {p \<in> set ps. P p}))"
proof -
  have "fold (\<lambda>p q. if P p \<and> f p > q then f p else q) ps a = fold max (map f (filter P ps)) a"
    by (induction ps arbitrary: a) (auto simp: max_def)
  also have "\<dots> = Max (set (a # map f (filter P ps)))" by (rule Max.set_eq_fold [symmetric])
  finally show ?thesis by simp
qed

lemma port_fold:
  "fold (\<lambda>p q. if port_id p = port \<and> int (unat (queue_id p)) > q then int (unat (queue_id p)) else q) ps a =
     Max (insert a (int ` port_queues ps port))"
  using fold_largest [of "\<lambda>p. port_id p = port" "\<lambda>p. int (unat (queue_id p))" ps a]
  by (simp only: port_queues_def image_image)

lemma port_queues_list: "port_queues ps port = set (map (\<lambda>p. unat (queue_id p)) (filter (\<lambda>p. port_id p = port) ps))"
  by (auto simp: port_queues_def)

lemma check_lcore_queues: "check_lcore_params enabled ps = Inr () \<Longrightarrow> q \<in> port_queues ps port \<Longrightarrow> q < 128"
  by (induction ps) (auto simp: port_queues_def MAX_RX_QUEUE_PER_PORT_def split: if_splits)

text \<open>
  With parameters that pass \<^verbatim>\<open>check_lcore_params\<close>, \<^verbatim>\<open>get_port_n_rx_queues\<close> is one more
  than the largest queue number of the port, and zero for a port without queues: the 8-bit result
  does not wrap.
\<close>

theorem get_port_n_rx_queues_correct:
  assumes "check_lcore_params enabled ps = Inr ()"
  shows "unat (get_port_n_rx_queues ps port) =
    (if port_queues ps port = {} then 0 else Max (port_queues ps port) + 1)"
proof (cases "port_queues ps port = {}")
  case True
  then show ?thesis unfolding get_port_n_rx_queues_def port_fold by simp
next
  case False
  let ?Q = "port_queues ps port"
  have fin: "finite ?Q" by (simp add: port_queues_def)
  have m: "Max ?Q < 128" by (rule check_lcore_queues [OF assms Max_in [OF fin False]])
  have "Max (insert (-1) (int ` ?Q)) = int (Max ?Q)"
    using fin False by (simp add: mono_Max_commute [of int, symmetric] mono_def)
  then have "get_port_n_rx_queues ps port = of_nat (Max ?Q + 1)"
    unfolding get_port_n_rx_queues_def port_fold by simp
  with m False show ?thesis by (simp add: unat_of_nat_small del: of_nat_Suc of_nat_add)
qed

theorem get_port_n_rx_queues_correct_witness:
  "unat (get_port_n_rx_queues lt_default_rx 1) = 3"
proof -
  have "check_lcore_params (\<lambda>_. True) lt_default_rx = Inr ()"
    by (simp add: lt_default_rx_def MAX_RX_QUEUE_PER_PORT_def)
  moreover have "port_queues lt_default_rx 1 = {0, 1, 2}"
    by (simp add: port_queues_list lt_default_rx_def)
  ultimately show ?thesis using get_port_n_rx_queues_correct [of "\<lambda>_. True" lt_default_rx 1] by simp
qed

text \<open>
  \<^verbatim>\<open>init_mem1\<close> makes a pool per receiving thread in an array of \<^verbatim>\<open>NB_SOCKETS\<close> pointers: it
  works for at most four receiving threads and writes past the array for more, in particular for
  the nine threads of the default parameters.
\<close>

theorem init_mem1_bound:
  assumes "\<And>q. mk_pool q \<noteq> None" and "length pool = NB_SOCKETS"
  shows "init_mem1 mk_pool n pool =
    (if unat n \<le> NB_SOCKETS then Inr (map mk_pool [0..<unat n] @ drop (unat n) pool)
     else Inl (Undefined ''pktmbuf_pool index out of range''))"
proof -
  let ?ok = "\<lambda>k. map mk_pool [0..<k] @ drop k pool"
  have step: "init_mem_step mk_pool k (?ok k) = Inr (?ok (Suc k))" if "k < NB_SOCKETS" for k
  proof -
    obtain p where "mk_pool k = Some p" using assms(1) by blast
    moreover have "drop k pool = pool ! k # drop (Suc k) pool"
      using that assms(2) by (simp add: Cons_nth_drop_Suc)
    ultimately show ?thesis using that assms(2) by (simp add: init_mem_step_def list_update_append)
  qed
  have ok: "run (init_mem_step mk_pool) [0..<k] pool = Inr (?ok k)" if "k \<le> NB_SOCKETS" for k
    using that by (induction k) (simp_all add: run_append step)
  show ?thesis
  proof (cases "unat n \<le> NB_SOCKETS")
    case True
    with ok show ?thesis by (simp add: init_mem1_def)
  next
    case False
    then have "[0..<unat n] = [0..<NB_SOCKETS] @ NB_SOCKETS # [Suc NB_SOCKETS..<unat n]"
      using upt_add_eq_append [of 0 NB_SOCKETS "unat n - NB_SOCKETS"] by (simp add: upt_conv_Cons)
    with ok [of NB_SOCKETS] assms(2) False show ?thesis
      by (simp add: init_mem1_def run_append init_mem_step_def)
  qed
qed

theorem init_mem1_bound_witness:
  "init_mem1 Some 2 [None, None, None, None] = Inr [Some 0, Some 1, None, None] \<and>
   (\<exists>x. init_mem1 Some (of_nat (thread_count lt_default_rx)) [None, None, None, None] = Inl (Undefined x))"
proof -
  have n: "unat (2 :: u16) = 2" "[0..<2] = [0, 1 :: nat]" by (simp_all add: upt_rec)
  have "thread_count lt_default_rx = 9" by (simp add: thread_count_def lt_default_rx_def)
  then show ?thesis
    using init_mem1_bound [of Some "[None, None, None, None]" 2] init_mem1_bound [of Some "[None, None, None, None]" 9]
    by (simp add: NB_SOCKETS_def n)
qed

end
