(* ===== verification/Pipeline.thy ===== *)
theory Pipeline
  imports Double_Hash Thread_Config "HOL-Library.Sublist" "HOL-Library.Multiset"
begin

text \<open>
  The receiving threads and their rings: the pthread receive loop, the L-thread receive loop with
  its round robin over the rings and its wake-up counters, and the system a receiving and a
  counting thread make. The ring library is a parameter: \<open>enq\<close> is the burst enqueue, which returns
  how many packets it took, \<open>deq\<close> the burst dequeue.
\<close>

section \<open>The ring library\<close>

type_synonym 'r enq = "mbuf list \<Rightarrow> 'r \<Rightarrow> nat \<times> 'r"
type_synonym 'r deq = "nat \<Rightarrow> 'r \<Rightarrow> mbuf list \<times> 'r"

text \<open>
  The documented behaviour of \<^verbatim>\<open>rte_ring\<close>: a first-in first-out queue, whose burst enqueue appends a
  prefix of the given packets and whose burst dequeue removes as many as there are, up to \<open>n\<close>.
\<close>

definition fifo_ring :: "('r \<Rightarrow> mbuf list) \<Rightarrow> 'r enq \<Rightarrow> 'r deq \<Rightarrow> bool" where
  "fifo_ring contents enq deq \<longleftrightarrow>
     (\<forall>bufs r k r'. enq bufs r = (k, r') \<longrightarrow> k \<le> length bufs \<and> contents r' = contents r @ take k bufs) \<and>
     (\<forall>n r out r'. deq n r = (out, r') \<longrightarrow>
        length out = min n (length (contents r)) \<and> contents r = out @ contents r')"

text \<open>A bounded queue with this behaviour.\<close>

definition list_enq :: "nat \<Rightarrow> mbuf list enq" where
  "list_enq capacity bufs r = (let k = min (length bufs) (capacity - length r) in (k, r @ take k bufs))"

definition list_deq :: "mbuf list deq" where
  "list_deq n r = (take n r, drop n r)"

lemma fifo_list_ring: "fifo_ring (\<lambda>r. r) (list_enq capacity) list_deq"
  by (auto simp: fifo_ring_def list_enq_def list_deq_def Let_def)

section \<open>pthread version\<close>

text \<open>
  One burst of \<^verbatim>\<open>lcore_main_rx\<close>: the packets go to the thread's first ring. The number the ring took
  is not looked at.
\<close>

definition lcore_main_rx :: "'r enq \<Rightarrow> mbuf list \<Rightarrow> 'r option list \<Rightarrow> fw_error + 'r option list" where
  "lcore_main_rx enq bufs ring =
     (if bufs = [] then Inr ring
      else case ring ! 0 of
        None \<Rightarrow> Inl (Undefined ''null ring'')
      | Some r \<Rightarrow> (let (k, r') = enq bufs r in Inr (ring[0 := Some r'])))"

text \<open>
  A step of the system of a receiving thread and the counting thread on its first ring: a burst
  from the NIC, or one round of the counting loop \<open>counting\<close> on what it dequeues. Any interleaving of
  the two threads is a list of steps, because the ring calls are the only shared access.
\<close>

datatype pipe_act = Rx "mbuf list" | Tx

definition pth_pipe_step ::
  "'r enq \<Rightarrow> 'r deq \<Rightarrow> nat \<Rightarrow> (mbuf list \<Rightarrow> 'b mon_state \<Rightarrow> fw_error + 'b mon_state) \<Rightarrow> pipe_act
     \<Rightarrow> 'r option list \<times> 'b mon_state \<Rightarrow> fw_error + 'r option list \<times> 'b mon_state"
where
  "pth_pipe_step enq deq burst_size counting a s =
     (case a of
        Rx bufs \<Rightarrow> sbind (lcore_main_rx enq bufs (fst s)) (\<lambda>ring. Inr (ring, snd s))
      | Tx \<Rightarrow>
          (case fst s ! 0 of
             None \<Rightarrow> Inl (Undefined ''null ring'')
           | Some r \<Rightarrow>
               (let (bufs, r') = deq burst_size r
                in sbind (counting bufs (snd s)) (\<lambda>m. Inr ((fst s)[0 := Some r'], m)))))"

text \<open>The packets the NIC hands to the system.\<close>

definition received :: "pipe_act list \<Rightarrow> mbuf list" where
  "received as = concat (map (\<lambda>a. case a of Rx bufs \<Rightarrow> bufs | Tx \<Rightarrow> []) as)"

text \<open>
  \<^verbatim>\<open>main\<close> allocates the counters \<^verbatim>\<open>gCtr\<close> with as many elements as \<^verbatim>\<open>n_rx_thread\<close> says at that
  moment.
\<close>

definition pth_alloc_gctr :: "u16 \<Rightarrow> u64 list" where
  "pth_alloc_gctr n_rx_thread = replicate (unat n_rx_thread) 0"

section \<open>L-thread version\<close>

definition BURST_SIZE :: int where
  "BURST_SIZE = 256"

text \<open>
  The state of \<^verbatim>\<open>lthread_rx\<close>. \<open>signals\<close> is the sequence of calls of \<^verbatim>\<open>lthread_cond_signal\<close>, each with the
  index of the worker and whether its condition variable has been initialised.
\<close>

record 'r lt_rx =
  worker_id :: int
  len :: "int list"
  lt_ring :: "'r option list"
  batch_n :: "int list"
  ring_loss :: int
  signals :: "(nat \<times> bool) list"
  rx_freed :: "mbuf list"

definition c_int_add :: "int \<Rightarrow> int \<Rightarrow> fw_error + int" where
  "c_int_add a b = (if fits_int (a + b) then Inr (a + b) else Inl (Undefined ''int overflow''))"

text \<open>The condition variables: one is initialised per receive queue.\<close>

definition lt_init_ready :: "u16 \<Rightarrow> bool list \<Rightarrow> fw_error + bool list" where
  "lt_init_ready nq ready =
     run (\<lambda>i r. if i < length r then Inr (r[i := True]) else Inl (Undefined ''ready index out of range''))
       [0..<unat nq] ready"

text \<open>What happens with the packets of one burst once the ring \<open>r\<close> of worker \<open>w\<close> is chosen.\<close>

definition lt_rx_enqueue ::
  "'r enq \<Rightarrow> bool list \<Rightarrow> nat \<Rightarrow> 'r \<Rightarrow> mbuf list \<Rightarrow> 'r lt_rx \<Rightarrow> fw_error + 'r lt_rx"
where
  "lt_rx_enqueue enq ready w r pkts s =
     (let (ret, r') = enq pkts r
      in sbind (c_int_add (len s ! w) (int ret)) (\<lambda>new_len.
         let (sigs, new_len) = (if new_len \<ge> BURST_SIZE then (signals s @ [(w, ready ! w)], 0)
                                else (signals s, new_len));
             s = s\<lparr>lt_ring := (lt_ring s)[w := Some r'], signals := sigs, len := (len s)[w := new_len]\<rparr>
         in if ret < length pkts then
              sbind (c_int_add (ring_loss s) (int (length pkts) - int ret)) (\<lambda>loss.
              Inr (s\<lparr>ring_loss := loss, rx_freed := rx_freed s @ drop ret pkts\<rparr>))
            else Inr s))"

definition lthread_rx_burst ::
  "'r enq \<Rightarrow> u16 \<Rightarrow> bool list \<Rightarrow> nat \<times> mbuf list \<Rightarrow> 'r lt_rx \<Rightarrow> fw_error + 'r lt_rx"
where
  "lthread_rx_burst enq nr ready e s =
     (let (queueid, pkts) = e in
      if pkts = [] then Inr s
      else if queueid \<ge> length (batch_n s) then Inl (Undefined ''batch_n index out of range'')
      else sbind (c_int_add (batch_n s ! queueid) 1) (\<lambda>b.
        if nr = 0 then Inl (Undefined ''division by zero'')
        else
          (let w = nat ((worker_id s + 1) mod int (unat nr));
               s = s\<lparr>batch_n := (batch_n s)[queueid := b], worker_id := int w\<rparr>
           in if w \<ge> length (lt_ring s) then Inl (Undefined ''ring index out of range'')
              else case lt_ring s ! w of
                None \<Rightarrow> Inl (Undefined ''null ring'')
              | Some r \<Rightarrow> lt_rx_enqueue enq ready w r pkts s)))"

definition lt_rx_start :: "'r option list \<Rightarrow> int list \<Rightarrow> 'r lt_rx" where
  "lt_rx_start ring batches = \<lparr>worker_id = 0, len = replicate (length ring) 0, lt_ring = ring, batch_n = batches,
     ring_loss = 0, signals = [], rx_freed = []\<rparr>"

end
