(* ===== verification/Pipeline_Correct.thy ===== *)
theory Pipeline_Correct
  imports Pipeline Hash_List_Correct Thread_Config_Correct
begin

text \<open>
  What reaches the counting threads: the pthread pipeline keeps the order of what it keeps and
  leaks what a full ring refuses; the L-thread receive loop deals the bursts round robin, frees
  what a full ring refuses and wakes a consumer once per 256 packets.
\<close>

section \<open>pthread pipeline\<close>

text \<open>What the pipeline needs of a counting loop: it frees what it is given, in order.\<close>

locale pipe_consumer =
  fixes counting :: "mbuf list \<Rightarrow> 'b mon_state \<Rightarrow> fw_error + 'b mon_state"
  assumes counting_frees: "counting bufs m = Inr m' \<Longrightarrow> freed m' = freed m @ bufs"
begin

lemma run_counting_frees: "run counting bss m = Inr m' \<Longrightarrow> freed m' = freed m @ concat bss"
proof (induction bss arbitrary: m)
  case Nil
  then show ?case by simp
next
  case (Cons b bss)
  from Cons.prems obtain u where u: "counting b m = Inr u" "run counting bss u = Inr m'" by (rule run_ConsE)
  from Cons.IH [OF u(2)] counting_frees [OF u(1)] show ?case by simp
qed

lemma pipe_run:
  assumes "fifo_ring contents enq deq" and "run (pth_pipe_step enq deq n counting) as s = Inr s'"
    and "fst s \<noteq> []" and "fst s ! 0 = Some r"
  shows "\<exists>r' bss kept. fst s' ! 0 = Some r' \<and> run counting bss (snd s) = Inr (snd s') \<and>
    subseq kept (received as) \<and> contents r @ kept = concat bss @ contents r'"
  using assms(2-4)
proof (induction as arbitrary: s r)
  case Nil
  then show ?case by (intro exI [of _ r] exI [of _ "[]"]) (simp add: received_def)
next
  case (Cons a as)
  from Cons.prems(1) obtain u where u: "pth_pipe_step enq deq n counting a s = Inr u"
    "run (pth_pipe_step enq deq n counting) as u = Inr s'" by (rule run_ConsE)
  show ?case
  proof (cases a)
    case (Rx bufs)
    obtain k q where q: "enq bufs r = (k, q)" by (cases "enq bufs r")
    then have c: "contents q = contents r @ take k bufs" using assms(1) unfolding fifo_ring_def by blast
    have "\<exists>q' j. u = ((fst s)[0 := Some q'], snd s) \<and> contents q' = contents r @ take j bufs"
    proof (cases "bufs = []")
      case True
      then have "u = s" using u(1) Rx Cons.prems(2,3) by (simp add: pth_pipe_step_def lcore_main_rx_def)
      then have "u = ((fst s)[0 := Some r], snd s)"
        using Cons.prems(2,3) by (metis list_update_id prod.collapse)
      with True show ?thesis by auto
    next
      case False
      with u(1) Rx Cons.prems(3) q have "u = ((fst s)[0 := Some q], snd s)"
        by (simp add: pth_pipe_step_def lcore_main_rx_def)
      with c show ?thesis by blast
    qed
    then obtain q' j where w: "u = ((fst s)[0 := Some q'], snd s)" "contents q' = contents r @ take j bufs" by blast
    from Cons.IH [OF u(2), of q'] w(1) Cons.prems(2) obtain r' bss kept where
      e: "fst s' ! 0 = Some r'" "run counting bss (snd s) = Inr (snd s')" "subseq kept (received as)"
        "contents q' @ kept = concat bss @ contents r'" by auto
    have "subseq (take j bufs @ kept) (received (a # as))"
      using e(3) by (simp add: received_def Rx list_emb_append_mono prefix_imp_subseq take_is_prefix)
    with e w(2) show ?thesis by (intro exI [of _ r'] exI [of _ bss] exI [of _ "take j bufs @ kept"]) simp
  next
    case Tx
    obtain bufs q where q: "deq n r = (bufs, q)" by (cases "deq n r")
    then have c: "contents r = bufs @ contents q" using assms(1) unfolding fifo_ring_def by blast
    from u(1) Tx Cons.prems(3) q obtain m where m: "counting bufs (snd s) = Inr m" "u = ((fst s)[0 := Some q], m)"
      by (auto simp: pth_pipe_step_def sbind_Inr_iff)
    from Cons.IH [OF u(2), of q] m(2) Cons.prems(2) obtain r' bss kept where
      e: "fst s' ! 0 = Some r'" "run counting bss m = Inr (snd s')" "subseq kept (received as)"
        "contents q @ kept = concat bss @ contents r'" by auto
    have "run counting (bufs # bss) (snd s) = Inr (snd s')" using m(1) e(2) by simp
    moreover have "received (a # as) = received as" by (simp add: received_def Tx)
    ultimately show ?thesis using e c by (intro exI [of _ r'] exI [of _ "bufs # bss"] exI [of _ kept]) simp
  qed
qed

end

interpretation pth_dh_pipe: pipe_consumer "pth_count_double_hash c 16 n_rx q" for c n_rx q
  by unfold_locales (rule pth_double_hash_frees)

interpretation pth_ll_pipe: pipe_consumer "pth_count_linked_list c 16 mem n_rx q" for c mem n_rx q
  by unfold_locales (rule pth_linked_list_frees)

interpretation pth_hl_pipe: pipe_consumer "pth_count_hash_list c mem softrss pkt_data n_rx q"
  for c mem softrss pkt_data n_rx q
  by unfold_locales (rule pth_hash_list_frees)

lemma subseq_in_set: "subseq xs ys \<Longrightarrow> x \<in> set xs \<Longrightarrow> x \<in> set ys"
  by (auto elim: list_emb_set)

lemma pth_pipe_returns:
  assumes "n_rx \<le> length (rings (snd s))" and "q < length (rings (snd s))" and "fst s \<noteq> []" and "fst s ! 0 \<noteq> None"
  shows "\<exists>s'. run (pth_pipe_step enq deq n (pth_count_double_hash c 16 n_rx q)) as s = Inr s'"
proof -
  let ?I = "\<lambda>u :: 'a option list \<times> u64 pkt_count_sd mon_state.
    length (rings (snd u)) = length (rings (snd s)) \<and> fst u \<noteq> [] \<and> fst u ! 0 \<noteq> None"
  have "\<exists>s'. run (pth_pipe_step enq deq n (pth_count_double_hash c 16 n_rx q)) as s = Inr s' \<and> ?I s'"
  proof (rule run_progress)
    fix a u
    assume I: "?I u"
    show "\<exists>s'. pth_pipe_step enq deq n (pth_count_double_hash c 16 n_rx q) a u = Inr s' \<and> ?I s'"
    proof (cases a)
      case (Rx bufs)
      with I show ?thesis
        by (cases u) (auto simp: pth_pipe_step_def lcore_main_rx_def nth_list_update split: prod.split)
    next
      case Tx
      obtain bufs r' where d: "deq n (the (fst u ! 0)) = (bufs, r')" by (cases "deq n (the (fst u ! 0))")
      have "\<exists>m. pth_count_double_hash c 16 n_rx q bufs (snd u) = Inr m \<and> length (rings m) = length (rings (snd u))"
        using pth_double_hash_returns [where s = "snd u" and n_rx = n_rx and q = q and c = c and bufs = bufs] I assms(1,2) by auto
      with I Tx d show ?thesis by (auto simp: pth_pipe_step_def)
    qed
  qed (use assms(3,4) in simp)
  then show ?thesis by blast
qed

text \<open>
  C2: The pthread pipeline from the NIC to the flow table, under any interleaving of the receiving
  and the counting thread: the packets the ring accepts are a subsequence of those received; they are counted and
  freed once each, in order, or are still in the ring; and the flow table is exact for the counted ones.
\<close>

theorem pth_pipeline_counts:
  assumes "fifo_ring contents enq deq" and "contents r = []" and "ring = Some r # other"
    and "n_rx \<le> length (rings s)" and "q < length (rings s)"
    and "\<forall>i < FLOW_NUM. length (ctr (t i)) = 3" and "tbl s = init_table (dh_init_bucket c) t"
    and "\<forall>m \<in> set (received as). h_tag (rss m) \<noteq> 0"
  shows "\<exists>s' r' kept counted. run (pth_pipe_step enq deq n (pth_count_double_hash c 16 n_rx q)) as (ring, s) = Inr s' \<and>
    fst s' ! 0 = Some r' \<and> subseq kept (received as) \<and> kept = counted @ contents r' \<and>
    freed (snd s') = freed s @ counted \<and> two_flow_counts (\<lambda>i. slots (tbl (snd s') i)) counted"
proof -
  obtain s' where s': "run (pth_pipe_step enq deq n (pth_count_double_hash c 16 n_rx q)) as (ring, s) = Inr s'"
    using pth_pipe_returns [where s = "(ring, s)" and n_rx = n_rx and q = q and c = c and as = as and n = n and enq = enq and deq = deq] assms(3-5) by auto
  obtain r' bss kept where e: "fst s' ! 0 = Some r'" "subseq kept (received as)" "contents r @ kept = concat bss @ contents r'"
    and r: "run (pth_count_double_hash c 16 n_rx q) bss s = Inr (snd s')"
    using pth_dh_pipe.pipe_run [OF assms(1) s', of r] assms(3) by auto
  have run: "run (\<lambda>(q, bufs). pth_count_double_hash c 16 n_rx q bufs) (map (Pair q) bss) s = Inr (snd s')"
    using r by (simp add: run_premap)
  have ms: "packets (map (Pair q) bss) = concat bss" by (simp add: comp_def)
  have "kept = concat bss @ contents r'" using e(3) assms(2) by simp
  then have "set (concat bss) \<subseteq> set (received as)" using subseq_in_set [OF e(2)] by auto
  then have v: "\<forall>m \<in> set (packets (map (Pair q) bss)). h_tag (rss m) \<noteq> 0" using assms(8) unfolding ms by blast
  obtain u es where u: "run (\<lambda>(q, bufs). pth_count_double_hash c 16 n_rx q bufs) (map (Pair q) bss) s = Inr u"
    "run (table_upd bucket_of (pth_dh_upd c 16)) es (tbl s) = Inr (tbl u)"
    "map snd es = packets (map (Pair q) bss)" "\<forall>i < FLOW_NUM. slot_empty 3 (slots (tbl s i))"
    by (rule pth_dh_start [OF assms(4) _ assms(6,7), of "map (Pair q) bss"]) (use assms(5) in auto)
  have "two_flow_counts (\<lambda>i. slots (tbl (snd s') i)) (concat bss)"
    using pth_dh.table_two_flow_counts [OF u(2-4) v] u(1) run ms by simp
  moreover have "freed (snd s') = freed s @ concat bss" by (rule pth_dh_pipe.run_counting_frees [OF r])
  ultimately show ?thesis using s' e assms(2) by (metis append_Nil)
qed

theorem pth_pipeline_counts_witness:
  "\<exists>s' r' kept counted. run (pth_pipe_step (list_enq 4) list_deq 256 (pth_count_double_hash ex_cfg 16 1 0))
      [Rx (packets ex_bursts), Tx, Rx (packets ex_bursts)]
      ([Some []], ex_state (init_table (dh_init_bucket ex_cfg) (\<lambda>_. pth_zero))) = Inr s' \<and>
    fst s' ! 0 = Some r' \<and> subseq kept (packets ex_bursts @ packets ex_bursts) \<and> kept = counted @ r' \<and>
    freed (snd s') = counted \<and> two_flow_counts (\<lambda>i. slots (tbl (snd s') i)) counted"
  using pth_pipeline_counts [OF fifo_list_ring [of 4] refl refl, where s = "ex_state (init_table (dh_init_bucket ex_cfg) (\<lambda>_. pth_zero))"
      and n_rx = 1 and q = 0 and t = "\<lambda>_. pth_zero" and c = ex_cfg and n = 256
      and as = "[Rx (packets ex_bursts), Tx, Rx (packets ex_bursts)]"] ex_bursts_facts(1)
  by (simp add: received_def pth_zero_def)

text \<open>
  C34: A burst the ring does not take whole is a leak: the receive loop ignores how many packets
  were enqueued, and the others are in no ring and never freed, whatever the threads do afterwards.
\<close>

theorem pth_rx_leak:
  assumes "fifo_ring contents enq deq" and "enq bufs r = (k, r1)" and "m \<in> set (drop k bufs)"
    and "ring = Some r # other"
    and "run (pth_pipe_step enq deq n (pth_count_double_hash c 16 n_rx q)) (Rx bufs # as) (ring, s) = Inr s'"
    and "m \<notin> set (take k bufs @ contents r @ freed s @ received as)"
  shows "\<exists>r'. fst s' ! 0 = Some r' \<and> m \<notin> set (contents r') \<and> m \<notin> set (freed (snd s'))"
proof -
  have "bufs \<noteq> []" using assms(3) by auto
  then have "pth_pipe_step enq deq n (pth_count_double_hash c 16 n_rx q) (Rx bufs) (ring, s) = Inr (Some r1 # other, s)"
    by (simp add: pth_pipe_step_def lcore_main_rx_def assms(2,4))
  with assms(5) have s': "run (pth_pipe_step enq deq n (pth_count_double_hash c 16 n_rx q)) as (Some r1 # other, s) = Inr s'"
    by simp
  obtain r' bss kept where e: "fst s' ! 0 = Some r'" "run (pth_count_double_hash c 16 n_rx q) bss s = Inr (snd s')"
      "subseq kept (received as)" "contents r1 @ kept = concat bss @ contents r'"
    using pth_dh_pipe.pipe_run [OF assms(1) s', of r1] by auto
  have "contents r1 = contents r @ take k bufs" using assms(1,2) unfolding fifo_ring_def by blast
  then have "m \<notin> set (concat bss @ contents r')"
    unfolding e(4) [symmetric] using assms(6) e(3) by (auto dest: subseq_in_set)
  with pth_dh_pipe.run_counting_frees [OF e(2)] assms(6) e(1) show ?thesis by simp
qed

theorem pth_rx_leak_witness:
  "\<exists>s'. run (pth_pipe_step (list_enq 1) list_deq 256 (pth_count_double_hash ex_cfg 16 1 0))
      [Rx [\<lparr>mb_id = 1, rss = 7\<rparr>, \<lparr>mb_id = 2, rss = 7\<rparr>], Tx] ([Some []], ex_state (\<lambda>_. pth_zero)) = Inr s' \<and>
    (\<exists>r'. fst s' ! 0 = Some r' \<and> \<lparr>mb_id = 2, rss = 7\<rparr> \<notin> set r' \<and> \<lparr>mb_id = 2, rss = 7\<rparr> \<notin> set (freed (snd s')))"
proof -
  obtain s' where s': "run (pth_pipe_step (list_enq 1) list_deq 256 (pth_count_double_hash ex_cfg 16 1 0))
      [Rx [\<lparr>mb_id = 1, rss = 7\<rparr>, \<lparr>mb_id = 2, rss = 7\<rparr>], Tx] ([Some []], ex_state (\<lambda>_. pth_zero)) = Inr s'"
    using pth_pipe_returns [where s = "([Some []], ex_state (\<lambda>_. pth_zero))" and n_rx = 1 and q = 0
        and enq = "list_enq 1" and deq = list_deq and n = 256 and c = ex_cfg
        and as = "[Rx [\<lparr>mb_id = 1, rss = 7\<rparr>, \<lparr>mb_id = 2, rss = 7\<rparr>], Tx]"] by (auto simp del: run.simps)
  from pth_rx_leak [OF fifo_list_ring _ _ refl s', of 1 "[\<lparr>mb_id = 1, rss = 7\<rparr>]" "\<lparr>mb_id = 2, rss = 7\<rparr>"] s'
  show ?thesis by (simp add: list_enq_def received_def)
qed



section \<open>L-thread receive loop\<close>

text \<open>
  The bursts that reach worker \<open>w\<close> of \<open>n\<close>: the \<open>i\<close>-th non-empty burst (from zero) goes to worker
  \<open>(i + 1) mod n\<close>.
\<close>

definition share :: "nat \<Rightarrow> mbuf list list \<Rightarrow> nat \<Rightarrow> mbuf list" where
  "share n bss w = concat (map snd (filter (\<lambda>(i, b). (i + 1) mod n = w) (enumerate 0 bss)))"

abbreviation busy :: "(nat \<times> mbuf list) list \<Rightarrow> (nat \<times> mbuf list) list" where
  "busy bs \<equiv> filter (\<lambda>b. snd b \<noteq> []) bs"

text \<open>
  The state after the bursts \<open>bs\<close>, for initial rings \<open>ring0\<close> and \<open>L\<close> queue counters; \<open>E w\<close> are the
  packets ring \<open>w\<close> took.
\<close>

definition lt_after ::
  "('r \<Rightarrow> mbuf list) \<Rightarrow> nat \<Rightarrow> 'r option list \<Rightarrow> nat \<Rightarrow> (nat \<times> mbuf list) list \<Rightarrow> (nat \<Rightarrow> mbuf list) \<Rightarrow> 'r lt_rx \<Rightarrow> bool"
where
  "lt_after contents n ring0 L bs E s \<longleftrightarrow>
     worker_id s = int (length (busy bs) mod n) \<and>
     length (len s) = length ring0 \<and> length (lt_ring s) = length ring0 \<and> length (batch_n s) = L \<and>
     (\<forall>w < n. \<exists>r0 r. ring0 ! w = Some r0 \<and> lt_ring s ! w = Some r \<and> contents r = contents r0 @ E w) \<and>
     (\<forall>w < n. subseq (E w) (share n (map snd (busy bs)) w)) \<and>
     (\<forall>w < n. 0 \<le> len s ! w \<and> len s ! w < BURST_SIZE) \<and>
     (\<forall>w < n. w \<in> fst ` set (signals s) \<longleftrightarrow> 256 \<le> length (E w)) \<and>
     (\<forall>w < n. length (E w) < 256 \<longrightarrow> len s ! w = int (length (E w))) \<and>
     mset (packets bs) = mset (rx_freed s) + (\<Sum>w < n. mset (E w)) \<and>
     ring_loss s = int (length (rx_freed s)) \<and>
     (\<forall>q < L. batch_n s ! q = int (length (filter (\<lambda>b. fst b = q) (busy bs))))"

lemma share_snoc: "share n (bss @ [b]) w = share n bss w @ (if (length bss + 1) mod n = w then b else [])"
  by (simp add: share_def enumerate_append_eq)

lemma c_int_add_small: "0 \<le> a \<Longrightarrow> 0 \<le> b \<Longrightarrow> a + b < 2 ^ 31 \<Longrightarrow> c_int_add a b = Inr (a + b)"
  by (simp add: c_int_add_def fits_int_def)

lemma c_int_add_one: "x \<le> n \<Longrightarrow> n + 1 < 2 ^ 31 \<Longrightarrow> c_int_add (int x) 1 = Inr (int x + 1)"
  by (rule c_int_add_small) simp_all

text \<open>One burst at the chosen ring.\<close>

lemma lt_rx_enqueue_step:
  assumes "fifo_ring contents enq deq" and "enq pkts r = (k, r')" and "0 \<le> len s ! w" and "len s ! w < BURST_SIZE"
    and "length pkts \<le> 256" and "0 \<le> ring_loss s" and "ring_loss s + int (length pkts) < 2 ^ 31"
  shows "\<exists>s'. lt_rx_enqueue enq ready w r pkts s = Inr s' \<and> worker_id s' = worker_id s \<and> batch_n s' = batch_n s \<and>
    lt_ring s' = (lt_ring s)[w := Some r'] \<and> rx_freed s' = rx_freed s @ drop k pkts \<and>
    ring_loss s' = ring_loss s + int (length pkts - k) \<and>
    (if BURST_SIZE \<le> len s ! w + int k
     then len s' = (len s)[w := 0] \<and> signals s' = signals s @ [(w, ready ! w)]
     else len s' = (len s)[w := len s ! w + int k] \<and> signals s' = signals s)"
proof -
  have k: "k \<le> length pkts" using assms(1,2) unfolding fifo_ring_def by blast
  have l: "c_int_add (len s ! w) (int k) = Inr (len s ! w + int k)"
    by (rule c_int_add_small) (use assms(3-5) k in \<open>simp_all add: BURST_SIZE_def\<close>)
  have m: "c_int_add (ring_loss s) (int (length pkts) - int k) = Inr (ring_loss s + (int (length pkts) - int k))"
    by (rule c_int_add_small) (use assms(6,7) k in simp_all)
  show ?thesis
  proof (cases "k < length pkts")
    case True
    then show ?thesis by (simp add: lt_rx_enqueue_def assms(2) l m of_nat_diff)
  next
    case False
    with k have e: "k = length pkts" by simp
    show ?thesis by (simp add: lt_rx_enqueue_def assms(2) [unfolded e] l [unfolded e] e)
  qed
qed

lemma sum_mset_upd:
  fixes E :: "nat \<Rightarrow> 'a list"
  assumes "w < n"
  shows "(\<Sum>i < n. mset ((E(w := E w @ xs)) i)) = (\<Sum>i < n. mset (E i)) + mset xs"
proof -
  have "(\<Sum>i < n. mset ((E(w := E w @ xs)) i)) = (\<Sum>i < n. mset (E i) + (if i = w then mset xs else {#}))"
    by (rule sum.cong) auto
  also have "\<dots> = (\<Sum>i < n. mset (E i)) + mset xs" using assms by (simp add: sum.distrib)
  finally show ?thesis .
qed

lemma lt_after_idle: "lt_after contents n ring0 L bs E s \<Longrightarrow> lt_after contents n ring0 L (bs @ [(q, [])]) E s"
  by (simp add: lt_after_def)

lemma lthread_rx_step:
  assumes fifo: "fifo_ring contents enq deq" and a: "lt_after contents n ring0 L bs E s"
    and n: "n = unat nr" "0 < n" "n \<le> length ring0" and q: "q < L" and p: "pkts \<noteq> []" "length pkts \<le> 256"
    and small: "length (packets bs) + length pkts < 2 ^ 31" "length bs + 1 < 2 ^ 31"
  shows "\<exists>s' E'. lthread_rx_burst enq nr ready (q, pkts) s = Inr s' \<and> lt_after contents n ring0 L (bs @ [(q, pkts)]) E' s'"
proof -
  define w where "w = (length (busy bs) + 1) mod n"
  have w: "w < n" using n(2) by (simp add: w_def)
  have next_w: "(worker_id s + 1) mod int n = int w"
  proof -
    have "worker_id s + 1 = int (length (busy bs) mod n + 1)" using a by (simp add: lt_after_def)
    then have "(worker_id s + 1) mod int n = int ((length (busy bs) mod n + 1) mod n)" by (simp only: zmod_int)
    then show ?thesis by (simp only: w_def mod_add_left_eq)
  qed
  obtain r0 r where r: "ring0 ! w = Some r0" "lt_ring s ! w = Some r" "contents r = contents r0 @ E w"
    using a w unfolding lt_after_def by blast
  obtain k r' where k: "enq pkts r = (k, r')" by (cases "enq pkts r")
  then have kc: "k \<le> length pkts" "contents r' = contents r @ take k pkts"
    using fifo unfolding fifo_ring_def by blast+
  have le: "length (filter (\<lambda>b. fst b = q) (busy bs)) \<le> length bs"
    by (rule order_trans [OF length_filter_le length_filter_le])
  have b1: "batch_n s ! q = int (length (filter (\<lambda>b. fst b = q) (busy bs)))"
    using a q unfolding lt_after_def by blast
  have b2: "c_int_add (batch_n s ! q) 1 = Inr (batch_n s ! q + 1)"
    unfolding b1 by (rule c_int_add_one [OF le small(2)])
  let ?s = "s\<lparr>batch_n := (batch_n s)[q := batch_n s ! q + 1], worker_id := int w\<rparr>"
  have "mset (packets bs) = mset (rx_freed s) + (\<Sum>w < n. mset (E w))" using a by (simp add: lt_after_def)
  then have "length (rx_freed s) \<le> length (packets bs)"
    by (metis le_add1 size_mset size_union)
  then have loss: "0 \<le> ring_loss s" "ring_loss s + int (length pkts) < 2 ^ 31"
    using a small(1) by (simp_all add: lt_after_def)
  have lw: "0 \<le> len s ! w" "len s ! w < BURST_SIZE" using a w by (simp_all add: lt_after_def)
  obtain s' where s': "lt_rx_enqueue enq ready w r pkts ?s = Inr s'" "worker_id s' = int w"
    "batch_n s' = (batch_n s)[q := batch_n s ! q + 1]"
    "lt_ring s' = (lt_ring s)[w := Some r']" "rx_freed s' = rx_freed s @ drop k pkts"
    "ring_loss s' = ring_loss s + int (length pkts - k)"
    "if BURST_SIZE \<le> len s ! w + int k
     then len s' = (len s)[w := 0] \<and> signals s' = signals s @ [(w, ready ! w)]
     else len s' = (len s)[w := len s ! w + int k] \<and> signals s' = signals s"
    using lt_rx_enqueue_step [OF fifo k, of ?s w ready] p(2) loss lw by auto
  have len: "length (lt_ring s) = length ring0" "length (batch_n s) = L" "length (len s) = length ring0"
    using a by (simp_all add: lt_after_def)
  have "lthread_rx_burst enq nr ready (q, pkts) s = lt_rx_enqueue enq ready w r pkts ?s"
  proof -
    have "nr \<noteq> 0" using n by auto
    moreover have "nat ((worker_id s + 1) mod int (unat nr)) = w" using next_w n(1) by simp
    moreover have "w < length (lt_ring s)" using w n(3) len(1) by simp
    ultimately show ?thesis
      using p(1) q len(2) b2 r(2) by (simp add: lthread_rx_burst_def Let_def)
  qed
  with s'(1) have run: "lthread_rx_burst enq nr ready (q, pkts) s = Inr s'" by simp
  let ?E = "E(w := E w @ take k pkts)"
  have lk: "length (take k pkts) = k" using kc(1) by simp
  have e: "256 \<le> length (E w) \<or> len s ! w = int (length (E w))"
    using a w unfolding lt_after_def by (meson linorder_le_less_linear)
  have old: "w \<in> fst ` set (signals s) \<longleftrightarrow> 256 \<le> length (E w)" using a w unfolding lt_after_def by blast
  have sig: "w \<in> fst ` set (signals s') \<longleftrightarrow> 256 \<le> length (?E w)"
    using s'(7) e old lk by (cases "BURST_SIZE \<le> len s ! w + int k") (auto simp: BURST_SIZE_def)
  have sig': "v \<in> fst ` set (signals s') \<longleftrightarrow> v \<in> fst ` set (signals s)" if "v \<noteq> w" for v
    using s'(7) that by (auto split: if_splits)
  have l1: "0 \<le> len s' ! w \<and> len s' ! w < BURST_SIZE"
    using s'(7) lw w n(3) len(3) by (auto simp: BURST_SIZE_def split: if_splits)
  have l2: "len s' ! w = int (length (?E w))" if "length (?E w) < 256"
    using s'(7) e that lk w n(3) len(3) by (auto simp: BURST_SIZE_def split: if_splits)
  have l3: "length (len s') = length ring0" "v \<noteq> w \<Longrightarrow> len s' ! v = len s ! v" for v
    using s'(7) len(3) by (auto split: if_splits)
  have c1: "worker_id s' = int (length (busy (bs @ [(q, pkts)])) mod n)" using s'(2) p(1) by (simp add: w_def)
  have c2: "length (lt_ring s') = length ring0" "length (batch_n s') = L" using s'(3,4) len by simp_all
  have c3: "\<exists>r0 r. ring0 ! v = Some r0 \<and> lt_ring s' ! v = Some r \<and> contents r = contents r0 @ ?E v" if "v < n" for v
  proof (cases "v = w")
    case True
    with r kc(2) s'(4) w n(3) len(1) show ?thesis by simp
  next
    case False
    with a that s'(4) show ?thesis by (simp add: lt_after_def)
  qed
  have c4: "subseq (?E v) (share n (map snd (busy (bs @ [(q, pkts)]))) v)" if "v < n" for v
  proof -
    have o: "subseq (E v) (share n (map snd (busy bs)) v)" using a that unfolding lt_after_def by blast
    then have "subseq (E v @ take k pkts) (share n (map snd (busy bs)) v @ pkts)"
      by (rule list_emb_append_mono [OF _ prefix_imp_subseq [OF take_is_prefix]])
    with o p(1) show ?thesis by (auto simp: share_snoc w_def)
  qed
  have c5: "mset (packets (bs @ [(q, pkts)])) = mset (rx_freed s') + (\<Sum>v < n. mset (?E v))"
  proof -
    have "mset pkts = mset (take k pkts) + mset (drop k pkts)" by (metis append_take_drop_id mset_append)
    moreover have "mset (packets bs) = mset (rx_freed s) + (\<Sum>v < n. mset (E v))" using a by (simp add: lt_after_def)
    ultimately show ?thesis using s'(5) by (simp add: sum_mset_upd [OF w] del: fun_upd_apply)
  qed
  have c6: "ring_loss s' = int (length (rx_freed s'))" using s'(5,6) a by (simp add: lt_after_def)
  have c7: "batch_n s' ! v = int (length (filter (\<lambda>b. fst b = v) (busy (bs @ [(q, pkts)]))))" if "v < L" for v
  proof -
    have "batch_n s ! v = int (length (filter (\<lambda>b. fst b = v) (busy bs)))" using a that unfolding lt_after_def by blast
    with s'(3) that q p(1) len(2) show ?thesis by (simp add: nth_list_update)
  qed
  have "lt_after contents n ring0 L (bs @ [(q, pkts)]) ?E s'"
    unfolding lt_after_def
  proof (intro conjI allI impI)
    fix v
    assume v: "v < n"
    have E: "v \<noteq> w \<Longrightarrow> ?E v = E v" by simp
    show "0 \<le> len s' ! v" "len s' ! v < BURST_SIZE"
      using l1 l3(2) [of v] a v by (cases "v = w", simp, simp add: lt_after_def)+
    show "v \<in> fst ` set (signals s') \<longleftrightarrow> 256 \<le> length (?E v)"
    proof (cases "v = w")
      case True
      with sig show ?thesis by simp
    next
      case False
      moreover have "v \<in> fst ` set (signals s) \<longleftrightarrow> 256 \<le> length (E v)" using a v unfolding lt_after_def by blast
      ultimately show ?thesis using sig' E by simp
    qed
    show "len s' ! v = int (length (?E v))" if "length (?E v) < 256"
    proof (cases "v = w")
      case True
      with l2 that show ?thesis by simp
    next
      case False
      moreover from this have "len s ! v = int (length (E v))" using a v that unfolding lt_after_def by simp
      ultimately show ?thesis using l3(2) E by simp
    qed
  qed (fact c1 c2 c5 c6 l3(1) | erule c3 c4 c7)+
  with run show ?thesis by blast
qed

lemma lt_after_start:
  assumes "0 < n" and "\<forall>w < n. ring0 ! w \<noteq> None" and "n \<le> length ring0"
  shows "lt_after contents n ring0 L [] (\<lambda>_. []) (lt_rx_start ring0 (replicate L 0))"
  using assms by (auto simp: lt_after_def lt_rx_start_def BURST_SIZE_def)

lemma lthread_rx_run:
  assumes fifo: "fifo_ring contents enq deq" and n: "0 < unat nr" "unat nr \<le> length ring0"
    and ring: "\<forall>w < unat nr. ring0 ! w \<noteq> None"
    and q: "\<forall>(q, pkts) \<in> set bs. q < L \<and> length pkts \<le> 256"
    and small: "length (packets bs) < 2 ^ 31" "length bs < 2 ^ 31"
  shows "\<exists>s' E. run (lthread_rx_burst enq nr ready) bs (lt_rx_start ring0 (replicate L 0)) = Inr s' \<and>
    lt_after contents (unat nr) ring0 L bs E s'"
  using q small
proof (induction bs rule: rev_induct)
  case Nil
  with lt_after_start [OF n(1) ring n(2)] show ?case by auto
next
  case (snoc b bs)
  obtain q pkts where b: "b = (q, pkts)" by (cases b)
  from snoc obtain s E where s: "run (lthread_rx_burst enq nr ready) bs (lt_rx_start ring0 (replicate L 0)) = Inr s"
    "lt_after contents (unat nr) ring0 L bs E s" by auto
  have "\<exists>s' E'. lthread_rx_burst enq nr ready (q, pkts) s = Inr s' \<and>
      lt_after contents (unat nr) ring0 L (bs @ [(q, pkts)]) E' s'"
  proof (cases "pkts = []")
    case True
    with lt_after_idle [OF s(2)] show ?thesis by (auto simp: lthread_rx_burst_def)
  next
    case False
    show ?thesis
      by (rule lthread_rx_step [OF fifo s(2) refl n]) (use False snoc.prems b in auto)
  qed
  with s(1) b show ?case by (auto simp: run_append)
qed

lemma lt_after_facts:
  assumes "lt_after contents n ring0 L bs E s"
  shows "\<forall>w < n. contents (the (lt_ring s ! w)) = contents (the (ring0 ! w)) @ E w \<and>
      subseq (E w) (share n (map snd (busy bs)) w)"
    and "mset (packets bs) = mset (rx_freed s) + (\<Sum>w < n. mset (E w))"
    and "ring_loss s = int (length (rx_freed s))"
    and "w < n \<Longrightarrow> w \<in> fst ` set (signals s) \<longleftrightarrow> 256 \<le> length (E w)"
    and "w < n \<Longrightarrow> 0 \<le> len s ! w \<and> len s ! w < BURST_SIZE"
proof -
  have "contents (the (lt_ring s ! w)) = contents (the (ring0 ! w)) @ E w" if "w < n" for w
    using assms that unfolding lt_after_def by fastforce
  moreover have "subseq (E w) (share n (map snd (busy bs)) w)" if "w < n" for w
    using assms that by (simp only: lt_after_def)
  ultimately show "\<forall>w < n. contents (the (lt_ring s ! w)) = contents (the (ring0 ! w)) @ E w \<and>
      subseq (E w) (share n (map snd (busy bs)) w)" by simp
qed (use assms in \<open>simp_all only: lt_after_def simp_thms\<close>)

text \<open>
  C4: The L-thread receive loop never stops while it has at least one ring, and deals the
  non-empty bursts round robin: what worker \<open>w\<close>'s ring takes is a subsequence of every \<open>n\<close>-th
  burst. No packet is lost: it is in exactly one ring or freed, and \<^verbatim>\<open>ring_loss\<close> counts the freed ones.
\<close>

theorem lthread_rx_deals:
  assumes "fifo_ring contents enq deq" and "0 < unat nr" and "unat nr \<le> length ring0"
    and "\<forall>w < unat nr. ring0 ! w \<noteq> None"
    and "\<forall>(q, pkts) \<in> set bs. q < L \<and> length pkts \<le> 256"
    and "length (packets bs) < 2 ^ 31" and "length bs < 2 ^ 31"
  shows "\<exists>s' E. run (lthread_rx_burst enq nr ready) bs (lt_rx_start ring0 (replicate L 0)) = Inr s' \<and>
    (\<forall>w < unat nr. contents (the (lt_ring s' ! w)) = contents (the (ring0 ! w)) @ E w \<and>
      subseq (E w) (share (unat nr) (map snd (busy bs)) w)) \<and>
    mset (packets bs) = mset (rx_freed s') + (\<Sum>w < unat nr. mset (E w)) \<and>
    ring_loss s' = int (length (rx_freed s'))"
proof -
  obtain s' E where s': "run (lthread_rx_burst enq nr ready) bs (lt_rx_start ring0 (replicate L 0)) = Inr s'"
    "lt_after contents (unat nr) ring0 L bs E s'"
    using lthread_rx_run [OF assms(1-7)] by blast
  from s'(1) lt_after_facts(1-3) [OF s'(2)] show ?thesis by blast
qed

text \<open>Three bursts for two rings of two places each.\<close>

definition ex_rx :: "(nat \<times> mbuf list) list" where
  "ex_rx = [(0, [\<lparr>mb_id = 1, rss = 7\<rparr>]), (0, []), (0, [\<lparr>mb_id = 2, rss = 8\<rparr>]),
     (0, [\<lparr>mb_id = 3, rss = 9\<rparr>, \<lparr>mb_id = 4, rss = 9\<rparr>])]"

lemma ex_rx_facts:
  "0 < unat (2 :: u16)" "unat (2 :: u16) \<le> length [Some [], Some ([] :: mbuf list)]"
  "\<forall>w < unat (2 :: u16). [Some [], Some ([] :: mbuf list)] ! w \<noteq> None"
  "\<forall>(q, pkts) \<in> set ex_rx. q < 10 \<and> length pkts \<le> 256"
  "length (packets ex_rx) < 2 ^ 31" "length ex_rx < 2 ^ 31"
  by (simp_all add: ex_rx_def less_2_cases_iff)

theorem lthread_rx_deals_witness:
  "\<exists>s' E. run (lthread_rx_burst (list_enq 2) 2 [True]) ex_rx (lt_rx_start [Some [], Some []] (replicate 10 0)) = Inr s' \<and>
    (\<forall>w < unat (2 :: u16). the (lt_ring s' ! w) = the ([Some [], Some []] ! w) @ E w \<and>
      subseq (E w) (share (unat (2 :: u16)) (map snd (busy ex_rx)) w)) \<and>
    mset (packets ex_rx) = mset (rx_freed s') + (\<Sum>w < unat (2 :: u16). mset (E w)) \<and>
    ring_loss s' = int (length (rx_freed s'))"
  by (rule lthread_rx_deals [OF fifo_list_ring [of 2] ex_rx_facts])

text \<open>
  A worker's consumer is signalled exactly when its ring has taken 256 packets: with fewer, the
  signal is never sent and a waiting consumer leaves up to 255 packets in the ring uncounted.
\<close>

theorem lthread_rx_wakes:
  assumes "fifo_ring contents enq deq" and "0 < unat nr" and "unat nr \<le> length ring0"
    and "\<forall>w < unat nr. ring0 ! w \<noteq> None"
    and "\<forall>(q, pkts) \<in> set bs. q < L \<and> length pkts \<le> 256"
    and "length (packets bs) < 2 ^ 31" and "length bs < 2 ^ 31"
    and "w < unat nr" and "contents (the (ring0 ! w)) = []"
  shows "\<exists>s'. run (lthread_rx_burst enq nr ready) bs (lt_rx_start ring0 (replicate L 0)) = Inr s' \<and>
    (w \<in> fst ` set (signals s') \<longleftrightarrow> 256 \<le> length (contents (the (lt_ring s' ! w)))) \<and>
    0 \<le> len s' ! w \<and> len s' ! w < BURST_SIZE"
proof -
  obtain s' E where s': "run (lthread_rx_burst enq nr ready) bs (lt_rx_start ring0 (replicate L 0)) = Inr s'"
    "lt_after contents (unat nr) ring0 L bs E s'"
    using lthread_rx_run [OF assms(1-7)] by blast
  have "contents (the (lt_ring s' ! w)) = E w"
    using lt_after_facts(1) [OF s'(2)] assms(8,9) by simp
  with s'(1) lt_after_facts(4,5) [OF s'(2) assms(8)] show ?thesis by auto
qed

theorem lthread_rx_wakes_witness:
  "\<exists>s'. run (lthread_rx_burst (list_enq 2) 2 [True]) ex_rx (lt_rx_start [Some [], Some []] (replicate 10 0)) = Inr s' \<and>
    (1 \<in> fst ` set (signals s') \<longleftrightarrow> 256 \<le> length (the (lt_ring s' ! 1))) \<and>
    0 \<le> len s' ! 1 \<and> len s' ! 1 < BURST_SIZE"
  by (rule lthread_rx_wakes [OF fifo_list_ring [of 2] ex_rx_facts]) simp_all

text \<open>
  With the default parameters of the L-thread version the receiving threads 3 to 8 have no ring,
  and the first packet one of them receives divides by zero.
\<close>

theorem lthread_default_div_zero:
  assumes "\<And>a b c. mk a b c \<noteq> None" and "1 \<le> max_lcore" and "t \<in> {3..8}"
    and "lt_init_rx_queues lt_default_rx (fresh_rx max_lcore) = Inr (n, rt)"
    and "init_tx_threads lt_default_tx fresh_tx = (k, tt)"
    and "pkts \<noteq> []" and "q < length (batch_n s)" and "batch_n s ! q = 0"
  shows "\<exists>rt' tt'. init_rx_rings socket_of mk k (rt, tt) = Inr (rt', tt') \<and> n_rx_queue (rt t) = 1 \<and>
    lthread_rx_burst enq (n_ring (rt' t)) ready (q, pkts) s = Inl (Undefined ''division by zero'')"
proof -
  have q: "queues_fit lt_default_rx" by (rule few_queues_fit) (simp add: lt_default_rx_def)
  have after: "rx_after (fresh_rx max_lcore) lt_default_rx (n, rt)"
    using rx_queue_run [OF fresh_rx_fresh [of max_lcore], of lt_default_rx "Exit_failure ''too many queues''"] q assms(4)
    by (simp add: lt_init_rx_queues_def)
  have k: "unat k = 3" and tt: "rx_of tt 0 = 0" "rx_of tt 1 = 1" "rx_of tt 2 = 2"
    using assms(5) by (auto simp: init_tx_threads_def lt_default_tx_def init_tx_step_def fresh_tx_def)
  have "[0..<3] = [0, 1, 2 :: nat]" by (simp add: upt_rec)
  then have c: "conns tt 3 v = (if v = 0 then [0] else if v = 1 then [1] else if v = 2 then [2] else [])" for v
    using tt by (auto simp: conns_def)
  have f: "rx_ring (rt v) = rx_ring (fresh_rx max_lcore v)" "n_ring (rt v) = 0" for v
    using after by (simp_all add: rx_after_def fresh_rx_def)
  have "\<forall>i < unat k. rx_of tt i \<le> unat k"
    using tt by (auto simp: k less_Suc_eq numeral_3_eq_3 numeral_2_eq_2)
  moreover have "\<forall>v. length (conns tt (unat k) v) \<le> length (rx_ring (rt v))"
    using assms(2) by (simp add: k c f fresh_rx_def)
  ultimately obtain s' where s': "init_rx_rings socket_of mk k (rt, tt) = Inr s'"
    "rings_after socket_of mk (rt, tt) (unat k) s'"
    using init_rx_rings_run [of "(rt, tt)" k mk "unat k" socket_of] assms(1) f(2)
    by (auto simp: init_rx_rings_def)
  have "unat (n_ring (fst s' t)) = 0" using s'(2) assms(3) by (simp add: rings_after_def k c)
  then have "n_ring (fst s' t) = 0" by (simp add: unat_eq_zero)
  moreover have "n_rx_queue (rt t) = 1"
  proof -
    have "unat (of_nat t :: u8) = t" using assms(3) by (intro unat_of_nat_small) simp
    moreover have "length (queues_of lt_default_rx (of_nat t)) = 1"
    proof -
      from assms(3) have "t = 3 \<or> t = 4 \<or> t = 5 \<or> t = 6 \<or> t = 7 \<or> t = 8" by auto
      then show ?thesis by (elim disjE) (simp_all add: queues_of_def lt_default_rx_def)
    qed
    ultimately have "unat (n_rx_queue (rt t)) = 1"
      using after unfolding rx_after_def Let_def by (metis snd_conv)
    then show ?thesis by (simp add: word_unat_eq_iff)
  qed
  ultimately show ?thesis
    using s'(1) assms(6-8) by (cases s') (auto simp: lthread_rx_burst_def c_int_add_def fits_int_def)
qed

theorem lthread_default_div_zero_witness:
  "\<exists>n rt rt' tt'. lt_init_rx_queues lt_default_rx (fresh_rx 128) = Inr (n, rt) \<and>
    init_rx_rings (\<lambda>_. 0) (\<lambda>_ _ i. Some i) (fst (init_tx_threads lt_default_tx fresh_tx))
      (rt, snd (init_tx_threads lt_default_tx fresh_tx)) = Inr (rt', tt') \<and> n_rx_queue (rt 5) = 1 \<and>
    lthread_rx_burst (list_enq 9) (n_ring (rt' 5)) [True] (2, [\<lparr>mb_id = 1, rss = 7\<rparr>])
      (lt_rx_start [None] (replicate 10 0)) = Inl (Undefined ''division by zero'')"
proof -
  have "queues_fit lt_default_rx" by (rule few_queues_fit) (simp add: lt_default_rx_def)
  then obtain n rt where rt: "lt_init_rx_queues lt_default_rx (fresh_rx 128) = Inr (n, rt)"
    using rx_queue_run [OF fresh_rx_fresh [of 128], of lt_default_rx "Exit_failure ''too many queues''"]
    by (auto simp: lt_init_rx_queues_def)
  have "\<exists>rt' tt'. init_rx_rings (\<lambda>_. 0) (\<lambda>_ _ i. Some i) (fst (init_tx_threads lt_default_tx fresh_tx))
      (rt, snd (init_tx_threads lt_default_tx fresh_tx)) = Inr (rt', tt') \<and> n_rx_queue (rt 5) = 1 \<and>
    lthread_rx_burst (list_enq 9) (n_ring (rt' 5)) [True] (2, [\<lparr>mb_id = 1, rss = 7\<rparr>])
      (lt_rx_start [None] (replicate 10 0)) = Inl (Undefined ''division by zero'')"
    by (rule lthread_default_div_zero [OF _ _ _ rt prod.collapse [symmetric]]) (simp_all add: lt_rx_start_def)
  with rt show ?thesis by blast
qed

end
