(* ===== verification/Shared_Table.thy ===== *)
theory Shared_Table
  imports Pipeline_Correct
begin

text \<open>
  The flow table of the pthread and the L-thread version is one global array that all counting threads
  update without locks or atomic operations. The per-packet code is split into its reads and writes of the
  table, and a step of the system is one of them by one thread, in any order: the interleavings of
  the source's memory accesses (reordering by compiler or hardware would only add behaviours). Built
  without \<^verbatim>\<open>IPG\<close>, as the source is by default.
\<close>

section \<open>The reads and writes of the per-packet code\<close>

text \<open>
  Where a counting thread stands: about to take a packet, before a test of a tag, before a write of a
  tag, or inside \<^verbatim>\<open>ctr[i]++\<close>, which reads the counter (\<open>Load\<close>) and writes it back (\<open>Store\<close>).
\<close>

datatype 'c micro =
    Fetch
  | Test_f1 mbuf | Set_f1 mbuf
  | Test_f2 mbuf | Test_diff mbuf | Set_f2 mbuf
  | Hit_f1 mbuf | Hit_f2 mbuf
  | Load mbuf nat | Store mbuf nat 'c

type_synonym table = "nat \<Rightarrow> u32 pkt_count_qt"

type_synonym pth_table = "nat \<Rightarrow> u64 pkt_count_sd"

abbreviation m_slot :: "mbuf \<Rightarrow> nat" where
  "m_slot m \<equiv> h_slot (rss m)"

abbreviation m_tag :: "mbuf \<Rightarrow> u16" where
  "m_tag m \<equiv> h_tag (rss m)"

text \<open>
  What one access does to the thread and its packets left, and to the table. \<open>audit\<close> says whether the
  packets of further flows are counted in \<^verbatim>\<open>ctr[2]\<close>, as in the L-thread version, or left alone, as in the
  pthread version; otherwise the code is the same.
\<close>

fun access ::
  "bool \<Rightarrow> 'w word micro \<Rightarrow> mbuf list \<Rightarrow> (nat \<Rightarrow> ('w::len word, 'z) pkt_count_scheme)
     \<Rightarrow> ('w word micro \<times> mbuf list \<times> (nat \<Rightarrow> ('w word, 'z) pkt_count_scheme)) option"
where
  "access audit Fetch [] t = None"
| "access audit Fetch (m # ms) t = Some (Test_f1 m, ms, t)"
| "access audit (Test_f1 m) ms t = Some (if hi_f1 (t (m_slot m)) = 0 then Set_f1 m else Test_f2 m, ms, t)"
| "access audit (Set_f1 m) ms t =
     Some (Load m 0, ms, t(m_slot m := (t (m_slot m))\<lparr>hi_f1 := m_tag m\<rparr>))"
| "access audit (Test_f2 m) ms t = Some (if hi_f2 (t (m_slot m)) = 0 then Test_diff m else Hit_f1 m, ms, t)"
| "access audit (Test_diff m) ms t =
     Some (if hi_f1 (t (m_slot m)) \<noteq> m_tag m then Set_f2 m else Hit_f1 m, ms, t)"
| "access audit (Set_f2 m) ms t =
     Some (Load m 1, ms, t(m_slot m := (t (m_slot m))\<lparr>hi_f2 := m_tag m\<rparr>))"
| "access audit (Hit_f1 m) ms t = Some (if hi_f1 (t (m_slot m)) = m_tag m then Load m 0 else Hit_f2 m, ms, t)"
| "access audit (Hit_f2 m) ms t = Some (if hi_f2 (t (m_slot m)) = m_tag m then Load m 1 else if audit then Load m 2 else Fetch, ms, t)"
| "access audit (Load m i) ms t = Some (Store m i (ctr (t (m_slot m)) ! i), ms, t)"
| "access audit (Store m i v) ms t =
     Some (Fetch, ms, t(m_slot m := (t (m_slot m))\<lparr>ctr := (ctr (t (m_slot m)))[i := v + 1]\<rparr>))"

section \<open>The counting threads together\<close>

record ('c, 'b) race =
  thr :: "nat \<Rightarrow> 'c micro \<times> mbuf list"
  shared :: "nat \<Rightarrow> 'b"

inductive count_step ::
  "bool \<Rightarrow> nat \<Rightarrow> ('w::len word, ('w word, 'z) pkt_count_scheme) race
     \<Rightarrow> ('w word, ('w word, 'z) pkt_count_scheme) race \<Rightarrow> bool" for au n
where
  step: "k < n \<Longrightarrow> access au (fst (thr s k)) (snd (thr s k)) (shared s) = Some (mc, ms, t)
    \<Longrightarrow> count_step au n s (s\<lparr>thr := (thr s)(k := (mc, ms)), shared := t\<rparr>)"

inductive_cases count_stepE: "count_step au n s s'"

text \<open>Thread \<open>k\<close> starts with the packets \<open>pk k\<close>; at the end every thread has counted all of its packets.\<close>

definition race_start :: "(nat \<Rightarrow> mbuf list) \<Rightarrow> (nat \<Rightarrow> 'b) \<Rightarrow> ('c, 'b) race" where
  "race_start pk t = \<lparr>thr = (\<lambda>k. (Fetch, pk k)), shared = t\<rparr>"

definition race_done :: "nat \<Rightarrow> ('c, 'b) race \<Rightarrow> bool" where
  "race_done n s \<longleftrightarrow> (\<forall>k < n. thr s k = (Fetch, []))"

text \<open>One particular interleaving: the threads that take the steps, in order.\<close>

fun schedule ::
  "bool \<Rightarrow> nat list \<Rightarrow> ('w::len word, ('w word, 'z) pkt_count_scheme) race
     \<Rightarrow> ('w word, ('w word, 'z) pkt_count_scheme) race option"
where
  "schedule au [] s = Some s"
| "schedule au (k # ks) s =
     (case access au (fst (thr s k)) (snd (thr s k)) (shared s) of
        None \<Rightarrow> None
      | Some (mc, ms, t) \<Rightarrow> schedule au ks (s\<lparr>thr := (thr s)(k := (mc, ms)), shared := t\<rparr>))"

lemma schedule_steps:
  assumes "schedule au ks s = Some s'" "set ks \<subseteq> {..<n}"
  shows "(count_step au n)\<^sup>*\<^sup>* s s'"
  using assms
proof (induction ks arbitrary: s)
  case (Cons k ks)
  then obtain mc ms t where a: "access au (fst (thr s k)) (snd (thr s k)) (shared s) = Some (mc, ms, t)"
    and r: "schedule au ks (s\<lparr>thr := (thr s)(k := (mc, ms)), shared := t\<rparr>) = Some s'"
    by (auto split: option.splits)
  have "count_step au n s (s\<lparr>thr := (thr s)(k := (mc, ms)), shared := t\<rparr>)"
    using a Cons.prems(2) by (intro count_step.step) auto
  then show ?case using Cons.IH [OF r] Cons.prems(2) by (auto intro: converse_rtranclp_into_rtranclp)
qed simp

section \<open>A thread by itself refines the per-packet code\<close>

text \<open>The bucket after a thread that stands at \<open>mc\<close> has finished its packet without interference.\<close>

abbreviation incr :: "nat \<Rightarrow> ('w::len word, 'z) pkt_count_scheme \<Rightarrow> ('w word, 'z) pkt_count_scheme" where
  "incr i b \<equiv> b\<lparr>ctr := bump i (ctr b)\<rparr>"

definition after_hit_f2 :: "bool \<Rightarrow> u16 \<Rightarrow> ('w::len word, 'z) pkt_count_scheme \<Rightarrow> ('w word, 'z) pkt_count_scheme" where
  "after_hit_f2 au k b = (if hi_f2 b = k then incr 1 b else if au then incr 2 b else b)"

definition after_hit_f1 :: "bool \<Rightarrow> u16 \<Rightarrow> ('w::len word, 'z) pkt_count_scheme \<Rightarrow> ('w word, 'z) pkt_count_scheme" where
  "after_hit_f1 au k b = (if hi_f1 b = k then incr 0 b else after_hit_f2 au k b)"

definition after_diff :: "bool \<Rightarrow> u16 \<Rightarrow> ('w::len word, 'z) pkt_count_scheme \<Rightarrow> ('w word, 'z) pkt_count_scheme" where
  "after_diff au k b = (if hi_f1 b \<noteq> k then incr 1 (b\<lparr>hi_f2 := k\<rparr>) else after_hit_f1 au k b)"

definition after_f2 :: "bool \<Rightarrow> u16 \<Rightarrow> ('w::len word, 'z) pkt_count_scheme \<Rightarrow> ('w word, 'z) pkt_count_scheme" where
  "after_f2 au k b = (if hi_f2 b = 0 then after_diff au k b else after_hit_f1 au k b)"

definition after_f1 :: "bool \<Rightarrow> u16 \<Rightarrow> ('w::len word, 'z) pkt_count_scheme \<Rightarrow> ('w word, 'z) pkt_count_scheme" where
  "after_f1 au k b = (if hi_f1 b = 0 then incr 0 (b\<lparr>hi_f1 := k\<rparr>) else after_f2 au k b)"

lemmas after_defs = after_f1_def after_f2_def after_diff_def after_hit_f1_def after_hit_f2_def

lemma lt_packet_after: "\<not> c_ipg c \<Longrightarrow> lt_packet c g k b = Inr (after_f1 True k b)"
  by (simp add: lt_packet_def slot_hit_def after_defs Let_def)

fun packet :: "'c micro \<Rightarrow> mbuf option" where
  "packet Fetch = None"
| "packet (Test_f1 m) = Some m"
| "packet (Set_f1 m) = Some m"
| "packet (Test_f2 m) = Some m"
| "packet (Test_diff m) = Some m"
| "packet (Set_f2 m) = Some m"
| "packet (Hit_f1 m) = Some m"
| "packet (Hit_f2 m) = Some m"
| "packet (Load m i) = Some m"
| "packet (Store m i v) = Some m"

fun finish :: "bool \<Rightarrow> 'w word micro \<Rightarrow> ('w::len word, 'z) pkt_count_scheme \<Rightarrow> ('w word, 'z) pkt_count_scheme" where
  "finish au Fetch b = b"
| "finish au (Test_f1 m) b = after_f1 au (m_tag m) b"
| "finish au (Set_f1 m) b = incr 0 (b\<lparr>hi_f1 := m_tag m\<rparr>)"
| "finish au (Test_f2 m) b = after_f2 au (m_tag m) b"
| "finish au (Test_diff m) b = after_diff au (m_tag m) b"
| "finish au (Set_f2 m) b = incr 1 (b\<lparr>hi_f2 := m_tag m\<rparr>)"
| "finish au (Hit_f1 m) b = after_hit_f1 au (m_tag m) b"
| "finish au (Hit_f2 m) b = after_hit_f2 au (m_tag m) b"
| "finish au (Load m i) b = incr i b"
| "finish au (Store m i v) b = b\<lparr>ctr := (ctr b)[i := v + 1]\<rparr>"

text \<open>The bucket \<open>l\<close> after the packets \<open>ms\<close>, one after the other.\<close>

definition absorb :: "bool \<Rightarrow> nat \<Rightarrow> mbuf list \<Rightarrow> ('w::len word, 'z) pkt_count_scheme \<Rightarrow> ('w word, 'z) pkt_count_scheme" where
  "absorb au l ms = fold (\<lambda>m. after_f1 au (m_tag m)) (filter (\<lambda>m. m_slot m = l) ms)"

lemma absorb_simps [simp]:
  "absorb au l [] b = b"
  "absorb au l (m # ms) b = absorb au l ms (if m_slot m = l then after_f1 au (m_tag m) b else b)"
  "absorb au l (xs @ ys) b = absorb au l ys (absorb au l xs b)"
  by (simp_all add: absorb_def)

lemma absorb_none: "(\<And>m. m \<in> set ms \<Longrightarrow> m_slot m \<noteq> l) \<Longrightarrow> absorb au l ms b = b"
  by (induction ms) auto

definition at_bucket :: "bool \<Rightarrow> nat \<Rightarrow> 'w word micro \<Rightarrow> ('w::len word, 'z) pkt_count_scheme \<Rightarrow> ('w word, 'z) pkt_count_scheme" where
  "at_bucket au l mc b = (case packet mc of None \<Rightarrow> b | Some m \<Rightarrow> if m_slot m = l then finish au mc b else b)"

text \<open>An access changes nothing about how the thread's own work will end.\<close>

lemma access_finish:
  assumes "access au mc ms t = Some (mc', ms', t')"
  shows "absorb au l ms' (at_bucket au l mc' (t' l)) = absorb au l ms (at_bucket au l mc (t l))"
  using assms
  by (cases "(au, mc, ms, t)" rule: access.cases)
     (auto simp: at_bucket_def after_f1_def after_f2_def after_diff_def after_hit_f1_def after_hit_f2_def bump_def
       split: if_splits)

lemma access_elsewhere:
  assumes "access au mc ms t = Some (mc', ms', t')" "l \<notin> m_slot ` set_option (packet mc)"
  shows "t' l = t l"
  using assms by (cases "(au, mc, ms, t)" rule: access.cases) auto

lemma access_packets:
  assumes "access au mc ms t = Some (mc', ms', t')"
  shows "set_option (packet mc') \<union> set ms' \<subseteq> set_option (packet mc) \<union> set ms"
  using assms by (cases "(au, mc, ms, t)" rule: access.cases) (auto split: if_splits)

section \<open>Threads with buckets of their own\<close>

text \<open>
  \<open>owner\<close> gives every bucket to one thread; the invariant says that each bucket will end as if
  its owner ran alone.
\<close>

definition disjoint_work :: "(nat \<Rightarrow> nat) \<Rightarrow> nat \<Rightarrow> (nat \<Rightarrow> mbuf list) \<Rightarrow> bool" where
  "disjoint_work owner n pk \<longleftrightarrow> (\<forall>k < n. \<forall>m \<in> set (pk k). owner (m_slot m) = k)"

definition on_course ::
  "bool \<Rightarrow> (nat \<Rightarrow> nat) \<Rightarrow> nat \<Rightarrow> (nat \<Rightarrow> mbuf list) \<Rightarrow> (nat \<Rightarrow> ('w::len word, 'z) pkt_count_scheme)
     \<Rightarrow> ('w word, ('w word, 'z) pkt_count_scheme) race \<Rightarrow> bool"
where
  "on_course au owner n pk t0 s \<longleftrightarrow>
     (\<forall>k < n. \<forall>m \<in> set_option (packet (fst (thr s k))) \<union> set (snd (thr s k)). owner (m_slot m) = k) \<and>
     (\<forall>l. if owner l < n
          then absorb au l (snd (thr s (owner l))) (at_bucket au l (fst (thr s (owner l))) (shared s l))
             = absorb au l (pk (owner l)) (t0 l)
          else shared s l = t0 l)"

lemma on_course_start: "disjoint_work owner n pk \<Longrightarrow> on_course au owner n pk t0 (race_start pk t0)"
  by (simp add: on_course_def race_start_def disjoint_work_def at_bucket_def)

lemma on_course_step:
  assumes "count_step au n s s'" "on_course au owner n pk t0 s"
  shows "on_course au owner n pk t0 s'"
  using assms(1)
proof (rule count_stepE)
  fix k mc ms t
  assume s': "s' = s\<lparr>thr := (thr s)(k := (mc, ms)), shared := t\<rparr>" and k: "k < n"
    and a: "access au (fst (thr s k)) (snd (thr s k)) (shared s) = Some (mc, ms, t)"
  have own: "\<forall>m \<in> set_option (packet (fst (thr s j))) \<union> set (snd (thr s j)). owner (m_slot m) = j"
    if "j < n" for j using assms(2) that unfolding on_course_def by blast
  have elsewhere: "t l = shared s l" if "owner l \<noteq> k" for l
    using access_elsewhere [OF a, of l] own [OF k] that by auto
  have "\<forall>m \<in> set_option (packet mc) \<union> set ms. owner (m_slot m) = k"
    using access_packets [OF a] own [OF k] by blast
  then have "\<forall>j < n. \<forall>m \<in> set_option (packet (fst (thr s' j))) \<union> set (snd (thr s' j)). owner (m_slot m) = j"
    using own s' by simp
  moreover have "if owner l < n
      then absorb au l (snd (thr s' (owner l))) (at_bucket au l (fst (thr s' (owner l))) (shared s' l))
         = absorb au l (pk (owner l)) (t0 l)
      else shared s' l = t0 l" for l
    using assms(2) access_finish [OF a, of l] elsewhere [of l] k
    unfolding on_course_def s' by (cases "owner l = k") (auto dest: spec [of _ l])
  ultimately show "on_course au owner n pk t0 s'" unfolding on_course_def by blast
qed

lemma on_course_reachable:
  assumes "(count_step au n)\<^sup>*\<^sup>* s s'" "on_course au owner n pk t0 s"
  shows "on_course au owner n pk t0 s'"
  using assms by (induction rule: rtranclp_induct) (auto intro: on_course_step)

text \<open>The sequential loop on the same packets.\<close>

lemma run_absorb:
  assumes "\<And>m b. upd (g, m) b = Inr (after_f1 au (m_tag m) b)"
  shows "run (table_upd bucket_of upd) (map (Pair g) ms) t = Inr (\<lambda>l. absorb au l ms (t l))"
proof (induction ms arbitrary: t)
  case (Cons m ms)
  have "table_upd bucket_of upd (g, m) t = Inr (t(m_slot m := after_f1 au (m_tag m) (t (m_slot m))))"
    by (simp add: table_upd_def assms bucket_of_def)
  then show ?case using Cons by (simp add: fun_eq_iff)
qed simp

lemma absorb_concat:
  assumes "disjoint_work owner n pk"
  shows "absorb au l (concat (map pk [0..<n])) b = (if owner l < n then absorb au l (pk (owner l)) b else b)"
  using assms
proof (induction n)
  case (Suc n)
  have "absorb au l (pk n) b = b" if "owner l \<noteq> n" for b
    by (rule absorb_none) (use Suc.prems that in \<open>auto simp: disjoint_work_def\<close>)
  then show ?case
    using Suc by (auto simp: disjoint_work_def less_Suc_eq)
qed simp

text \<open>
  Both together: threads that are on course and have finished leave the table the sequential code
  leaves.
\<close>

lemma on_course_done:
  assumes d: "disjoint_work owner n pk" and upd: "\<And>m b. upd (g, m) b = Inr (after_f1 au (m_tag m) b)"
    and r: "on_course au owner n pk t0 s" "race_done n s"
  shows "run (table_upd bucket_of upd) (map (Pair g) (concat (map pk [0..<n]))) t0 = Inr (shared s)"
proof -
  have "absorb au l (concat (map pk [0..<n])) (t0 l) = shared s l" for l
    using r by (simp add: absorb_concat [OF d] on_course_def race_done_def at_bucket_def split: if_splits)
  then show ?thesis by (simp add: run_absorb [OF upd])
qed

lemmas own_buckets = on_course_done [OF _ _ on_course_reachable [OF _ on_course_start]]

text \<open>A thread that has finished may be given more packets of its own buckets.\<close>

lemma on_course_take:
  assumes c: "on_course au owner n pk t0 s" and k: "k < n" "thr s k = (Fetch, [])"
    and d: "\<forall>m \<in> set d. owner (m_slot m) = k"
  shows "on_course au owner n (pk(k := pk k @ d)) t0 (s\<lparr>thr := (thr s)(k := (Fetch, d))\<rparr>)"
proof -
  let ?s = "s\<lparr>thr := (thr s)(k := (Fetch, d))\<rparr>" and ?pk = "pk(k := pk k @ d)"
  have "if owner l < n
      then absorb au l (snd (thr ?s (owner l))) (at_bucket au l (fst (thr ?s (owner l))) (shared ?s l))
         = absorb au l (?pk (owner l)) (t0 l)
      else shared ?s l = t0 l" for l
  proof -
    have "if owner l < n
      then absorb au l (snd (thr s (owner l))) (at_bucket au l (fst (thr s (owner l))) (shared s l))
         = absorb au l (pk (owner l)) (t0 l)
      else shared s l = t0 l"
      using c unfolding on_course_def by blast
    with k show ?thesis by (cases "owner l = k") (simp_all add: at_bucket_def [of _ _ Fetch])
  qed
  moreover have "\<forall>j < n. \<forall>m \<in> set_option (packet (fst (thr ?s j))) \<union> set (snd (thr ?s j)). owner (m_slot m) = j"
    using c d by (simp add: on_course_def)
  ultimately show ?thesis unfolding on_course_def by blast
qed

lemma lt_upd_after: "\<not> c_ipg c \<Longrightarrow> lt_upd c (g, m) b = Inr (after_f1 True (m_tag m) b)"
  by (simp add: lt_upd_def lt_packet_after h_tag_def)

section \<open>Counters are never too high\<close>

text \<open>The packets of bucket \<open>l\<close> that thread state \<open>ts\<close> has still to count.\<close>

definition pending :: "nat \<Rightarrow> 'c micro \<times> mbuf list \<Rightarrow> nat" where
  "pending l ts = length (filter (\<lambda>m. m_slot m = l) (snd ts))
     + (case packet (fst ts) of None \<Rightarrow> 0 | Some m \<Rightarrow> if m_slot m = l then 1 else 0)"

definition not_over ::
  "nat \<Rightarrow> nat \<Rightarrow> nat \<Rightarrow> ('w::len word, ('w word, 'z) pkt_count_scheme) race \<Rightarrow> bool"
where
  "not_over n l tot s \<longleftrightarrow>
     (\<forall>i < length (ctr (shared s l)). unat (ctr (shared s l) ! i) + (\<Sum>k<n. pending l (thr s k)) \<le> tot) \<and>
     (\<forall>k < n. \<forall>m i v. fst (thr s k) = Store m i v \<longrightarrow> m_slot m = l \<longrightarrow> i < length (ctr (shared s l)) \<longrightarrow>
        unat v + (\<Sum>k<n. pending l (thr s k)) \<le> tot)"

lemma pending_access:
  assumes "access au mc ms t = Some (mc', ms', t')"
  shows "pending l (mc', ms') + (case mc of Store m i v \<Rightarrow> if m_slot m = l then 1 else 0 | _ \<Rightarrow> 0)
    \<le> pending l (mc, ms)"
  using assms by (cases "(au, mc, ms, t)" rule: access.cases) (auto simp: pending_def)

lemma sum_upd:
  "k < (n :: nat) \<Longrightarrow> (\<Sum>j<n. f ((g(k := x)) j)) + f (g k) = (\<Sum>j<n. f (g j) :: nat) + f x"
proof -
  assume "k < n"
  then have k: "k \<in> {..<n}" by simp
  have "(\<Sum>j\<in>{..<n} - {k}. f ((g(k := x)) j)) = (\<Sum>j\<in>{..<n} - {k}. f (g j))"
    by (rule sum.cong) auto
  then show ?thesis
    using sum.remove [OF _ k, of "\<lambda>j. f ((g(k := x)) j)"] sum.remove [OF _ k, of "\<lambda>j. f (g j)"] by simp
qed

lemma access_ctr:
  assumes "access au mc ms t = Some (mc', ms', t')"
  shows "ctr (t' l) = (case mc of
      Store m i v \<Rightarrow> if m_slot m = l then (ctr (t l))[i := v + 1] else ctr (t l)
    | _ \<Rightarrow> ctr (t l))"
  using assms by (cases "(au, mc, ms, t)" rule: access.cases) auto

lemma access_to_store:
  "access au mc ms t = Some (Store m i v, ms', t') \<Longrightarrow> v = ctr (t (m_slot m)) ! i"
  by (cases "(au, mc, ms, t)" rule: access.cases) (auto split: if_splits)

lemma unat_Suc_le: "unat (v + 1 :: 'w::len word) \<le> unat v + 1"
  by (metis Suc_eq_plus1 le_Suc_eq unatSuc unat_0 add.commute linorder_linear not_less_eq_eq zero_le)

lemma not_over_step:
  assumes "count_step au n s s'" "not_over n l tot s"
  shows "not_over n l tot s'"
  using assms(1)
proof (rule count_stepE)
  fix k mc ms t
  assume s': "s' = s\<lparr>thr := (thr s)(k := (mc, ms)), shared := t\<rparr>" and k: "k < n"
    and a: "access au (fst (thr s k)) (snd (thr s k)) (shared s) = Some (mc, ms, t)"
  let ?d = "case fst (thr s k) of Store m i v \<Rightarrow> if m_slot m = l then 1 else 0 | _ \<Rightarrow> (0 :: nat)"
  have sum: "(\<Sum>j<n. pending l (thr s' j)) + ?d \<le> (\<Sum>j<n. pending l (thr s j))"
    using sum_upd [OF k, of "pending l" "thr s" "(mc, ms)"] pending_access [OF a, of l] by (simp add: s')
  have old: "\<forall>i < length (ctr (shared s l)). unat (ctr (shared s l) ! i) + (\<Sum>k<n. pending l (thr s k)) \<le> tot"
    and regs: "\<And>j m i v. j < n \<Longrightarrow> fst (thr s j) = Store m i v \<Longrightarrow> m_slot m = l \<Longrightarrow>
      i < length (ctr (shared s l)) \<Longrightarrow> unat v + (\<Sum>k<n. pending l (thr s k)) \<le> tot"
    using assms(2) unfolding not_over_def by blast+
  have le: "(\<Sum>j<n. pending l (thr s' j)) \<le> (\<Sum>j<n. pending l (thr s j))" using sum by simp
  note c = access_ctr [OF a, of l]
  have len: "length (ctr (t l)) = length (ctr (shared s l))" by (simp add: c split: micro.split)
  have "unat (ctr (t l) ! i) + (\<Sum>j<n. pending l (thr s' j)) \<le> tot" if i: "i < length (ctr (t l))" for i
  proof (cases "\<exists>m v. fst (thr s k) = Store m i v \<and> m_slot m = l")
    case True
    then obtain m v where st: "fst (thr s k) = Store m i v" "m_slot m = l" by blast
    then have "ctr (t l) ! i = v + 1" using c i len by simp
    then show ?thesis using regs [OF k st] unat_Suc_le [of v] sum st i len by simp
  next
    case False
    then have "ctr (t l) ! i = ctr (shared s l) ! i" using c by (auto split: micro.splits if_splits)
    moreover have "unat (ctr (shared s l) ! i) + (\<Sum>j<n. pending l (thr s j)) \<le> tot"
      using old i len by simp
    ultimately show ?thesis using le by simp
  qed
  moreover have "unat v + (\<Sum>j<n. pending l (thr s' j)) \<le> tot"
    if j: "j < n" "fst (thr s' j) = Store m i v" "m_slot m = l" "i < length (ctr (t l))" for j m i v
  proof (cases "j = k")
    case True
    then have "v = ctr (shared s l) ! i" using access_to_store [of au "fst (thr s k)"] a j s' by auto
    moreover have "unat (ctr (shared s l) ! i) + (\<Sum>j<n. pending l (thr s j)) \<le> tot"
      using old j(4) len by simp
    ultimately show ?thesis using le by simp
  next
    case False
    then have "unat v + (\<Sum>j<n. pending l (thr s j)) \<le> tot"
      using regs [of j m i v] j len s' by simp
    then show ?thesis using le by simp
  qed
  ultimately show "not_over n l tot s'" unfolding not_over_def s' by simp
qed

lemma not_over_reachable:
  assumes "(count_step au n)\<^sup>*\<^sup>* s s'" "not_over n l tot s"
  shows "not_over n l tot s'"
  using assms by (induction rule: rtranclp_induct) (auto intro: not_over_step)

lemma not_over_start:
  assumes "\<forall>i < length (ctr (t l)). ctr (t l) ! i = 0"
  shows "not_over n l (\<Sum>k<n. length (filter (\<lambda>m. m_slot m = l) (pk k))) (race_start pk t)"
  using assms by (simp add: not_over_def race_start_def pending_def)

section \<open>Every run ends\<close>

text \<open>How many accesses a thread in this state has left at most: eight for each packet.\<close>

fun accesses_left :: "'c micro \<times> mbuf list \<Rightarrow> nat" where
  "accesses_left (mc, ms) = 8 * length ms + (case mc of
     Fetch \<Rightarrow> 0 | Store m i v \<Rightarrow> 1 | Load m i \<Rightarrow> 2 | Hit_f2 m \<Rightarrow> 3 | Set_f2 m \<Rightarrow> 3 | Set_f1 m \<Rightarrow> 3
   | Hit_f1 m \<Rightarrow> 4 | Test_diff m \<Rightarrow> 5 | Test_f2 m \<Rightarrow> 6 | Test_f1 m \<Rightarrow> 7)"

lemma access_left:
  "access au mc ms t = Some (mc', ms', t') \<Longrightarrow> accesses_left (mc', ms') < accesses_left (mc, ms)"
  by (cases "(au, mc, ms, t)" rule: access.cases) (auto split: if_splits)

lemma access_None: "access au mc ms t = None \<longleftrightarrow> mc = Fetch \<and> ms = []"
  by (cases "(au, mc, ms, t)" rule: access.cases) auto

lemma count_step_left:
  assumes "count_step au n s s'"
  shows "(\<Sum>k<n. accesses_left (thr s' k)) < (\<Sum>k<n. accesses_left (thr s k))"
  using assms
proof (rule count_stepE)
  fix k mc ms t
  assume "s' = s\<lparr>thr := (thr s)(k := (mc, ms)), shared := t\<rparr>" "k < n"
    "access au (fst (thr s k)) (snd (thr s k)) (shared s) = Some (mc, ms, t)"
  then show ?thesis
    using sum_upd [of k n accesses_left "thr s" "(mc, ms)"] access_left [of au "fst (thr s k)" "snd (thr s k)"]
    by fastforce
qed

lemma count_steps_left:
  "(count_step au n ^^ j) s s' \<Longrightarrow> (\<Sum>k<n. accesses_left (thr s' k)) + j \<le> (\<Sum>k<n. accesses_left (thr s k))"
proof (induction j arbitrary: s')
  case (Suc j)
  then obtain u where "(count_step au n ^^ j) s u" "count_step au n u s'" by auto
  then show ?case using Suc.IH [of u] count_step_left [of au n u s'] by simp
qed simp

text \<open>A run that cannot go on has counted all packets.\<close>

lemma stuck_done: "\<nexists>s'. count_step au n s s' \<Longrightarrow> race_done n s"
proof -
  have "\<exists>s'. count_step au n s s'" if "k < n" "thr s k \<noteq> (Fetch, [])" for k
  proof -
    have "access au (fst (thr s k)) (snd (thr s k)) (shared s) \<noteq> None"
      using that(2) by (auto simp: access_None prod_eq_iff)
    then obtain mc ms t where "access au (fst (thr s k)) (snd (thr s k)) (shared s) = Some (mc, ms, t)" by auto
    from count_step.step [OF that(1) this] show ?thesis by blast
  qed
  then show "\<nexists>s'. count_step au n s s' \<Longrightarrow> race_done n s" by (auto simp: race_done_def)
qed

section \<open>Properties\<close>

text \<open>
  The counting threads together always finish: from any table and any packets, every run takes at most
  eight accesses for each packet, and where no thread can go on all packets have been counted.
\<close>

theorem counting_threads_finish:
  assumes "(count_step au n ^^ j) (race_start pk t0) s"
  shows "j \<le> 8 * (\<Sum>k<n. length (pk k)) \<and> ((\<nexists>s'. count_step au n s s') \<longrightarrow> race_done n s)"
proof
  show "j \<le> 8 * (\<Sum>k<n. length (pk k))"
    using count_steps_left [OF assms] by (simp add: race_start_def sum_distrib_left)
  show "(\<nexists>s'. count_step au n s s') \<longrightarrow> race_done n s" using stuck_done by blast
qed

definition ex_race :: "nat \<Rightarrow> mbuf list" where
  "ex_race = (\<lambda>k. if k = 0 then [\<lparr>mb_id = 1, rss = 0x10007\<rparr>, \<lparr>mb_id = 2, rss = 0x20007\<rparr>]
     else [\<lparr>mb_id = 3, rss = 0x30009\<rparr>])"

definition ex_table :: table where
  "ex_table = (\<lambda>_. \<lparr>hi_f1 = 0, hi_f2 = 0, ctr = [0, 0, 0], ipg = [0, 0], avg = [0, 0], stdDev = [0, 0], qt = []\<rparr>)"

theorem counting_threads_finish_witness:
  "count_step True 2 (race_start ex_race ex_table) (race_start ex_race ex_table
      \<lparr>thr := (\<lambda>k. (Fetch, ex_race k))(1 := (Test_f1 \<lparr>mb_id = 3, rss = 0x30009\<rparr>, [])), shared := ex_table\<rparr>)
   \<and> (1 :: nat) \<le> 8 * (\<Sum>k<2. length (ex_race k))"
proof -
  have "count_step True 2 (race_start ex_race ex_table) (race_start ex_race ex_table
      \<lparr>thr := (thr (race_start ex_race ex_table))(1 := (Test_f1 \<lparr>mb_id = 3, rss = 0x30009\<rparr>, [])), shared := ex_table\<rparr>)"
    by (rule count_step.step) (simp_all add: race_start_def ex_race_def)
  then have one: "count_step True 2 (race_start ex_race ex_table) (race_start ex_race ex_table
      \<lparr>thr := (\<lambda>k. (Fetch, ex_race k))(1 := (Test_f1 \<lparr>mb_id = 3, rss = 0x30009\<rparr>, [])), shared := ex_table\<rparr>)"
    by (simp add: race_start_def)
  then have "(count_step True 2 ^^ 1) (race_start ex_race ex_table) (race_start ex_race ex_table
      \<lparr>thr := (\<lambda>k. (Fetch, ex_race k))(1 := (Test_f1 \<lparr>mb_id = 3, rss = 0x30009\<rparr>, [])), shared := ex_table\<rparr>)"
    unfolding relpowp_1 .
  from counting_threads_finish [OF this] one show ?thesis by simp
qed

text \<open>
  C13: Threads with buckets of their own refine the sequential loop: if no two counting threads get
  packets of the same bucket, then under every interleaving of their accesses the shared table ends
  exactly as the per-packet code leaves it when it runs on all packets one after the other.
\<close>

theorem own_buckets_sequential:
  assumes "disjoint_work owner n pk" "\<not> c_ipg c"
    and "(count_step True n)\<^sup>*\<^sup>* (race_start pk t0) s" "race_done n s"
  shows "run (table_upd bucket_of (lt_upd c)) (map (Pair g) (concat (map pk [0..<n]))) t0 = Inr (shared s)"
  by (rule own_buckets [OF assms(1) lt_upd_after [OF assms(2)] assms(3) assms(1) assms(4)])

text \<open>
  C29: Counters are never too high: from a table of zeros, at every moment of every interleaving, a counter of a
  bucket plus the packets of the bucket still to be counted is at most the number of packets of that
  bucket.
\<close>

theorem shared_counters_not_over:
  assumes "(count_step au n)\<^sup>*\<^sup>* (race_start pk t0) s" "\<forall>i < length (ctr (t0 l)). ctr (t0 l) ! i = 0"
    and "i < length (ctr (shared s l))"
  shows "unat (ctr (shared s l) ! i) + (\<Sum>k<n. pending l (thr s k))
    \<le> (\<Sum>k<n. length (filter (\<lambda>m. m_slot m = l) (pk k)))"
  using not_over_reachable [OF assms(1) not_over_start [where l = l and t = t0, OF assms(2)]] assms(3) by (simp add: not_over_def)

text \<open>
  C26: Updates are lost: the round robin of the receiving thread gives two consecutive packets of one
  bucket to two counting threads, and there is an interleaving after which both have finished and
  an empty bucket has counted one packet only, if the packets are of one flow, or has counted
  both for one flow and has no trace of the other, if they are of two.
\<close>

theorem lthread_lost_update:
  assumes "m_slot m = m_slot m'" "m_tag m \<noteq> 0" "m_tag m' \<noteq> 0"
    and "hi_f1 (t0 (m_slot m)) = 0" "hi_f2 (t0 (m_slot m)) = 0" "ctr (t0 (m_slot m)) = [0, 0, 0]"
  shows "\<exists>s u. run (lthread_rx_burst (list_enq 1024) 2 ready) [(0, [m']), (0, [m])]
      (lt_rx_start [Some [], Some []] [0]) = Inr s \<and> rx_freed s = [] \<and>
    (count_step True 2)\<^sup>*\<^sup>* (race_start (\<lambda>k. the (lt_ring s ! k)) t0) u \<and> race_done 2 u \<and>
    slots (shared u (m_slot m)) = (m_tag m', 0, if m_tag m = m_tag m' then [1, 0, 0] else [2, 0, 0])"
proof -
  obtain s where s: "run (lthread_rx_burst (list_enq 1024) 2 ready) [(0, [m']), (0, [m])]
      (lt_rx_start [Some [], Some []] [0]) = Inr s" "rx_freed s = []"
    "lt_ring s ! 0 = Some [m]" "lt_ring s ! 1 = Some [m']"
    by (simp add: lthread_rx_burst_def lt_rx_start_def lt_rx_enqueue_def list_enq_def c_int_add_def
        fits_int_def BURST_SIZE_def)
  let ?s = "race_start (\<lambda>k. the (lt_ring s ! k)) t0"
  let ?ks = "if m_tag m = m_tag m' then [0, 0, 1, 1, 0, 1, 0, 1, 0, 1] else [0, 0, 1, 1, 0, 1, 0, 0, 1, 1 :: nat]"
  have "\<exists>u. schedule True ?ks ?s = Some u \<and> race_done 2 u \<and>
    slots (shared u (m_slot m)) = (m_tag m', 0, if m_tag m = m_tag m' then [1, 0, 0] else [2, 0, 0])"
    using s(3,4) assms
    by (cases "m_tag m = m_tag m'") (auto simp: race_start_def race_done_def slots_def less_2_cases_iff)
  then show ?thesis using s(1,2) schedule_steps [of True ?ks ?s _ 2] by (auto split: if_splits)
qed

lemma ex_race_slots:
  "h_slot 0x10007 = 7" "h_slot 0x20007 = 7" "h_slot 0x30009 = 9"
  "h_tag 0x10007 = 1" "h_tag 0x20007 = 2" "h_tag 0x30009 = 3"
  by (simp_all add: h_slot_def h_tag_def rss_index_l_def rss_index_h_def)

lemma ex_race_run:
  "\<exists>s. (count_step True 2)\<^sup>*\<^sup>* (race_start ex_race ex_table) s \<and> race_done 2 s \<and> ctr (shared s 7) = [1, 1, 0]"
proof -
  have "\<exists>s. schedule True ([0, 1, 0, 1, 0, 1, 0, 1, 0, 1] @ replicate 7 0) (race_start ex_race ex_table) = Some s \<and>
      race_done 2 s \<and> ctr (shared s 7) = [1, 1, 0]"
    by (simp add: race_start_def race_done_def ex_race_def ex_table_def ex_race_slots less_2_cases_iff
        numeral_eq_Suc)
  then show ?thesis using schedule_steps [where n = 2] by fastforce
qed

theorem own_buckets_sequential_witness:
  "\<exists>s. (count_step True 2)\<^sup>*\<^sup>* (race_start ex_race ex_table) s \<and>
    run (table_upd bucket_of (lt_upd \<lparr>c_ipg = False, c_quantile = False, c_p = 0, c_fpu = exact_fpu\<rparr>))
      (map (Pair 0) (concat (map ex_race [0..<2]))) ex_table = Inr (shared s) \<and> ctr (shared s 7) = [1, 1, 0]"
proof -
  obtain s where s: "(count_step True 2)\<^sup>*\<^sup>* (race_start ex_race ex_table) s" "race_done 2 s" "ctr (shared s 7) = [1, 1, 0]"
    using ex_race_run by blast
  have d: "disjoint_work (\<lambda>l. if l = 7 then 0 else 1) 2 ex_race"
    by (simp add: disjoint_work_def ex_race_def ex_race_slots less_2_cases_iff)
  show ?thesis
    using own_buckets_sequential [OF d _ s(1,2), of "\<lparr>c_ipg = False, c_quantile = False, c_p = 0, c_fpu = exact_fpu\<rparr>" 0]
      s(1,3) by auto
qed

theorem shared_counters_not_over_witness:
  "\<exists>s. (count_step True 2)\<^sup>*\<^sup>* (race_start ex_race ex_table) s \<and> ctr (shared s 7) = [1, 1, 0] \<and>
    unat (ctr (shared s 7) ! 1) + (\<Sum>k<2. pending 7 (thr s k)) \<le> 2"
proof -
  obtain s where s: "(count_step True 2)\<^sup>*\<^sup>* (race_start ex_race ex_table) s" "ctr (shared s 7) = [1, 1, 0]"
    using ex_race_run by blast
  have "(\<Sum>k<2. length (filter (\<lambda>m. m_slot m = 7) (ex_race k))) = 2"
    by (simp add: numeral_2_eq_2 ex_race_def ex_race_slots)
  moreover have "\<forall>i < length (ctr (ex_table 7)). ctr (ex_table 7) ! i = 0"
    by (simp add: ex_table_def nth_Cons')
  ultimately show ?thesis
    using shared_counters_not_over [OF s(1), of 7 1] s by (intro exI [of _ s]) simp
qed

theorem lthread_lost_update_witness:
  "\<exists>s u. run (lthread_rx_burst (list_enq 1024) 2 [True]) [(0, [\<lparr>mb_id = 1, rss = 0x10007\<rparr>]), (0, [\<lparr>mb_id = 2, rss = 0x10007\<rparr>])]
      (lt_rx_start [Some [], Some []] [0]) = Inr s \<and> rx_freed s = [] \<and>
    (count_step True 2)\<^sup>*\<^sup>* (race_start (\<lambda>k. the (lt_ring s ! k)) ex_table) u \<and> race_done 2 u \<and>
    slots (shared u 7) = (1, 0, [1, 0, 0])"
  using lthread_lost_update [of "\<lparr>mb_id = 2, rss = 0x10007\<rparr>" "\<lparr>mb_id = 1, rss = 0x10007\<rparr>" ex_table "[True]"]
  by (simp add: ex_race_slots ex_table_def)

end
