(* ===== verification/Pth_System.thy ===== *)
theory Pth_System
  imports Shared_Table
begin

text \<open>
  The pthread version at run time: \<open>n\<close> receiving threads, each polling one queue of the NIC and feeding
  the ring of one counting thread, and the counting threads updating the one global flow table
  without locks. A run is any sequence of received bursts, dequeued bursts and single accesses to the
  table. The NIC spreads the packets over the queues by the low bits of their RSS hash, and
  the table is indexed by its low 16 bits: that is why the threads do not disturb each other.
\<close>

section \<open>Steering by the NIC\<close>

text \<open>
  Receive side scaling: the low \<open>bits\<close> bits of the hash (7 for the cards of the program's time) index the
  redirection table \<open>reta\<close>, whose entry is the queue.
\<close>

definition rss_queue :: "nat \<Rightarrow> (nat \<Rightarrow> nat) \<Rightarrow> mbuf \<Rightarrow> nat" where
  "rss_queue bits reta m = reta (unat (take_bit bits (rss m)))"

text \<open>With at most 16 bits the queue of a packet is the queue of its bucket.\<close>

definition bucket_queue :: "nat \<Rightarrow> (nat \<Rightarrow> nat) \<Rightarrow> nat \<Rightarrow> nat" where
  "bucket_queue bits reta l = reta (take_bit bits l)"

lemma rss_queue_bucket: "bits \<le> 16 \<Longrightarrow> rss_queue bits reta m = bucket_queue bits reta (m_slot m)"
  by (simp add: rss_queue_def bucket_queue_def h_slot_numeral unsigned_take_bit_eq take_bit_take_bit min_def)

section \<open>The per-packet code of the pthread version\<close>

text \<open>By itself it is what its accesses do without interference, with no counter for further flows.\<close>

lemma pth_packet_after:
  assumes "\<not> c_ipg c" "unat h < 65536"
  shows "pth_dh_packet c g h b = after_f1 False (ucast h) b"
  using assms by (simp add: pth_dh_packet_def after_defs ucast_tag_eq Let_def)

lemma pth_upd_after: "\<not> c_ipg c \<Longrightarrow> pth_dh_upd c 16 (g, m) b = Inr (after_f1 False (m_tag m) b)"
  by (simp add: pth_dh_upd_def pth_packet_after pth_index_h_16 h_tag_def)

section \<open>The threads together\<close>

text \<open>
  \<open>ps_ring\<close> are the rings of every receiving thread, of which it uses the first, \<open>ps_gctr\<close> is \<^verbatim>\<open>gCtr\<close>, and
  \<open>ps_race\<close> the counting threads with the flow table. The packets received and dequeued so far,
  for every pair of threads, are history.
\<close>

record 'r pth_sys =
  ps_race :: "(u64, u64 pkt_count_sd) race"
  ps_ring :: "nat \<Rightarrow> 'r option list"
  ps_gctr :: "u64 list"
  ps_received :: "nat \<Rightarrow> mbuf list"
  ps_taken :: "nat \<Rightarrow> mbuf list"

text \<open>
  \<open>Receive\<close>: a burst of queue \<open>k\<close> goes to the ring of thread \<open>k\<close>. \<open>Dequeue\<close>: counting thread \<open>k\<close>, done
  with its last burst, takes a new one and adds its length to its counter. \<open>Count\<close>: a counting
  thread makes one access to the table.
\<close>

inductive pth_sys_step ::
  "'r enq \<Rightarrow> 'r deq \<Rightarrow> nat \<Rightarrow> (mbuf \<Rightarrow> nat) \<Rightarrow> nat \<Rightarrow> 'r pth_sys \<Rightarrow> 'r pth_sys \<Rightarrow> bool"
  for enq deq burst_size queue n
where
  Receive: "k < n \<Longrightarrow> \<forall>m \<in> set bufs. queue m = k \<Longrightarrow> lcore_main_rx enq bufs (ps_ring s k) = Inr ring
    \<Longrightarrow> pth_sys_step enq deq burst_size queue n s
      (s\<lparr>ps_ring := (ps_ring s)(k := ring), ps_received := (ps_received s)(k := ps_received s k @ bufs)\<rparr>)"
| Dequeue: "k < n \<Longrightarrow> thr (ps_race s) k = (Fetch, []) \<Longrightarrow> ps_ring s k ! 0 = Some r
    \<Longrightarrow> deq burst_size r = (bufs, r') \<Longrightarrow> bufs \<noteq> [] \<Longrightarrow> ring_add k (length bufs) (ps_gctr s) = Inr re
    \<Longrightarrow> pth_sys_step enq deq burst_size queue n s
      (s\<lparr>ps_race := (ps_race s)\<lparr>thr := (thr (ps_race s))(k := (Fetch, bufs))\<rparr>,
         ps_ring := (ps_ring s)(k := (ps_ring s k)[0 := Some r']), ps_gctr := re,
         ps_taken := (ps_taken s)(k := ps_taken s k @ bufs)\<rparr>)"
| Count: "count_step False n (ps_race s) x \<Longrightarrow> pth_sys_step enq deq burst_size queue n s (s\<lparr>ps_race := x\<rparr>)"

definition pth_sys_start :: "nat \<Rightarrow> (nat \<Rightarrow> 'r option list) \<Rightarrow> pth_table \<Rightarrow> 'r pth_sys" where
  "pth_sys_start n ring t = \<lparr>ps_race = race_start (\<lambda>_. []) t, ps_ring = ring, ps_gctr = replicate n 0,
     ps_received = (\<lambda>_. []), ps_taken = (\<lambda>_. [])\<rparr>"

section \<open>The invariant\<close>

text \<open>
  For every pair of threads: the packets the ring has taken are a subsequence of those received, they
  have been dequeued or are in the ring, and the counter is the number dequeued.
\<close>

definition pair_ok :: "('r \<Rightarrow> mbuf list) \<Rightarrow> 'r pth_sys \<Rightarrow> nat \<Rightarrow> bool" where
  "pair_ok contents s k \<longleftrightarrow>
     (\<exists>r. ps_ring s k \<noteq> [] \<and> ps_ring s k ! 0 = Some r \<and> subseq (ps_taken s k @ contents r) (ps_received s k)) \<and>
     ps_gctr s ! k = of_nat (length (ps_taken s k))"

definition pth_sys_inv ::
  "('r \<Rightarrow> mbuf list) \<Rightarrow> (mbuf \<Rightarrow> nat) \<Rightarrow> (nat \<Rightarrow> nat) \<Rightarrow> nat \<Rightarrow> pth_table \<Rightarrow> 'r pth_sys \<Rightarrow> bool"
where
  "pth_sys_inv contents queue owner n t0 s \<longleftrightarrow>
     on_course False owner n (ps_taken s) t0 (ps_race s) \<and> length (ps_gctr s) = n \<and>
     (\<forall>k < n. pair_ok contents s k \<and> (\<forall>m \<in> set (ps_received s k). queue m = k))"

lemma taken_received: "pair_ok contents s k \<Longrightarrow> set (ps_taken s k) \<subseteq> set (ps_received s k)"
  by (auto simp: pair_ok_def dest: subseq_in_set)

lemma pth_sys_inv_start:
  assumes "\<forall>k < n. \<exists>r. ring k \<noteq> [] \<and> ring k ! 0 = Some r \<and> contents r = []"
  shows "pth_sys_inv contents queue owner n t0 (pth_sys_start n ring t0)"
  using assms on_course_start [of owner n "\<lambda>_. []" False t0]
  by (fastforce simp: pth_sys_inv_def pth_sys_start_def pair_ok_def disjoint_work_def)

lemma receive_ok:
  assumes f: "fifo_ring contents enq deq" and rx: "lcore_main_rx enq bufs (ps_ring s k) = Inr ring"
    and ok: "pair_ok contents s j"
  shows "pair_ok contents
    (s\<lparr>ps_ring := (ps_ring s)(k := ring), ps_received := (ps_received s)(k := ps_received s k @ bufs)\<rparr>) j"
proof (cases "j = k")
  case True
  obtain r where r: "ps_ring s k \<noteq> []" "ps_ring s k ! 0 = Some r" "subseq (ps_taken s k @ contents r) (ps_received s k)"
    using ok True by (auto simp: pair_ok_def)
  have "\<exists>r'. ring \<noteq> [] \<and> ring ! 0 = Some r' \<and> (\<exists>i. contents r' = contents r @ take i bufs)"
  proof (cases "bufs = []")
    case True
    then show ?thesis using rx r by (auto simp: lcore_main_rx_def)
  next
    case False
    obtain i r' where e: "enq bufs r = (i, r')" by (cases "enq bufs r")
    then have "contents r' = contents r @ take i bufs" using f unfolding fifo_ring_def by blast
    moreover have "ring = (ps_ring s k)[0 := Some r']" using rx r e False by (simp add: lcore_main_rx_def)
    ultimately show ?thesis using r(1) by auto
  qed
  then obtain r' i where r': "ring \<noteq> []" "ring ! 0 = Some r'" "contents r' = contents r @ take i bufs" by blast
  have "subseq ((ps_taken s k @ contents r) @ take i bufs) (ps_received s k @ bufs)"
    by (rule list_emb_append_mono [OF r(3)]) (simp add: prefix_imp_subseq take_is_prefix)
  then show ?thesis using ok True r' by (auto simp: pair_ok_def)
next
  case False
  with ok show ?thesis by (simp add: pair_ok_def)
qed

lemma dequeue_ok:
  assumes f: "fifo_ring contents enq deq" and d: "deq burst_size r = (bufs, r')" and r: "ps_ring s k ! 0 = Some r"
    and re: "ring_add k (length bufs) (ps_gctr s) = Inr re" and ok: "pair_ok contents s j"
    and len: "j < length (ps_gctr s)"
  shows "pair_ok contents (s\<lparr>ps_race := x, ps_ring := (ps_ring s)(k := (ps_ring s k)[0 := Some r']), ps_gctr := re,
    ps_taken := (ps_taken s)(k := ps_taken s k @ bufs)\<rparr>) j"
proof -
  have "contents r = bufs @ contents r'" using f d unfolding fifo_ring_def by blast
  then show ?thesis using ok r ring_addE [OF re] len by (cases "j = k") (auto simp: pair_ok_def)
qed

lemma pth_sys_inv_step:
  assumes f: "fifo_ring contents enq deq" and q: "\<forall>m. queue m = owner (m_slot m)"
    and "pth_sys_step enq deq burst_size queue n s s'" "pth_sys_inv contents queue owner n t0 s"
  shows "pth_sys_inv contents queue owner n t0 s'"
  using assms(3)
proof cases
  case (Receive k bufs ring)
  have "\<forall>j < n. pair_ok contents s' j" using assms(4) receive_ok [OF f Receive(4)] by (simp add: Receive(1) pth_sys_inv_def)
  then show ?thesis using assms(4) Receive(1,3) by (auto simp: pth_sys_inv_def)
next
  case (Dequeue k r bufs r' re)
  have ok: "pair_ok contents s k" and queue: "\<forall>m \<in> set (ps_received s k). queue m = k"
    using assms(4) Dequeue(2) by (simp_all add: pth_sys_inv_def)
  have "contents r = bufs @ contents r'" using f Dequeue(5) unfolding fifo_ring_def by blast
  then have "set bufs \<subseteq> set (ps_received s k)" using ok Dequeue(4) by (auto simp: pair_ok_def dest: subseq_in_set)
  then have "\<forall>m \<in> set bufs. owner (m_slot m) = k" using queue q by auto
  then have "on_course False owner n (ps_taken s') t0 (ps_race s')"
    using on_course_take [of False owner n "ps_taken s" t0 "ps_race s" k bufs] assms(4) Dequeue(2,3)
    by (simp add: Dequeue(1) pth_sys_inv_def)
  moreover have "\<forall>j < n. pair_ok contents s' j"
    unfolding Dequeue(1) using assms(4) dequeue_ok [OF f Dequeue(5,4,7)] by (simp add: pth_sys_inv_def)
  moreover have "length (ps_gctr s') = n"
    using assms(4) ring_addE [OF Dequeue(7)] by (simp add: Dequeue(1) pth_sys_inv_def)
  ultimately show ?thesis using assms(4) by (simp add: Dequeue(1) pth_sys_inv_def)
next
  case (Count x)
  then show ?thesis using assms(4) on_course_step [OF Count(2)]
    by (auto simp: pth_sys_inv_def pair_ok_def)
qed

lemma pth_sys_inv_reachable:
  assumes "fifo_ring contents enq deq" "\<forall>m. queue m = owner (m_slot m)"
    and "(pth_sys_step enq deq burst_size queue n)\<^sup>*\<^sup>* s s'" "pth_sys_inv contents queue owner n t0 s"
  shows "pth_sys_inv contents queue owner n t0 s'"
  using assms(3,4) by (induction rule: rtranclp_induct) (auto intro: pth_sys_inv_step [OF assms(1,2)])


lemma count_steps_system:
  "(count_step False n)\<^sup>*\<^sup>* (ps_race s) x \<Longrightarrow> (pth_sys_step enq deq burst_size queue n)\<^sup>*\<^sup>* s (s\<lparr>ps_race := x\<rparr>)"
proof (induction rule: rtranclp_induct)
  case base
  then show ?case by simp
next
  case (step y z)
  have "pth_sys_step enq deq burst_size queue n (s\<lparr>ps_race := y\<rparr>) (s\<lparr>ps_race := y\<rparr>\<lparr>ps_race := z\<rparr>)"
    by (rule pth_sys_step.Count) (use step(2) in simp)
  with step.IH show ?case by (simp add: rtranclp.rtrancl_into_rtrancl)
qed

section \<open>Properties\<close>


text \<open>Two pairs of threads, one packet each, the accesses of the two taking turns.\<close>

definition ex_pair_packet :: "nat \<Rightarrow> mbuf" where
  "ex_pair_packet k = (if k = 0 then \<lparr>mb_id = 1, rss = 0x10006\<rparr> else \<lparr>mb_id = 2, rss = 0x20009\<rparr>)"

lemma ex_pair_packet_facts:
  "rss_queue 1 (\<lambda>q. q) (ex_pair_packet 0) = 0" "rss_queue 1 (\<lambda>q. q) (ex_pair_packet 1) = 1"
  "m_slot (ex_pair_packet 0) = 6" "m_slot (ex_pair_packet 1) = 9"
  "m_tag (ex_pair_packet 0) = 1" "m_tag (ex_pair_packet 1) = 2"
  by (simp_all add: rss_queue_def ex_pair_packet_def h_slot_numeral h_tag_numeral)

definition ex_pth_table :: pth_table where
  "ex_pth_table = init_table (dh_init_bucket \<lparr>c_ipg = False, c_quantile = False, c_p = 0, c_fpu = exact_fpu\<rparr>) (\<lambda>_. pth_zero)"

definition ex_pth_dequeued :: "mbuf list pth_sys" where
  "ex_pth_dequeued = \<lparr>ps_race = \<lparr>thr = (\<lambda>_. (Fetch, []))(0 := (Fetch, [ex_pair_packet 0]), 1 := (Fetch, [ex_pair_packet 1])),
      shared = ex_pth_table\<rparr>,
     ps_ring = (\<lambda>_. [Some []])(0 := [Some []], 1 := [Some []]), ps_gctr = [1, 1],
     ps_received = (\<lambda>_. [])(0 := [ex_pair_packet 0], 1 := [ex_pair_packet 1]),
     ps_taken = (\<lambda>_. [])(0 := [ex_pair_packet 0], 1 := [ex_pair_packet 1])\<rparr>"

lemma ex_pth_dequeued_reachable:
  "(pth_sys_step (list_enq 4) list_deq 256 (rss_queue 1 (\<lambda>q. q)) 2)\<^sup>*\<^sup>*
     (pth_sys_start 2 (\<lambda>_. [Some []]) ex_pth_table) ex_pth_dequeued"
proof -
  let ?step = "pth_sys_step (list_enq 4) list_deq 256 (rss_queue 1 (\<lambda>q. q)) 2"
  define s0 :: "mbuf list pth_sys" where "s0 = pth_sys_start 2 (\<lambda>_. [Some []]) ex_pth_table"
  let ?p = "[ex_pair_packet 0]" and ?q = "[ex_pair_packet 1]"
  define s1 where "s1 = s0\<lparr>ps_ring := (ps_ring s0)(0 := [Some ?p]), ps_received := (ps_received s0)(0 := ps_received s0 0 @ ?p)\<rparr>"
  define s2 where "s2 = s1\<lparr>ps_ring := (ps_ring s1)(1 := [Some ?q]), ps_received := (ps_received s1)(1 := ps_received s1 1 @ ?q)\<rparr>"
  define s3 where "s3 = s2\<lparr>ps_race := (ps_race s2)\<lparr>thr := (thr (ps_race s2))(0 := (Fetch, ?p))\<rparr>,
     ps_ring := (ps_ring s2)(0 := (ps_ring s2 0)[0 := Some []]), ps_gctr := [1, 0],
     ps_taken := (ps_taken s2)(0 := ps_taken s2 0 @ ?p)\<rparr>"
  define s4 where "s4 = s3\<lparr>ps_race := (ps_race s3)\<lparr>thr := (thr (ps_race s3))(1 := (Fetch, ?q))\<rparr>,
     ps_ring := (ps_ring s3)(1 := (ps_ring s3 1)[0 := Some []]), ps_gctr := [1, 1],
     ps_taken := (ps_taken s3)(1 := ps_taken s3 1 @ ?q)\<rparr>"
  note facts = s0_def pth_sys_start_def race_start_def lcore_main_rx_def list_enq_def list_deq_def ring_add_def
    ex_pair_packet_facts numeral_2_eq_2
  have 1: "?step s0 s1" unfolding s1_def by (rule pth_sys_step.Receive [where k = 0 and s = s0 and bufs = ?p]) (simp_all add: facts del: One_nat_def)
  have 2: "?step s1 s2" unfolding s2_def by (rule pth_sys_step.Receive [where k = 1 and s = s1 and bufs = ?q]) (simp_all add: s1_def facts del: One_nat_def)
  have 3: "?step s2 s3" unfolding s3_def by (rule pth_sys_step.Dequeue [where k = 0 and s = s2 and bufs = ?p and r = ?p]) (simp_all add: s2_def s1_def facts)
  have 4: "?step s3 s4" unfolding s4_def by (rule pth_sys_step.Dequeue [where k = 1 and s = s3 and bufs = ?q and r = ?q]) (simp_all add: s3_def s2_def s1_def facts)
  have "s4 = ex_pth_dequeued"
    by (simp add: s4_def s3_def s2_def s1_def s0_def pth_sys_start_def race_start_def ex_pth_dequeued_def fun_eq_iff)
  with 1 2 3 4 show ?thesis unfolding s0_def [symmetric] by (meson converse_rtranclp_into_rtranclp rtranclp.rtrancl_refl)
qed



section \<open>The rings are emptied\<close>

text \<open>
  A step of the counting threads: nothing is received. \<open>work\<close> bounds how many such steps are possible, nine for
  a packet in a ring, of which eight are accesses to the table.
\<close>

definition drain_step ::
  "'r enq \<Rightarrow> 'r deq \<Rightarrow> nat \<Rightarrow> (mbuf \<Rightarrow> nat) \<Rightarrow> nat \<Rightarrow> 'r pth_sys \<Rightarrow> 'r pth_sys \<Rightarrow> bool"
where
  "drain_step enq deq burst_size queue n s s' \<longleftrightarrow>
     pth_sys_step enq deq burst_size queue n s s' \<and> ps_received s' = ps_received s \<and> s' \<noteq> s"

definition in_ring :: "('r \<Rightarrow> mbuf list) \<Rightarrow> 'r pth_sys \<Rightarrow> nat \<Rightarrow> mbuf list" where
  "in_ring contents s k = (case ps_ring s k ! 0 of None \<Rightarrow> [] | Some r \<Rightarrow> contents r)"

definition work :: "('r \<Rightarrow> mbuf list) \<Rightarrow> nat \<Rightarrow> 'r pth_sys \<Rightarrow> nat" where
  "work contents n s = 9 * (\<Sum>k<n. length (in_ring contents s k)) + (\<Sum>k<n. accesses_left (thr (ps_race s) k))"

lemma drain_work:
  assumes f: "fifo_ring contents enq deq" and d: "drain_step enq deq burst_size queue n s s'"
    and ok: "\<forall>k < n. pair_ok contents s k"
  shows "work contents n s' < work contents n s"
proof -
  have "pth_sys_step enq deq burst_size queue n s s'" using d by (simp add: drain_step_def)
  then show ?thesis
  proof cases
    case (Receive k bufs ring)
    then have "ps_received s k @ bufs = ps_received s k"
      using d by (metis drain_step_def fun_upd_same pth_sys.select_convs(4) pth_sys.surjective pth_sys.update_convs(2) pth_sys.update_convs(4))
    then have "bufs = []" by simp
    then have "s' = s" using Receive by (simp add: lcore_main_rx_def fun_upd_idem)
    then show ?thesis using d by (simp add: drain_step_def)
  next
    case (Dequeue k r bufs r' re)
    have c: "contents r = bufs @ contents r'" using f Dequeue(5) unfolding fifo_ring_def by blast
    have "ps_ring s k \<noteq> []" using ok Dequeue(2) by (auto simp: pair_ok_def)
    then have ring: "in_ring contents s' = (in_ring contents s)(k := contents r')"
      using Dequeue(1,4) by (auto simp: in_ring_def fun_eq_iff)
    have "(\<Sum>j<n. length (in_ring contents s' j)) + length (in_ring contents s k)
        = (\<Sum>j<n. length (in_ring contents s j)) + length (contents r')"
      unfolding ring using sum_upd [OF Dequeue(2), of length "in_ring contents s" "contents r'"] .
    moreover have "length (in_ring contents s k) = length bufs + length (contents r')"
      using c Dequeue(4) by (simp add: in_ring_def)
    moreover have "(\<Sum>j<n. accesses_left (thr (ps_race s') j)) = (\<Sum>j<n. accesses_left (thr (ps_race s) j)) + 8 * length bufs"
      using sum_upd [OF Dequeue(2), of accesses_left "thr (ps_race s)" "(Fetch, bufs)"] Dequeue(1,3) by simp
    ultimately show ?thesis using Dequeue(6) unfolding work_def by (cases bufs) simp_all
  next
    case (Count x)
    then show ?thesis using count_step_left [OF Count(2)] by (simp add: work_def in_ring_def)
  qed
qed

lemma drain_inv:
  assumes "fifo_ring contents enq deq" "\<forall>m. queue m = owner (m_slot m)"
    and "drain_step enq deq burst_size queue n s s'" "pth_sys_inv contents queue owner n t0 s"
  shows "pth_sys_inv contents queue owner n t0 s'"
  using assms(3) pth_sys_inv_step [OF assms(1,2) _ assms(4)] unfolding drain_step_def by blast

lemma drain_steps:
  assumes f: "fifo_ring contents enq deq" and q: "\<forall>m. queue m = owner (m_slot m)"
    and "(drain_step enq deq burst_size queue n ^^ j) s s'" "pth_sys_inv contents queue owner n t0 s"
  shows "pth_sys_inv contents queue owner n t0 s' \<and> work contents n s' + j \<le> work contents n s"
  using assms(3)
proof (induction j arbitrary: s')
  case 0
  then show ?case using assms(4) by simp
next
  case (Suc j)
  then obtain u where u: "(drain_step enq deq burst_size queue n ^^ j) s u" "drain_step enq deq burst_size queue n u s'" by auto
  from Suc.IH [OF u(1)] have "pth_sys_inv contents queue owner n t0 u" and "work contents n u + j \<le> work contents n s" by auto
  moreover have "\<forall>k < n. pair_ok contents u k" using calculation(1) by (simp add: pth_sys_inv_def)
  ultimately show ?case using drain_inv [OF f q u(2)] drain_work [OF f u(2)] by fastforce
qed

lemma drained:
  assumes f: "fifo_ring contents enq deq" and inv: "pth_sys_inv contents queue owner n t0 s" and b: "0 < burst_size"
    and stuck: "\<nexists>s'. drain_step enq deq burst_size queue n s s'"
  shows "race_done n (ps_race s) \<and> (\<forall>k < n. in_ring contents s k = [])"
proof
  have "\<nexists>x. count_step False n (ps_race s) x"
  proof
    assume "\<exists>x. count_step False n (ps_race s) x"
    then obtain x where x: "count_step False n (ps_race s) x" ..
    have "x \<noteq> ps_race s" using count_step_left [OF x] by auto
    then have "drain_step enq deq burst_size queue n s (s\<lparr>ps_race := x\<rparr>)"
      using pth_sys_step.Count [OF x] by (cases s) (simp add: drain_step_def)
    then show False using stuck by blast
  qed
  then show fin: "race_done n (ps_race s)" by (rule stuck_done)
  show "\<forall>k < n. in_ring contents s k = []"
  proof (intro allI impI, rule ccontr)
    fix k
    assume k: "k < n" and ne: "in_ring contents s k \<noteq> []"
    obtain r where r: "ps_ring s k ! 0 = Some r" using inv k by (auto simp: pth_sys_inv_def pair_ok_def)
    obtain bufs r' where d: "deq burst_size r = (bufs, r')" by (cases "deq burst_size r")
    then have "length bufs = min burst_size (length (contents r))" using f unfolding fifo_ring_def by blast
    then have bufs: "bufs \<noteq> []" using ne r b by (auto simp: in_ring_def min_def split: if_splits)
    obtain re where re: "ring_add k (length bufs) (ps_gctr s) = Inr re"
      using inv k by (simp add: pth_sys_inv_def ring_add_def)
    have "thr (ps_race s) k = (Fetch, [])" using fin k by (simp add: race_done_def)
    from pth_sys_step.Dequeue [where enq = enq and queue = queue and s = s and k = k and deq = deq and burst_size = burst_size
      and r = r, OF k this r d bufs re]
    have "\<exists>s'. pth_sys_step enq deq burst_size queue n s s' \<and> ps_received s' = ps_received s \<and> ps_taken s' k = ps_taken s k @ bufs"
      by fastforce
    then have "\<exists>s'. drain_step enq deq burst_size queue n s s'" using bufs unfolding drain_step_def by fastforce
    then show False using stuck by blast
  qed
qed



end
