(* ===== verification/Command_Line.thy ===== *)
theory Command_Line
  imports Thread_Config
begin

text \<open>
  The command line of the pthread and the L-thread version: the number parser \<^verbatim>\<open>strtoul\<close> of the C
  library, the option parsers built on it, the lists of thread parameters, and \<^verbatim>\<open>parse_args\<close>.
\<close>

section \<open>C strings and strtoul\<close>

text \<open>A C string is the list of its characters before the terminating zero.\<close>

definition is_space :: "char \<Rightarrow> bool" where
  "is_space ch \<longleftrightarrow> (let n = of_char ch :: nat in n = 32 \<or> 9 \<le> n \<and> n \<le> 13)"

definition digit_val :: "nat \<Rightarrow> char \<Rightarrow> nat option" where
  "digit_val base ch =
     (let n = of_char ch :: nat;
          v = (if 48 \<le> n \<and> n \<le> 57 then n - 48
               else if 97 \<le> n \<and> n \<le> 122 then n - 87
               else if 65 \<le> n \<and> n \<le> 90 then n - 55 else base)
      in if v < base then Some v else None)"

text \<open>The longest prefix of digits, as a number, and the rest of the string.\<close>

fun digits :: "nat \<Rightarrow> nat \<Rightarrow> string \<Rightarrow> nat \<times> string" where
  "digits base acc [] = (acc, [])"
| "digits base acc (ch # cs) =
     (case digit_val base ch of
        None \<Rightarrow> (acc, ch # cs)
      | Some d \<Rightarrow> digits base (acc * base + d) cs)"

definition hex_prefix :: "string \<Rightarrow> bool" where
  "hex_prefix s \<longleftrightarrow>
     (case s of a # b # d # _ \<Rightarrow> a = CHR ''0'' \<and> b \<in> {CHR ''x'', CHR ''X''} \<and> digit_val 16 d \<noteq> None | _ \<Rightarrow> False)"

text \<open>
  \<^verbatim>\<open>strtoul(s, &end, base)\<close> with a 64-bit \<^verbatim>\<open>unsigned long\<close>: the value, the string at \<open>end\<close> and
  whether \<^verbatim>\<open>errno\<close> is set to \<^verbatim>\<open>ERANGE\<close>. White space, a sign and, for bases 16 and 0, the prefix
  \<^verbatim>\<open>0x\<close> are skipped; without any digit the end is the start.
\<close>

definition strtoul :: "nat \<Rightarrow> string \<Rightarrow> u64 \<times> string \<times> bool" where
  "strtoul base s =
     (let t = dropWhile is_space s;
          (neg, t) = (case t of
              ch # r \<Rightarrow> if ch = CHR ''-'' then (True, r) else if ch = CHR ''+'' then (False, r) else (False, t)
            | [] \<Rightarrow> (False, t));
          (base, t) = (if base \<in> {0, 16} \<and> hex_prefix t then (16, drop 2 t)
                       else if base = 0 then (if take 1 t = ''0'' then 8 else 10, t)
                       else (base, t))
      in case t of
           [] \<Rightarrow> (0, s, False)
         | ch # _ \<Rightarrow>
             if digit_val base ch = None then (0, s, False)
             else (let (n, rest) = digits base 0 t
                   in if n \<ge> 2 ^ 64 then (-1, rest, True)
                      else (if neg then - of_nat n else of_nat n, rest, False)))"

section \<open>Option values\<close>

text \<open>
  The parsers return an \<^verbatim>\<open>int\<close>, -1 for an error; the conversion of a larger \<^verbatim>\<open>unsigned long\<close> keeps
  its low 32 bits.
\<close>

definition parse_portmask :: "string \<Rightarrow> u32" where
  "parse_portmask portmask =
     (let (pm, rest, _) = strtoul 16 portmask
      in if portmask = [] \<or> rest \<noteq> [] then -1
         else if pm = 0 then -1
         else ucast pm)"

definition parse_rx_queue_nb :: "string \<Rightarrow> u32" where
  "parse_rx_queue_nb rxq =
     (let (pm, rest, _) = strtoul 10 rxq
      in if rxq = [] \<or> rest \<noteq> [] then -1
         else if pm = 0 then -1
         else ucast (if pm > of_nat MAX_RX_QUEUE_PER_PORT then of_nat MAX_RX_QUEUE_PER_PORT else pm))"

definition MAX_RX_DESC :: nat where
  "MAX_RX_DESC = 4096"

definition parse_rx_desc_nb :: "string \<Rightarrow> u32" where
  "parse_rx_desc_nb rxdesc =
     (let (pm, rest, _) = strtoul 10 rxdesc
      in if rxdesc = [] \<or> rest \<noteq> [] then -1
         else if pm = 0 then -1
         else ucast (if pm > of_nat MAX_RX_DESC then of_nat MAX_RX_DESC else pm))"

definition parse_rx_burst_size :: "string \<Rightarrow> u32" where
  "parse_rx_burst_size burst =
     (let (pm, rest, _) = strtoul 10 burst
      in if burst = [] \<or> rest \<noteq> [] then -1
         else if pm = 0 then -1
         else ucast pm)"

section \<open>Lists of thread parameters\<close>

definition MAX_LCORE_PARAMS :: nat where
  "MAX_LCORE_PARAMS = 1024"

definition strchr :: "char \<Rightarrow> string \<Rightarrow> string option" where
  "strchr ch s = (case dropWhile (\<lambda>x. x \<noteq> ch) s of [] \<Rightarrow> None | t \<Rightarrow> Some t)"

lemma strchr_shorter: "strchr ch s = Some t \<Longrightarrow> length t \<le> length s \<and> t \<noteq> []"
proof -
  assume "strchr ch s = Some t"
  then have "t = dropWhile (\<lambda>x. x \<noteq> ch) s \<and> t \<noteq> []" by (auto simp: strchr_def split: list.splits)
  then show ?thesis using length_dropWhile_le [of "\<lambda>x. x \<noteq> ch" s] by blast
qed

text \<open>One field of a tuple: a number of base 0 with at least one digit, at most 255.\<close>

definition config_field :: "string \<Rightarrow> nat option" where
  "config_field str_fld =
     (let (v, rest, erange) = strtoul 0 str_fld
      in if erange \<or> rest = str_fld \<or> v > 255 then None else Some (unat v))"

fun config_fields :: "string list \<Rightarrow> nat list option" where
  "config_fields [] = Some []"
| "config_fields (s # ss) =
     (case config_field s of
        None \<Rightarrow> None
      | Some v \<Rightarrow> map_option ((#) v) (config_fields ss))"

text \<open>
  One parenthesised tuple of \<open>n\<close> fields: its characters without the parentheses are copied to a
  buffer of 256 bytes and split at commas by \<^verbatim>\<open>rte_strsplit\<close>, the parameter \<open>split\<close>, whose value
  is the list of tokens it stores.
\<close>

definition config_tuple :: "(string \<Rightarrow> nat \<Rightarrow> char \<Rightarrow> string list) \<Rightarrow> nat \<Rightarrow> string \<Rightarrow> nat list option" where
  "config_tuple split n body =
     (if length body \<ge> 256 then None
      else let str_fld = split body n (CHR '','')
           in if length str_fld \<noteq> n then None else config_fields str_fld)"

text \<open>
  The loop over the tuples from \<open>p0\<close> on, with the parameters stored so far; -1 for an error.
\<close>

function config_loop ::
  "(string \<Rightarrow> nat \<Rightarrow> char \<Rightarrow> string list) \<Rightarrow> nat \<Rightarrow> (nat list \<Rightarrow> 'p) \<Rightarrow> string \<Rightarrow> 'p list \<Rightarrow> int \<times> 'p list"
where
  "config_loop split n mk p0 ps =
     (case strchr (CHR ''('') p0 of
        None \<Rightarrow> (0, ps)
      | Some q \<Rightarrow>
          (case strchr (CHR '')'') (tl q) of
             None \<Rightarrow> (-1, ps)
           | Some p0' \<Rightarrow>
               (case config_tuple split n (takeWhile (\<lambda>x. x \<noteq> CHR '')'') (tl q)) of
                  None \<Rightarrow> (-1, ps)
                | Some vs \<Rightarrow>
                    if length ps \<ge> MAX_LCORE_PARAMS then (-1, ps)
                    else config_loop split n mk p0' (ps @ [mk vs]))))"
  by pat_completeness auto
termination
proof (relation "measure (\<lambda>(split, n, mk, p0, ps). length p0)")
  fix split :: "string \<Rightarrow> nat \<Rightarrow> char \<Rightarrow> string list" and n :: nat and mk :: "nat list \<Rightarrow> 'p"
    and p0 q p0' :: string and ps :: "'p list" and vs :: "nat list"
  assume "strchr (CHR ''('') p0 = Some q" and "strchr (CHR '')'') (tl q) = Some p0'"
  from strchr_shorter [OF this(1)] strchr_shorter [OF this(2)]
  have "length p0' < length p0" by (cases q) auto
  then show "((split, n, mk, p0', ps @ [mk vs]), split, n, mk, p0, ps)
      \<in> measure (\<lambda>(split, n, mk, p0, ps). length p0)" by simp
qed simp

declare config_loop.simps [simp del]

definition mk_rx_params :: "nat list \<Rightarrow> rx_params" where
  "mk_rx_params int_fld = \<lparr>port_id = of_nat (int_fld ! 0), queue_id = of_nat (int_fld ! 1),
     lcore_id = of_nat (int_fld ! 2), thread_id = of_nat (int_fld ! 3)\<rparr>"

definition mk_tx_params :: "nat list \<Rightarrow> tx_params" where
  "mk_tx_params int_fld = \<lparr>t_lcore_id = of_nat (int_fld ! 0), t_thread_id = of_nat (int_fld ! 1)\<rparr>"

definition parse_rx_config :: "(string \<Rightarrow> nat \<Rightarrow> char \<Rightarrow> string list) \<Rightarrow> string \<Rightarrow> int \<times> rx_params list" where
  "parse_rx_config split q_arg = config_loop split 4 mk_rx_params q_arg []"

definition parse_tx_config :: "(string \<Rightarrow> nat \<Rightarrow> char \<Rightarrow> string list) \<Rightarrow> string \<Rightarrow> int \<times> tx_params list" where
  "parse_tx_config split q_arg = config_loop split 2 mk_tx_params q_arg []"

section \<open>The pthread version's arguments\<close>

text \<open>
  What \<^verbatim>\<open>getopt_long\<close> delivers, one value per call: the option character or the number of
  the long option with its \<^verbatim>\<open>optarg\<close>. \<open>Opt_other\<close> is any other return value (an unknown option or
  a missing argument).
\<close>

datatype pth_opt =
    Opt_p string | Opt_P | Opt_nb_rxq string | Opt_nb_rx_desc string | Opt_burst_size string
  | Opt_rx_conf string | Opt_tx_conf string | Opt_file | Opt_other

text \<open>
  The globals that the options set. \<open>rx_list\<close> is the array that \<^verbatim>\<open>rx_thread_params\<close> points to, the
  defaults or the parsed one, and \<open>nb_rx\<close> is \<^verbatim>\<open>nb_rx_thread_params\<close>; likewise for \<open>tx\<close>.
\<close>

record pth_app =
  enabled_port_mask :: u32
  nb_rxq :: u8
  nb_rx_desc :: u16
  burst_size :: u16
  promiscuous_on :: bool
  write_on :: bool
  rx_list :: "rx_params list"
  nb_rx :: u16
  tx_list :: "tx_params list"
  nb_tx :: u16

definition pth_app_default :: pth_app where
  "pth_app_default = \<lparr>enabled_port_mask = 0x8, nb_rxq = 2, nb_rx_desc = 4096, burst_size = 256,
     promiscuous_on = True, write_on = False, rx_list = pth_default_rx, nb_rx = 2,
     tx_list = pth_default_tx, nb_tx = 2\<rparr>"

text \<open>
  One round of the option loop; \<open>Inl\<close> carries the globals when the function returns -1. A failed
  configuration list leaves the pointer and sets the count to the number of tuples stored.
\<close>

definition pth_opt_step ::
  "(string \<Rightarrow> nat \<Rightarrow> char \<Rightarrow> string list) \<Rightarrow> pth_opt \<Rightarrow> pth_app \<Rightarrow> pth_app + pth_app"
where
  "pth_opt_step split opt a = (case opt of
     Opt_p optarg \<Rightarrow>
       (let a = a\<lparr>enabled_port_mask := parse_portmask optarg\<rparr>
        in if enabled_port_mask a = 0 then Inl a else Inr a)
   | Opt_P \<Rightarrow> Inr (a\<lparr>promiscuous_on := True\<rparr>)
   | Opt_nb_rxq optarg \<Rightarrow>
       (let ret = parse_rx_queue_nb optarg in Inr (if ret \<noteq> -1 then a\<lparr>nb_rxq := ucast ret\<rparr> else a))
   | Opt_nb_rx_desc optarg \<Rightarrow>
       (let ret = parse_rx_desc_nb optarg in Inr (if ret \<noteq> -1 then a\<lparr>nb_rx_desc := ucast ret\<rparr> else a))
   | Opt_burst_size optarg \<Rightarrow>
       (let ret = parse_rx_burst_size optarg in Inr (if ret \<noteq> -1 then a\<lparr>burst_size := ucast ret\<rparr> else a))
   | Opt_rx_conf optarg \<Rightarrow>
       (let (ret, ps) = parse_rx_config split optarg; a = a\<lparr>nb_rx := of_nat (length ps)\<rparr>
        in if ret \<noteq> 0 then Inl a else Inr (a\<lparr>rx_list := ps\<rparr>))
   | Opt_tx_conf optarg \<Rightarrow>
       (let (ret, ps) = parse_tx_config split optarg; a = a\<lparr>nb_tx := of_nat (length ps)\<rparr>
        in if ret \<noteq> 0 then Inl a else Inr (a\<lparr>tx_list := ps\<rparr>))
   | Opt_file \<Rightarrow> Inr (a\<lparr>write_on := True\<rparr>)
   | Opt_other \<Rightarrow> Inl a)"

text \<open>\<open>optind\<close> is getopt's index of the first argument it did not consume, at the end of the loop.\<close>

definition pth_parse_args ::
  "(string \<Rightarrow> nat \<Rightarrow> char \<Rightarrow> string list) \<Rightarrow> int \<Rightarrow> pth_opt list \<Rightarrow> pth_app \<Rightarrow> int \<times> pth_app"
where
  "pth_parse_args split optind opts a =
     (case run (pth_opt_step split) opts a of
        Inl a' \<Rightarrow> (-1, a')
      | Inr a' \<Rightarrow> (optind - 1, a'))"

section \<open>The L-thread version's arguments\<close>

datatype lt_opt =
    Lt_p string | Lt_P | Lt_rx string | Lt_tx string | Lt_no_numa | Lt_enable_jumbo | Lt_file | Lt_other

record lt_app =
  l_port_mask :: u32
  l_promiscuous_on :: bool
  l_numa_on :: bool
  l_write :: bool
  l_rx_list :: "rx_params list"
  l_nb_rx :: u16
  l_tx_list :: "tx_params list"
  l_nb_tx :: u16

text \<open>\<open>Inl (code, globals)\<close> when the function returns early with \<open>code\<close>; \<^verbatim>\<open>EXIT_FAILURE\<close> is 1.\<close>

definition lt_opt_step ::
  "(string \<Rightarrow> nat \<Rightarrow> char \<Rightarrow> string list) \<Rightarrow> lt_opt \<Rightarrow> lt_app \<Rightarrow> (int \<times> lt_app) + lt_app"
where
  "lt_opt_step split opt a = (case opt of
     Lt_p optarg \<Rightarrow>
       (let a = a\<lparr>l_port_mask := parse_portmask optarg\<rparr>
        in if l_port_mask a = 0 then Inl (1, a) else Inr a)
   | Lt_P \<Rightarrow> Inr (a\<lparr>l_promiscuous_on := True\<rparr>)
   | Lt_rx optarg \<Rightarrow>
       (let (ret, ps) = parse_rx_config split optarg; a = a\<lparr>l_nb_rx := of_nat (length ps)\<rparr>
        in if ret \<noteq> 0 then Inl (-1, a) else Inr (a\<lparr>l_rx_list := ps\<rparr>))
   | Lt_tx optarg \<Rightarrow>
       (let (ret, ps) = parse_tx_config split optarg; a = a\<lparr>l_nb_tx := of_nat (length ps)\<rparr>
        in if ret \<noteq> 0 then Inl (-1, a) else Inr (a\<lparr>l_tx_list := ps\<rparr>))
   | Lt_file \<Rightarrow> Inr (a\<lparr>l_write := True\<rparr>)
   | Lt_no_numa \<Rightarrow> Inr (a\<lparr>l_numa_on := False\<rparr>)
   | Lt_enable_jumbo \<Rightarrow> Inr a
   | Lt_other \<Rightarrow> Inl (1, a))"

definition lt_parse_args ::
  "(string \<Rightarrow> nat \<Rightarrow> char \<Rightarrow> string list) \<Rightarrow> int \<Rightarrow> lt_opt list \<Rightarrow> lt_app \<Rightarrow> int \<times> lt_app"
where
  "lt_parse_args split optind opts a =
     (case run (lt_opt_step split) opts a of
        Inl r \<Rightarrow> r
      | Inr a' \<Rightarrow> (optind - 1, a'))"

end
