(* ===== verification/Command_Line_Correct.thy ===== *)
theory Command_Line_Correct
  imports Command_Line
begin

text \<open>
  The command line: numbers written in decimal or hexadecimal and lists of thread tuples are read
  back as they were written, the values that the options may leave in the globals, and which
  malformed values are (not) rejected.
\<close>

section \<open>Writing numbers\<close>

definition digit_char :: "nat \<Rightarrow> char" where
  "digit_char d = char_of (if d < 10 then 48 + d else 87 + d)"

fun show_base :: "nat \<Rightarrow> nat \<Rightarrow> string" where
  "show_base b n = (if n < b \<or> b < 2 then [digit_char n]
                    else show_base b (n div b) @ [digit_char (n mod b)])"

declare show_base.simps [simp del]

lemma digit_val_char:
  assumes "d < b" "b \<le> 36"
  shows "digit_val b (digit_char d) = Some d"
proof -
  have "(of_char (digit_char d) :: nat) = (if d < 10 then 48 + d else 87 + d)"
    using assms by (simp add: digit_char_def)
  then show ?thesis using assms by (auto simp: digit_val_def Let_def)
qed

lemma digits_append:
  assumes "\<forall>ch\<in>set s. digit_val b ch \<noteq> None"
  shows "snd (digits b acc s) = []" "digits b acc (s @ t) = digits b (fst (digits b acc s)) t"
  using assms by (induction s arbitrary: acc) auto

lemma show_base_digits:
  assumes "2 \<le> b" "b \<le> 36"
  shows "\<forall>ch\<in>set (show_base b n). digit_val b ch \<noteq> None"
  using assms
  by (induction b n rule: show_base.induct)
     (subst show_base.simps, auto simp: digit_val_char)

lemma digits_show:
  assumes "2 \<le> b" "b \<le> 36"
  shows "digits b 0 (show_base b n) = (n, [])"
  using assms
proof (induction b n rule: show_base.induct)
  case (1 b n)
  show ?case
  proof (cases "n < b")
    case True
    then show ?thesis using "1.prems" by (simp add: show_base.simps [of b n] digit_val_char)
  next
    case False
    then have "digits b 0 (show_base b (n div b)) = (n div b, [])" using 1 by simp
    then show ?thesis
      using False "1.prems" show_base_digits [of b "n div b"]
      by (simp add: show_base.simps [of b n] digits_append digit_val_char)
  qed
qed

text \<open>The first character is neither white space nor a sign, and not a zero unless the number is.\<close>

lemma show_base_head:
  assumes "2 \<le> b" "b \<le> 36"
  obtains d cs where "show_base b n = digit_char d # cs" "d < b" "0 < n \<longrightarrow> 0 < d"
    "n < b \<longrightarrow> cs = [] \<and> d = n"
proof -
  have "\<exists>d cs. show_base b n = digit_char d # cs \<and> d < b \<and> (0 < n \<longrightarrow> 0 < d) \<and>
      (n < b \<longrightarrow> cs = [] \<and> d = n)"
    using assms
  proof (induction b n rule: show_base.induct)
    case (1 b n)
    show ?case
    proof (cases "n < b")
      case True
      then show ?thesis using "1.prems" by (simp add: show_base.simps [of b n])
    next
      case False
      then have "0 < n div b" using "1.prems" by (simp add: div_greater_zero_iff)
      then show ?thesis
        using 1 False by (fastforce simp: show_base.simps [of b n])
    qed
  qed
  then show ?thesis using that by blast
qed

lemma digit_char_code:
  "d < 36 \<Longrightarrow> (of_char (digit_char d) :: nat) = (if d < 10 then 48 + d else 87 + d)"
  by (simp add: digit_char_def)

lemma digit_char_zero: "digit_char 0 = CHR ''0''"
  by code_simp

lemma digit_char_plain:
  assumes "d < 36"
  shows "\<not> is_space (digit_char d)" "digit_char d \<noteq> CHR ''-''" "digit_char d \<noteq> CHR ''+''"
    "digit_char d \<noteq> CHR '',''" "digit_char d \<noteq> CHR '')''" "digit_char d \<noteq> CHR ''(''"
    "digit_char d \<noteq> CHR ''x'' \<or> d = 33" "digit_char d \<noteq> CHR ''X''"
    "digit_char d = CHR ''0'' \<longleftrightarrow> d = 0"
  using digit_char_code [OF assms]
  by (auto simp: is_space_def digit_char_zero split: if_splits
      dest: arg_cong [where f = "of_char :: char \<Rightarrow> nat"])

lemma strtoul_show_dec:
  assumes "n < 2 ^ 64"
  shows "strtoul 0 (show_base 10 n) = (of_nat n, [], False)"
    and "strtoul 10 (show_base 10 n) = (of_nat n, [], False)"
proof -
  obtain d cs where s: "show_base 10 n = digit_char d # cs" "d < 10" "0 < n \<longrightarrow> 0 < d"
    "n < 10 \<longrightarrow> cs = [] \<and> d = n"
    by (rule show_base_head [of 10 n]) auto
  note plain = digit_char_plain [of d]
  have z: "n = 0 \<Longrightarrow> d = 0 \<and> cs = []" using s(4) by auto
  have hex: "\<not> hex_prefix (digit_char d # cs)"
    using s plain z by (cases "n = 0") (auto simp: hex_prefix_def split: list.splits)
  have dig: "digits 10 0 (digit_char d # cs) = (n, [])"
    using digits_show [of 10 n] s(1) by simp
  have val: "digit_val 10 (digit_char d) \<noteq> None"
    using s(2) by (simp add: digit_val_char)
  have oct: "digit_val 8 (digit_char 0) = Some 0" by (rule digit_val_char) simp_all
  show "strtoul 10 (show_base 10 n) = (of_nat n, [], False)"
    using plain s(2) val dig assms unfolding s(1) strtoul_def Let_def by simp
  show "strtoul 0 (show_base 10 n) = (of_nat n, [], False)"
  proof (cases "n = 0")
    case True
    then show ?thesis
      using plain z oct hex unfolding s(1) strtoul_def Let_def by simp
  next
    case False
    then show ?thesis
      using plain s(2,3) val dig hex assms unfolding s(1) strtoul_def Let_def by simp
  qed
qed

lemma strtoul_show_hex:
  assumes "n < 2 ^ 64"
  shows "strtoul 16 (show_base 16 n) = (of_nat n, [], False)"
proof -
  obtain d cs where s: "show_base 16 n = digit_char d # cs" "d < 16" "0 < n \<longrightarrow> 0 < d"
    "n < 16 \<longrightarrow> cs = [] \<and> d = n"
    by (rule show_base_head [of 16 n]) auto
  note plain = digit_char_plain [of d]
  have z: "n = 0 \<Longrightarrow> d = 0 \<and> cs = []" using s(4) by auto
  have hex: "\<not> hex_prefix (digit_char d # cs)"
    using s plain z by (cases "n = 0") (auto simp: hex_prefix_def split: list.splits)
  have dig: "digits 16 0 (digit_char d # cs) = (n, [])"
    using digits_show [of 16 n] s(1) by simp
  have val: "digit_val 16 (digit_char d) \<noteq> None"
    using s(2) by (simp add: digit_val_char)
  show ?thesis
    using plain s(2) val dig hex assms unfolding s(1) strtoul_def Let_def by simp
qed

section \<open>Writing thread parameters\<close>

text \<open>A tuple \<open>(f1,f2,...)\<close> and a list of tuples separated by commas, as the usage text shows them.\<close>

fun commas :: "string list \<Rightarrow> string" where
  "commas [] = []"
| "commas [s] = s"
| "commas (s # ss) = s @ CHR '','' # commas ss"

definition show_tuple :: "nat list \<Rightarrow> string" where
  "show_tuple vs = CHR ''('' # commas (map (show_base 10) vs) @ '')''"

definition show_config :: "nat list list \<Rightarrow> string" where
  "show_config vss = commas (map show_tuple vss)"

lemma show_base_chars: "ch \<in> set (show_base 10 n) \<Longrightarrow> ch \<notin> {CHR '','', CHR '')'', CHR ''(''}"
proof -
  assume "ch \<in> set (show_base 10 n)"
  moreover have "\<forall>ch\<in>set (show_base 10 n). \<exists>d<10. ch = digit_char d"
    by (induction "10 :: nat" n rule: show_base.induct) (subst show_base.simps, auto, metis mod_less_divisor zero_less_numeral)
  ultimately obtain d where "d < 10" "ch = digit_char d" by blast
  then show ?thesis using digit_char_plain(4-6) [of d] by simp
qed

lemma commas_chars: "ch \<in> set (commas ss) \<Longrightarrow> ch = CHR '','' \<or> (\<exists>s\<in>set ss. ch \<in> set s)"
  by (induction ss rule: commas.induct) auto

lemma show_base_length: "n < 256 \<Longrightarrow> length (show_base 10 n) \<le> 3"
  by (simp add: show_base.simps [of 10 n] show_base.simps [of 10 "n div 10"]
      show_base.simps [of 10 "n div 10 div 10"])

lemma commas_length: "\<forall>s\<in>set ss. length s \<le> k \<Longrightarrow> length (commas ss) \<le> (k + 1) * length ss"
  by (induction ss rule: commas.induct) auto

section \<open>Reading a list of tuples back\<close>

text \<open>
  What the code relies on of \<^verbatim>\<open>rte_strsplit\<close>: a string of non-empty tokens separated by commas,
  with room for all of them, is split into these tokens.
\<close>

definition splits_at_commas :: "(string \<Rightarrow> nat \<Rightarrow> char \<Rightarrow> string list) \<Rightarrow> bool" where
  "splits_at_commas split \<longleftrightarrow>
     (\<forall>toks. toks \<noteq> [] \<and> (\<forall>t\<in>set toks. t \<noteq> [] \<and> CHR '','' \<notin> set t) \<longrightarrow>
       split (commas toks) (length toks) (CHR '','') = toks)"

lemma show_base_nonempty: "show_base b n \<noteq> []"
  by (subst show_base.simps) simp

lemma config_field_show: "v < 256 \<Longrightarrow> config_field (show_base 10 v) = Some v"
  using strtoul_show_dec(1) [of v] show_base_nonempty [of 10 v]
  by (auto simp: config_field_def word_less_nat_alt unat_of_nat_small)

lemma config_fields_show:
  "\<forall>v\<in>set vs. v < 256 \<Longrightarrow> config_fields (map (show_base 10) vs) = Some vs"
  by (induction vs) (auto simp: config_field_show)

lemma config_tuple_show:
  assumes "splits_at_commas split" "\<forall>v\<in>set vs. v < 256" "vs \<noteq> []" "length vs < 64"
  shows "config_tuple split (length vs) (commas (map (show_base 10) vs)) = Some vs"
proof -
  have "length (commas (map (show_base 10) vs)) < 256"
    using commas_length [of "map (show_base 10) vs" 3] assms(2,4) by (force simp: show_base_length)
  moreover have "split (commas (map (show_base 10) vs)) (length vs) (CHR '','') = map (show_base 10) vs"
  proof -
    have "\<forall>t\<in>set (map (show_base 10) vs). t \<noteq> [] \<and> CHR '','' \<notin> set t"
      using show_base_chars [of "CHR '',''"] show_base_nonempty by (metis ex_map_conv insertI1)
    then show ?thesis
      using assms(1,3) unfolding splits_at_commas_def
      by (metis length_map map_is_Nil_conv)
  qed
  ultimately show ?thesis
    using assms(2) by (simp add: config_tuple_def config_fields_show)
qed

lemma strchr_append: "ch \<notin> set pre \<Longrightarrow> strchr ch (pre @ ch # s) = Some (ch # s)"
  by (auto simp: strchr_def dropWhile_append2 dropWhile_append split: list.splits)

lemma strchr_none: "ch \<notin> set s \<Longrightarrow> strchr ch s = None"
  by (induction s) (auto simp: strchr_def)

lemma config_loop_tuple:
  assumes split: "splits_at_commas split" and vs: "\<forall>v\<in>set vs. v < 256" "length vs = n" "0 < n" "n < 64"
    and pre: "CHR ''('' \<notin> set pre" and room: "length ps < MAX_LCORE_PARAMS"
  shows "config_loop split n mk (pre @ show_tuple vs @ rest) ps
       = config_loop split n mk (CHR '')'' # rest) (ps @ [mk vs])"
proof -
  define body where "body = commas (map (show_base 10) vs)"
  have clean: "CHR '')'' \<notin> set body" using show_base_chars commas_chars by (fastforce simp: body_def)
  have tup: "config_tuple split n body = Some vs"
    using config_tuple_show [OF split vs(1)] vs by (auto simp: body_def)
  have "takeWhile (\<lambda>x. x \<noteq> CHR '')'') (body @ CHR '')'' # rest) = body"
    using clean by (subst takeWhile_append2) auto
  moreover have "strchr (CHR ''('') (pre @ CHR ''('' # body @ CHR '')'' # rest)
      = Some (CHR ''('' # body @ CHR '')'' # rest)"
    by (rule strchr_append [OF pre])
  ultimately show ?thesis
    using strchr_append [OF clean] tup room
    by (subst config_loop.simps) (simp add: show_tuple_def body_def [symmetric])
qed

lemma config_loop_show:
  assumes split: "splits_at_commas split" and n: "0 < n" "n < 64"
    and vss: "\<forall>vs\<in>set vss. length vs = n \<and> (\<forall>v\<in>set vs. v < 256)"
    and pre: "CHR ''('' \<notin> set pre" and room: "length ps + length vss \<le> MAX_LCORE_PARAMS"
  shows "config_loop split n mk (pre @ show_config vss) ps = (0, ps @ map mk vss)"
  using vss pre room
proof (induction vss arbitrary: pre ps)
  case Nil
  then show ?case
    by (subst config_loop.simps) (simp add: show_config_def strchr_none)
next
  case (Cons vs vss)
  define rest where "rest = (if vss = [] then [] else CHR '','' # show_config vss)"
  have "show_config (vs # vss) = show_tuple vs @ rest"
    by (cases vss) (simp_all add: show_config_def rest_def)
  then have "config_loop split n mk (pre @ show_config (vs # vss)) ps
      = config_loop split n mk (CHR '')'' # rest) (ps @ [mk vs])"
    using config_loop_tuple [OF split, of vs n pre ps mk rest] n Cons.prems by simp
  also have "\<dots> = (0, (ps @ [mk vs]) @ map mk vss)"
    using Cons.IH [of "if vss = [] then '')'' else ''),''" "ps @ [mk vs]"] Cons.prems
    by (auto simp: rest_def show_config_def)
  finally show ?case by simp
qed

definition show_rx :: "rx_params list \<Rightarrow> string" where
  "show_rx ps = show_config
     (map (\<lambda>p. [unat (port_id p), unat (queue_id p), unat (lcore_id p), unat (thread_id p)]) ps)"

definition show_tx :: "tx_params list \<Rightarrow> string" where
  "show_tx ts = show_config (map (\<lambda>t. [unat (t_lcore_id t), unat (t_thread_id t)]) ts)"

lemma parse_rx_show:
  assumes "splits_at_commas split" "length ps \<le> MAX_LCORE_PARAMS"
  shows "parse_rx_config split (show_rx ps) = (0, ps)"
proof -
  have "map mk_rx_params (map (\<lambda>p. [unat (port_id p), unat (queue_id p), unat (lcore_id p), unat (thread_id p)]) ps) = ps"
    unfolding map_map by (rule map_idI) (simp add: mk_rx_params_def comp_def)
  then show ?thesis
    using config_loop_show [OF assms(1), of 4 "map (\<lambda>p. [unat (port_id p), unat (queue_id p), unat (lcore_id p), unat (thread_id p)]) ps" "[]" "[]" mk_rx_params] assms(2)
    by (simp add: parse_rx_config_def show_rx_def unat_u8_less)
qed

lemma parse_tx_show:
  assumes "splits_at_commas split" "length ts \<le> MAX_LCORE_PARAMS"
  shows "parse_tx_config split (show_tx ts) = (0, ts)"
proof -
  have "map mk_tx_params (map (\<lambda>t. [unat (t_lcore_id t), unat (t_thread_id t)]) ts) = ts"
    unfolding map_map by (rule map_idI) (simp add: mk_tx_params_def comp_def)
  then show ?thesis
    using config_loop_show [OF assms(1), of 2 "map (\<lambda>t. [unat (t_lcore_id t), unat (t_thread_id t)]) ts" "[]" "[]" mk_tx_params] assms(2)
    by (simp add: parse_tx_config_def show_tx_def unat_u8_less)
qed

text \<open>The loop never stores more parameters than the array holds.\<close>

lemma config_loop_bound:
  "length ps \<le> MAX_LCORE_PARAMS \<Longrightarrow>
   length (snd (config_loop split n mk s ps)) \<le> MAX_LCORE_PARAMS \<and>
   fst (config_loop split n mk s ps) \<in> {0, -1}"
proof (induction split n mk s ps rule: config_loop.induct)
  case (1 split n mk p0 ps)
  then show ?case
    by (subst (1 2) config_loop.simps) (auto split: option.splits)
qed

lemma parse_portmask_show:
  assumes "0 < n" "n < 2 ^ 32"
  shows "parse_portmask (show_base 16 n) = of_nat n"
proof -
  have "strtoul 16 (show_base 16 n) = (of_nat n, [], False)"
    by (rule strtoul_show_hex) (use assms in simp)
  moreover have "(of_nat n :: u64) \<noteq> 0"
    using assms unat_of_nat_small [of n, where 'w = 64] by auto
  moreover have "(ucast (of_nat n :: u64) :: u32) = of_nat n"
    by (simp add: unsigned_of_nat word_of_nat_eq_iff)
  ultimately show ?thesis by (simp add: parse_portmask_def show_base_nonempty)
qed

section \<open>Properties\<close>

text \<open>
  C22: Thread tuples survive the command line. For every list of at most 1024 receive parameters and
  1024 transmit parameters, written as \<^verbatim>\<open>(port,queue,lcore,thread),...\<close> and \<^verbatim>\<open>(lcore,thread),...\<close>, the
  option parsing of the pthread version leaves exactly these lists and their lengths in the globals,
  given that \<^verbatim>\<open>rte_strsplit\<close> splits at the commas.
\<close>

theorem parse_args_roundtrip:
  assumes "splits_at_commas split" "length ps \<le> MAX_LCORE_PARAMS" "length ts \<le> MAX_LCORE_PARAMS"
  shows "pth_parse_args split optind [Opt_rx_conf (show_rx ps), Opt_tx_conf (show_tx ts)] a
       = (optind - 1, a\<lparr>rx_list := ps, nb_rx := of_nat (length ps),
                        tx_list := ts, nb_tx := of_nat (length ts)\<rparr>)"
  using parse_rx_show [OF assms(1,2)] parse_tx_show [OF assms(1,3)]
  by (simp add: pth_parse_args_def pth_opt_step_def)

fun tokens :: "char \<Rightarrow> string \<Rightarrow> string list" where
  "tokens c [] = [[]]"
| "tokens c (x # xs) = (if x = c then [] # tokens c xs
     else (case tokens c xs of [] \<Rightarrow> [[x]] | t # ts \<Rightarrow> (x # t) # ts))"

lemma tokens_append: "c \<notin> set t \<Longrightarrow> tokens c t = [t] \<and> tokens c (t @ c # s) = t # tokens c s"
  by (induction t) auto

lemma tokens_split: "splits_at_commas (\<lambda>s n c. tokens c s)"
  unfolding splits_at_commas_def
proof (intro allI impI)
  fix toks :: "string list"
  assume "toks \<noteq> [] \<and> (\<forall>t\<in>set toks. t \<noteq> [] \<and> CHR '','' \<notin> set t)"
  then show "tokens (CHR '','') (commas toks) = toks"
    by (induction toks rule: commas.induct) (auto simp: tokens_append)
qed

theorem parse_args_roundtrip_witness:
  "pth_parse_args (\<lambda>s n c. tokens c s) 7
     [Opt_rx_conf (show_rx pth_default_rx), Opt_tx_conf (show_tx [])] pth_app_default
   = (6, pth_app_default\<lparr>rx_list := pth_default_rx, nb_rx := 2, tx_list := [], nb_tx := 0\<rparr>)"
  using parse_args_roundtrip [OF tokens_split, of pth_default_rx "[]" 7 pth_app_default]
  by (simp add: MAX_LCORE_PARAMS_def pth_default_rx_def)

text \<open>
  The port mask option. A mask written in hexadecimal, not zero and below 2^32, becomes the mask
  of enabled ports. The check for an invalid mask (\<^verbatim>\<open>enabled_port_mask == 0\<close>) does not see the
  parser's error value -1: the option is refused only for a well-formed value that is a non-zero
  multiple of 2^32, and every malformed or zero mask enables all 32 ports.
\<close>

theorem portmask_option:
  "(0 < n \<and> n < 2 ^ 32 \<longrightarrow>
      pth_opt_step split (Opt_p (show_base 16 n)) a = Inr (a\<lparr>enabled_port_mask := of_nat n\<rparr>)) \<and>
   ((\<exists>a'. pth_opt_step split (Opt_p s) a = Inl a') \<longleftrightarrow>
      (\<exists>v e. s \<noteq> [] \<and> strtoul 16 s = (v, [], e) \<and> v \<noteq> 0 \<and> (ucast v :: u32) = 0)) \<and>
   (s = [] \<or> fst (snd (strtoul 16 s)) \<noteq> [] \<or> fst (strtoul 16 s) = 0 \<longrightarrow>
      pth_opt_step split (Opt_p s) a = Inr (a\<lparr>enabled_port_mask := 0xFFFFFFFF\<rparr>))"
proof (intro conjI impI)
  assume n: "0 < n \<and> n < 2 ^ 32"
  then show "pth_opt_step split (Opt_p (show_base 16 n)) a = Inr (a\<lparr>enabled_port_mask := of_nat n\<rparr>)"
    using parse_portmask_show [of n] unat_of_nat_small [of n, where 'w = 32]
    by (cases "(of_nat n :: u32) = 0") (auto simp: pth_opt_step_def Let_def)
next
  show "(\<exists>a'. pth_opt_step split (Opt_p s) a = Inl a') \<longleftrightarrow>
      (\<exists>v e. s \<noteq> [] \<and> strtoul 16 s = (v, [], e) \<and> v \<noteq> 0 \<and> (ucast v :: u32) = 0)"
    by (cases "strtoul 16 s") (auto simp: pth_opt_step_def parse_portmask_def Let_def)
next
  assume "s = [] \<or> fst (snd (strtoul 16 s)) \<noteq> [] \<or> fst (strtoul 16 s) = 0"
  then show "pth_opt_step split (Opt_p s) a = Inr (a\<lparr>enabled_port_mask := 0xFFFFFFFF\<rparr>)"
    by (cases "strtoul 16 s") (auto simp: pth_opt_step_def parse_portmask_def Let_def)
qed

theorem portmask_option_witness:
  "pth_opt_step (\<lambda>s n c. []) (Opt_p ''xyz'') pth_app_default
   = Inr (pth_app_default\<lparr>enabled_port_mask := 0xFFFFFFFF\<rparr>)"
proof -
  have "fst (snd (strtoul 16 ''xyz'')) \<noteq> []" by code_simp
  then show ?thesis
    using portmask_option [of 1 "\<lambda>s n c. []" pth_app_default "''xyz''"] by simp
qed

text \<open>The values that the options may leave in the globals.\<close>

definition app_ok :: "pth_app \<Rightarrow> bool" where
  "app_ok a \<longleftrightarrow> 1 \<le> nb_rxq a \<and> nb_rxq a \<le> of_nat MAX_RX_QUEUE_PER_PORT \<and>
     1 \<le> nb_rx_desc a \<and> nb_rx_desc a \<le> of_nat MAX_RX_DESC \<and> enabled_port_mask a \<noteq> 0 \<and>
     unat (nb_rx a) = length (rx_list a) \<and> length (rx_list a) \<le> MAX_LCORE_PARAMS \<and>
     unat (nb_tx a) = length (tx_list a) \<and> length (tx_list a) \<le> MAX_LCORE_PARAMS"

lemma ucast_of_nat:
  "ucast (of_nat n :: u64) = (of_nat n :: u32)" "ucast (of_nat n :: u32) = (of_nat n :: u8)"
  "ucast (of_nat n :: u32) = (of_nat n :: u16)"
  by (simp_all add: unsigned_of_nat word_of_nat_eq_iff)

lemma clipped_bounds:
  fixes pm :: u64
  assumes "pm \<noteq> 0"
  shows "\<not> 128 < pm \<Longrightarrow> 1 \<le> (ucast (ucast pm :: u32) :: u8) \<and> (ucast (ucast pm :: u32) :: u8) \<le> 128"
    and "\<not> 4096 < pm \<Longrightarrow> 1 \<le> (ucast (ucast pm :: u32) :: u16) \<and> (ucast (ucast pm :: u32) :: u16) \<le> 4096"
proof -
  obtain n where n: "pm = of_nat n" "n < 2 ^ 64"
    using word_nat_cases [of pm] by auto
  have pos: "0 < n" using n assms by (cases "n = 0") auto
  have un: "unat (of_nat n :: u64) = n" by (rule unat_of_nat_small) (use n in simp)
  have u8: "n \<le> 128 \<Longrightarrow> unat (of_nat n :: u8) = n" by (rule unat_of_nat_small) simp
  have u16: "n \<le> 4096 \<Longrightarrow> unat (of_nat n :: u16) = n" by (rule unat_of_nat_small) simp
  show "\<not> 128 < pm \<Longrightarrow> 1 \<le> (ucast (ucast pm :: u32) :: u8) \<and> (ucast (ucast pm :: u32) :: u8) \<le> 128"
    using pos un u8 unfolding n(1) ucast_of_nat by (simp add: word_le_nat_alt word_less_nat_alt)
  show "\<not> 4096 < pm \<Longrightarrow> 1 \<le> (ucast (ucast pm :: u32) :: u16) \<and> (ucast (ucast pm :: u32) :: u16) \<le> 4096"
    using pos un u16 unfolding n(1) ucast_of_nat by (simp add: word_le_nat_alt word_less_nat_alt)
qed

lemma config_stored:
  assumes "config_loop split n mk s [] = (r, ps)"
  shows "length ps \<le> MAX_LCORE_PARAMS \<and> unat (of_nat (length ps) :: u16) = length ps"
proof -
  have "length ps \<le> MAX_LCORE_PARAMS" using config_loop_bound [of "[]" split n mk s] assms by simp
  then show ?thesis by (simp add: MAX_LCORE_PARAMS_def unat_of_nat_small)
qed

lemma pth_opt_step_ok: "pth_opt_step split opt a = Inr a' \<Longrightarrow> app_ok a \<Longrightarrow> app_ok a'"
  using clipped_bounds
  by (cases opt)
     (auto simp: pth_opt_step_def app_ok_def parse_rx_queue_nb_def parse_rx_desc_nb_def
       parse_rx_config_def parse_tx_config_def MAX_RX_QUEUE_PER_PORT_def MAX_RX_DESC_def Let_def
       dest: config_stored split: prod.splits if_splits)

text \<open>
  C23: Whenever \<^verbatim>\<open>parse_args\<close> of the pthread version does not return -1, the globals are well formed: the
  queue number is between 1 and 128, the number of descriptors between 1 and 4096, some port is
  enabled, and the two parameter counts are the lengths of the parameter arrays, at most 1024 -
  for every sequence of options with any arguments, from well-formed globals such as the initial
  ones.
\<close>

theorem parse_args_well_formed:
  assumes "app_ok a" "pth_parse_args split optind opts a = (ret, a')" "0 < optind"
  shows "ret = -1 \<or> (ret = optind - 1 \<and> app_ok a')"
proof (cases "run (pth_opt_step split) opts a")
  case (Inl b)
  then show ?thesis using assms(2) by (simp add: pth_parse_args_def)
next
  case (Inr b)
  then have "app_ok b"
    using run_invariant [where I = app_ok, OF Inr assms(1)] pth_opt_step_ok by blast
  then show ?thesis using assms(2) Inr by (simp add: pth_parse_args_def)
qed

theorem parse_args_well_formed_witness:
  "app_ok (snd (pth_parse_args (\<lambda>s n c. []) 2 [Opt_nb_rxq ''9999'', Opt_nb_rx_desc ''0x''] pth_app_default))"
proof -
  have ok: "app_ok pth_app_default"
    by (simp add: app_ok_def pth_app_default_def MAX_RX_QUEUE_PER_PORT_def MAX_RX_DESC_def
        MAX_LCORE_PARAMS_def pth_default_rx_def pth_default_tx_def)
  have "fst (pth_parse_args (\<lambda>s n c. []) 2 [Opt_nb_rxq ''9999'', Opt_nb_rx_desc ''0x''] pth_app_default) = 1"
    by (simp add: pth_parse_args_def pth_opt_step_def Let_def)
  then show ?thesis
    using parse_args_well_formed [OF ok, where split = "\<lambda>s n c. []" and optind = 2
        and opts = "[Opt_nb_rxq ''9999'', Opt_nb_rx_desc ''0x'']", OF prod.collapse [symmetric]] by simp
qed

text \<open>
  The burst size is not checked after its conversion to 16 bits: the option accepts every
  decimal value from 1 to 2^31 - 1 and leaves its low 16 bits, so every multiple of 65536 leaves a
  burst size of zero, with which each receive call asks for no packet.
\<close>

theorem burst_size_option:
  assumes "0 < n" "n < 2 ^ 31"
  shows "\<exists>a'. pth_opt_step split (Opt_burst_size (show_base 10 n)) a = Inr a' \<and>
    unat (burst_size a') = n mod 65536"
proof -
  have st: "strtoul 10 (show_base 10 n) = (of_nat n, [], False)"
    by (rule strtoul_show_dec) (use assms in simp)
  have nz: "(of_nat n :: u64) \<noteq> 0"
    using assms unat_of_nat_small [of n, where 'w = 64] by auto
  have "unat (of_nat n :: u32) = n" by (rule unat_of_nat_small) (use assms in simp)
  moreover have "unat (-1 :: u32) = 4294967295"
    by (simp add: unsigned_minus_1_eq_mask mask_eq_exp_minus_1)
  ultimately have "(of_nat n :: u32) \<noteq> -1" using assms by force
  moreover have "unat (ucast (of_nat n :: u32) :: u16) = n mod 65536"
    by (simp add: ucast_of_nat unsigned_of_nat take_bit_eq_mod)
  ultimately show ?thesis
    by (simp add: pth_opt_step_def parse_rx_burst_size_def st nz ucast_of_nat show_base_nonempty Let_def)
qed

theorem burst_size_option_witness:
  "\<exists>a'. pth_opt_step (\<lambda>s n c. []) (Opt_burst_size (show_base 10 65536)) pth_app_default = Inr a' \<and>
    unat (burst_size a') = 0"
  using burst_size_option [of 65536 "\<lambda>s n c. []" pth_app_default] by simp

end
