(* ===== verification/Startup.thy ===== *)
theory Startup
  imports Command_Line Pipeline Double_Hash
begin

text \<open>
  Start-up of the three versions: the \<^verbatim>\<open>main\<close> functions, the port initialisation and the launching
  of the threads. Every call of the DPDK device interface is an entry of a log, and its result is
  given by a parameter \<open>api\<close> from the calls made before, so a run is any behaviour of the devices.
  Texts that are only printed are left out.
\<close>

section \<open>Device calls\<close>

text \<open>
  \<open>Pool_create q\<close> is \<^verbatim>\<open>rte_pktmbuf_pool_create\<close> of the pool named after queue \<open>q\<close> (0 is the null
  pointer); \<open>Rx_queue_setup port queue descriptors pool\<close> names the pool by the queue it was made for,
  \<open>None\<close> for a null pointer.
\<close>

datatype dev_call =
    Pool_create nat
  | Dev_configure u8 u16 u16
  | Rx_queue_setup u8 u16 u16 "nat option"
  | Dev_start u8
  | Promiscuous_enable u8

type_synonym dev_log = "dev_call list"
type_synonym dev_api = "dev_log \<Rightarrow> dev_call \<Rightarrow> int"

text \<open>A call whose result the code tests: \<open>ok\<close> is the test passed, \<open>err\<close> how the code leaves otherwise.\<close>

definition dev :: "dev_api \<Rightarrow> dev_call \<Rightarrow> (int \<Rightarrow> bool) \<Rightarrow> fw_error \<Rightarrow> dev_log \<Rightarrow> fw_error + dev_log" where
  "dev api c ok err tr = (if ok (api tr c) then Inr (tr @ [c]) else Inl err)"

text \<open>\<open>if (ret < 0) rte_exit(...)\<close> after a function that returns -1.\<close>

definition or_exit :: "string \<Rightarrow> fw_error + 'a \<Rightarrow> fw_error + 'a" where
  "or_exit msg r = (case r of Inl (Failed _) \<Rightarrow> Inl (Exit_failure msg) | _ \<Rightarrow> r)"

section \<open>Run-to-completion version\<close>

text \<open>\<^verbatim>\<open>port_init\<close> after the flow table: configure, set up the queues, start, promiscuous mode.\<close>

definition rtc_port_dev :: "dev_api \<Rightarrow> nat \<Rightarrow> u8 \<Rightarrow> dev_log \<Rightarrow> fw_error + dev_log" where
  "rtc_port_dev api dev_count port tr =
     (if unat port \<ge> dev_count then Inl (Failed ''no such port'')
      else
        sbind (dev api (Dev_configure port (of_nat RTC_RX_RINGS) 0) (\<lambda>r. r = 0) (Failed ''rte_eth_dev_configure'') tr) (\<lambda>tr.
        sbind (run (\<lambda>q. dev api (Rx_queue_setup port (of_nat q) 4096 (Some q)) (\<lambda>r. 0 \<le> r) (Failed ''rte_eth_rx_queue_setup''))
                 [0..<RTC_RX_RINGS] tr) (\<lambda>tr.
        sbind (dev api (Dev_start port) (\<lambda>r. 0 \<le> r) (Failed ''rte_eth_dev_start'') tr) (\<lambda>tr.
        Inr (tr @ [Promiscuous_enable port])))))"

text \<open>
  \<open>init_flows\<close> is the initialisation of the flow table that is compiled in: \<open>init_table\<close> of
  \<open>dh_init_bucket\<close>, \<open>flow_struct_init\<close> or \<open>hl_init_table\<close>.
\<close>

definition rtc_port_init ::
  "(fw_error + 't) \<Rightarrow> dev_api \<Rightarrow> nat \<Rightarrow> u8 \<Rightarrow> dev_log \<Rightarrow> fw_error + 't \<times> dev_log"
where
  "rtc_port_init init_flows api dev_count port tr =
     sbind init_flows (\<lambda>t. sbind (rtc_port_dev api dev_count port tr) (\<lambda>tr. Inr (t, tr)))"

text \<open>The launching loop over the slave cores: the pairs of core and queue.\<close>

fun rtc_launch :: "nat list \<Rightarrow> nat \<Rightarrow> (nat \<times> nat) list" where
  "rtc_launch [] q = []"
| "rtc_launch (l # ls) q = (l, q) # (if q = RTC_RX_RINGS - 1 then [] else rtc_launch ls (q + 1))"

text \<open>\<open>eal_ret\<close> is the result of \<^verbatim>\<open>rte_eal_init\<close>, \<open>slaves\<close> the slave cores in order; the port is 0.\<close>

definition rtc_main ::
  "int \<Rightarrow> (fw_error + 't) \<Rightarrow> dev_api \<Rightarrow> nat \<Rightarrow> nat list \<Rightarrow> fw_error + 't \<times> dev_log \<times> (nat \<times> nat) list"
where
  "rtc_main eal_ret init_flows api dev_count slaves =
     (if eal_ret < 0 then Inl (Exit_failure ''Error with EAL initialization'')
      else
        sbind (run (\<lambda>q. dev api (Pool_create q) (\<lambda>r. r \<noteq> 0) (Exit_failure ''Cannot create mbuf pool''))
                 [0..<RTC_RX_RINGS] []) (\<lambda>tr.
        sbind (or_exit ''Cannot init port'' (rtc_port_init init_flows api dev_count 0 tr)) (\<lambda>(t, tr).
        Inr (t, tr, rtc_launch slaves 0))))"

section \<open>pthread version\<close>

text \<open>The loop over the queues of a port: a pool and a queue for every receiving thread.\<close>

definition pth_queue_init :: "dev_api \<Rightarrow> u8 \<Rightarrow> u16 \<Rightarrow> nat \<Rightarrow> dev_log \<Rightarrow> fw_error + dev_log" where
  "pth_queue_init api port desc qid tr =
     (if qid < NB_SOCKETS then
        sbind (dev api (Pool_create qid) (\<lambda>r. r \<noteq> 0) (Exit_failure ''Cannot init mbuf pool'') tr) (\<lambda>tr.
        dev api (Rx_queue_setup port (of_nat qid) desc (Some qid)) (\<lambda>r. 0 \<le> r)
          (Exit_failure ''Cannot setup queue'') tr)
      else Inl (Undefined ''pktmbuf_pool index out of range''))"

definition pth_port_init ::
  "dev_api \<Rightarrow> u16 \<Rightarrow> u16 \<Rightarrow> bool \<Rightarrow> u8 \<Rightarrow> dev_log \<Rightarrow> fw_error + dev_log"
where
  "pth_port_init api n_rx_thread desc prom portid tr =
     sbind (dev api (Dev_configure portid n_rx_thread 0) (\<lambda>r. 0 \<le> r) (Exit_failure ''Cannot configure device'') tr) (\<lambda>tr.
     sbind (run (pth_queue_init api portid desc) [0..<unat n_rx_thread] tr) (\<lambda>tr.
     sbind (dev api (Dev_start portid) (\<lambda>r. 0 \<le> r) (Exit_failure ''Cannot start port'') tr) (\<lambda>tr.
     Inr (if prom then tr @ [Promiscuous_enable portid] else tr))))"

text \<open>Ports are numbered below \<^verbatim>\<open>RTE_MAX_ETHPORTS\<close>, 32, so the shift \<open>1 << portid\<close> selects a bit of the mask.\<close>

definition pth_ports ::
  "dev_api \<Rightarrow> u32 \<Rightarrow> nat \<Rightarrow> u16 \<Rightarrow> u16 \<Rightarrow> bool \<Rightarrow> dev_log \<Rightarrow> fw_error + dev_log"
where
  "pth_ports api pmask nb_ports n_rx_thread desc prom tr =
     run (\<lambda>portid tr. if bit pmask portid then pth_port_init api n_rx_thread desc prom (of_nat portid) tr
                      else Inr tr) [0..<nb_ports] tr"

text \<open>What the threads find when they are launched.\<close>

record ('r, 't) pth_boot =
  b_app :: pth_app
  b_gctr :: "u64 list"
  b_n_rx :: u16
  b_rx :: "nat \<Rightarrow> 'r rx_conf"
  b_n_tx :: u16
  b_tx :: "nat \<Rightarrow> 'r tx_conf"
  b_log :: dev_log
  b_flows :: 't

text \<open>The static arrays \<^verbatim>\<open>rx_thread\<close> and \<^verbatim>\<open>tx_thread\<close> are zero at start; \<open>max_lcore\<close> is \<^verbatim>\<open>RTE_MAX_LCORE\<close>.\<close>

definition zero_rx :: "nat \<Rightarrow> nat \<Rightarrow> 'r rx_conf" where
  "zero_rx max_lcore = (\<lambda>i. \<lparr>rx_tc = \<lparr>tc_lcore = 0, tc_cpu = 0, tc_thread = 0\<rparr>, n_rx_queue = 0,
     rx_queue_list = replicate MAX_RX_QUEUE_PER_LCORE (0, 0), n_ring = 0, rx_ring = replicate max_lcore None\<rparr>)"

definition zero_tx :: "nat \<Rightarrow> 'r tx_conf" where
  "zero_tx = (\<lambda>i. \<lparr>tx_tc = \<lparr>tc_lcore = 0, tc_cpu = 0, tc_thread = 0\<rparr>, tx_ring = None\<rparr>)"

definition pth_main ::
  "int \<Rightarrow> (string \<Rightarrow> nat \<Rightarrow> char \<Rightarrow> string list) \<Rightarrow> int \<Rightarrow> pth_opt list \<Rightarrow> nat \<Rightarrow>
   (u16 \<Rightarrow> u32) \<Rightarrow> (u32 \<Rightarrow> nat \<Rightarrow> nat \<Rightarrow> 'r option) \<Rightarrow> dev_api \<Rightarrow> nat \<Rightarrow> (fw_error + 't) \<Rightarrow>
   fw_error + ('r, 't) pth_boot"
where
  "pth_main eal_ret split optind opts max_lcore socket_of mk api nb_ports init_flows =
     (let gctr = pth_alloc_gctr 0 in
      if eal_ret < 0 then Inl (Exit_failure ''Error with EAL initialization'')
      else let (ret, a) = pth_parse_args split optind opts pth_app_default in
      if ret < 0 then Inl (Exit_failure ''Wrong APP parameters'')
      else
        sbind (or_exit ''init_rx_queues failed''
          (pth_init_rx_queues (take (unat (nb_rx a)) (rx_list a)) (zero_rx max_lcore))) (\<lambda>(n_rx, rx).
        let (n_tx, tx) = init_tx_threads (take (unat (nb_tx a)) (tx_list a)) zero_tx in
        sbind (or_exit ''init_rx_rings failed'' (init_rx_rings socket_of mk n_tx (rx, tx))) (\<lambda>(rx, tx).
        sbind (pth_ports api (enabled_port_mask a) nb_ports n_rx (nb_rx_desc a) (promiscuous_on a) []) (\<lambda>tr.
        sbind init_flows (\<lambda>t.
        Inr \<lparr>b_app = a, b_gctr = gctr, b_n_rx = n_rx, b_rx = rx, b_n_tx = n_tx, b_tx = tx,
             b_log = tr, b_flows = t\<rparr>)))))"

text \<open>What a launched core does: the first receiving thread with its number, else the first counting thread.\<close>

datatype role = Run_rx nat | Run_tx nat | Idle

definition pthread_run :: "('r, 't) pth_boot \<Rightarrow> u16 \<Rightarrow> role" where
  "pthread_run b l =
     (case find (\<lambda>i. tc_lcore (rx_tc (b_rx b i)) = l) [0..<unat (b_n_rx b)] of
        Some i \<Rightarrow> Run_rx i
      | None \<Rightarrow>
          (case find (\<lambda>i. tc_lcore (tx_tc (b_tx b i)) = l) [0..<unat (b_n_tx b)] of
             Some i \<Rightarrow> Run_tx i
           | None \<Rightarrow> Idle))"

section \<open>L-thread version\<close>

text \<open>
  The loop that configures the enabled ports; \<^verbatim>\<open>init_mem1\<close> creates a pool per receiving thread for
  each of them. \<open>mem_ret\<close> is the value used as its result: the function has no return statement.
\<close>

type_synonym lt_dev = "nat option list \<times> dev_log"

definition lt_port_config ::
  "dev_api \<Rightarrow> int \<Rightarrow> rx_params list \<Rightarrow> u16 \<Rightarrow> nat \<Rightarrow> lt_dev \<Rightarrow> fw_error + lt_dev"
where
  "lt_port_config api mem_ret ps n_rx_thread portid s =
     (let (pool, tr) = s; nb_rx_queue = get_port_n_rx_queues ps (of_nat portid) in
      sbind (dev api (Dev_configure (of_nat portid) (ucast nb_rx_queue) 0) (\<lambda>r. 0 \<le> r)
               (Exit_failure ''Cannot configure device'') tr) (\<lambda>tr.
      sbind (init_mem1 (\<lambda>q. if api (tr @ map Pool_create [0..<q]) (Pool_create q) \<noteq> 0 then Some q else None)
               n_rx_thread pool) (\<lambda>pool.
      if mem_ret < 0 then Inl (Exit_failure ''init_mem failed'')
      else Inr (pool, tr @ map Pool_create [0..<unat n_rx_thread]))))"

definition lt_ports_config ::
  "dev_api \<Rightarrow> int \<Rightarrow> u32 \<Rightarrow> nat \<Rightarrow> rx_params list \<Rightarrow> u16 \<Rightarrow> fw_error + lt_dev"
where
  "lt_ports_config api mem_ret pmask nb_ports ps n_rx_thread =
     run (\<lambda>portid s. if bit pmask portid then lt_port_config api mem_ret ps n_rx_thread portid s else Inr s)
       [0..<nb_ports] (replicate NB_SOCKETS None, [])"

text \<open>The queues of one receiving thread, each with the pool of its queue number.\<close>

definition lt_queue_setup :: "dev_api \<Rightarrow> nat option list \<Rightarrow> u8 \<times> u8 \<Rightarrow> dev_log \<Rightarrow> fw_error + dev_log" where
  "lt_queue_setup api pool pq tr =
     (if unat (snd pq) < length pool then
        dev api (Rx_queue_setup (fst pq) (ucast (snd pq)) 4096 (pool ! unat (snd pq))) (\<lambda>r. 0 \<le> r)
          (Exit_failure ''rte_eth_rx_queue_setup'') tr
      else Inl (Undefined ''pktmbuf_pool index out of range''))"

definition lt_thread_queues ::
  "dev_api \<Rightarrow> (u16 \<Rightarrow> bool) \<Rightarrow> nat option list \<Rightarrow> (nat \<Rightarrow> 'r rx_conf) \<Rightarrow> nat \<Rightarrow> dev_log \<Rightarrow> fw_error + dev_log"
where
  "lt_thread_queues api enabled pool rx i tr =
     (if \<not> enabled (tc_lcore (rx_tc (rx i))) then Inl (Exit_failure ''Cannot start Rx thread: lcore disabled'')
      else run (lt_queue_setup api pool) (take (unat (n_rx_queue (rx i))) (rx_queue_list (rx i))) tr)"

definition lt_start_ports :: "dev_api \<Rightarrow> u32 \<Rightarrow> nat \<Rightarrow> bool \<Rightarrow> dev_log \<Rightarrow> fw_error + dev_log" where
  "lt_start_ports api pmask nb_ports prom tr =
     run (\<lambda>portid tr. if bit pmask portid then
            sbind (dev api (Dev_start (of_nat portid)) (\<lambda>r. 0 \<le> r) (Exit_failure ''rte_eth_dev_start'') tr)
              (\<lambda>tr. Inr (if prom then tr @ [Promiscuous_enable (of_nat portid)] else tr))
          else Inr tr) [0..<nb_ports] tr"

definition lt_app_default :: lt_app where
  "lt_app_default = \<lparr>l_port_mask = 0, l_promiscuous_on = False, l_numa_on = True, l_write = False,
     l_rx_list = lt_default_rx, l_nb_rx = of_nat (length lt_default_rx),
     l_tx_list = lt_default_tx, l_nb_tx = of_nat (length lt_default_tx)\<rparr>"

record ('r, 't) lt_boot =
  lb_app :: lt_app
  lb_n_rx :: u16
  lb_rx :: "nat \<Rightarrow> 'r rx_conf"
  lb_n_tx :: u16
  lb_tx :: "nat \<Rightarrow> 'r tx_conf"
  lb_log :: dev_log
  lb_flows :: 't

definition lt_main ::
  "int \<Rightarrow> (string \<Rightarrow> nat \<Rightarrow> char \<Rightarrow> string list) \<Rightarrow> int \<Rightarrow> lt_opt list \<Rightarrow> nat \<Rightarrow> (u16 \<Rightarrow> bool) \<Rightarrow>
   (u16 \<Rightarrow> u32) \<Rightarrow> (u32 \<Rightarrow> nat \<Rightarrow> nat \<Rightarrow> 'r option) \<Rightarrow> dev_api \<Rightarrow> int \<Rightarrow> nat \<Rightarrow> (fw_error + 't) \<Rightarrow>
   fw_error + ('r, 't) lt_boot"
where
  "lt_main eal_ret split optind opts max_lcore enabled socket_of mk api mem_ret nb_ports init_flows =
     (if eal_ret < 0 then Inl (Exit_failure ''invalid EAL parameters'')
      else let (ret, a) = lt_parse_args split optind opts lt_app_default in
      if ret < 0 then Inl (Exit_failure ''Invalid Flowcount parameters'')
      else let ps = take (unat (l_nb_rx a)) (l_rx_list a) in
        sbind (or_exit ''check_lcore_params failed'' (check_lcore_params (\<lambda>l. enabled (ucast l)) ps)) (\<lambda>_.
        sbind (or_exit ''init_rx_queues failed'' (lt_init_rx_queues ps (zero_rx max_lcore))) (\<lambda>(n_rx, rx).
        let (n_tx, tx) = init_tx_threads (take (unat (l_nb_tx a)) (l_tx_list a)) zero_tx in
        sbind (or_exit ''init_rx_rings failed'' (init_rx_rings socket_of mk n_tx (rx, tx))) (\<lambda>(rx, tx).
        sbind (lt_ports_config api mem_ret (l_port_mask a) nb_ports ps n_rx) (\<lambda>(pool, tr).
        sbind init_flows (\<lambda>t.
        sbind (run (lt_thread_queues api enabled pool rx) [0..<unat n_rx] tr) (\<lambda>tr.
        sbind (lt_start_ports api (l_port_mask a) nb_ports (l_promiscuous_on a) tr) (\<lambda>tr.
        Inr \<lparr>lb_app = a, lb_n_rx = n_rx, lb_rx = rx, lb_n_tx = n_tx, lb_tx = tx, lb_log = tr,
             lb_flows = t\<rparr>))))))))"

text \<open>
  The first lthread: it numbers the receiving threads and creates them, waits until all of them have
  counted themselves in \<^verbatim>\<open>rx_counter\<close>, whose successive readings are \<open>counter\<close>, and then numbers and
  creates the counting threads. \<open>None\<close> as the second result: it is still waiting after \<open>fuel\<close> readings.
\<close>

definition spawn_rx :: "u16 \<Rightarrow> (nat \<Rightarrow> 'r rx_conf) \<Rightarrow> nat \<Rightarrow> 'r rx_conf" where
  "spawn_rx n_rx rx = (\<lambda>i. if i < unat n_rx
     then (rx i)\<lparr>rx_tc := (rx_tc (rx i))\<lparr>tc_thread := of_nat i\<rparr>\<rparr> else rx i)"

definition spawn_tx :: "u16 \<Rightarrow> (nat \<Rightarrow> 'r tx_conf) \<Rightarrow> nat \<Rightarrow> 'r tx_conf" where
  "spawn_tx n_tx tx = (\<lambda>i. if i < unat n_tx
     then (tx i)\<lparr>tx_tc := (tx_tc (tx i))\<lparr>tc_thread := of_nat i\<rparr>\<rparr> else tx i)"

fun wait_counter :: "(nat \<Rightarrow> nat) \<Rightarrow> nat \<Rightarrow> nat \<Rightarrow> nat \<Rightarrow> bool" where
  "wait_counter counter n_rx k 0 = False"
| "wait_counter counter n_rx k (Suc fuel) =
     (if counter k < n_rx then wait_counter counter n_rx (k + 1) fuel else True)"

definition lthread_spawner ::
  "(nat \<Rightarrow> nat) \<Rightarrow> nat \<Rightarrow> ('r, 't) lt_boot \<Rightarrow> (nat \<Rightarrow> 'r rx_conf) \<times> (nat \<Rightarrow> 'r tx_conf) option"
where
  "lthread_spawner counter fuel b =
     (spawn_rx (lb_n_rx b) (lb_rx b),
      if wait_counter counter (unat (lb_n_rx b)) 0 fuel then Some (spawn_tx (lb_n_tx b) (lb_tx b)) else None)"

end
