(* ===== verification/Startup_Correct.thy ===== *)
theory Startup_Correct
  imports Startup Command_Line_Correct Thread_Config_Correct
begin

text \<open>
  Start-up: which device calls a successful start has made and in which order, that each of them
  succeeded, which configurations cannot start, and what every core runs in the default
  configuration of the pthread version.
\<close>

section \<open>Logs of successful calls\<close>

text \<open>The test that the code makes of the result of a call; switching promiscuous mode on is not tested.\<close>

definition call_ok :: "dev_call \<Rightarrow> int \<Rightarrow> bool" where
  "call_ok c r = (case c of Pool_create _ \<Rightarrow> r \<noteq> 0 | Promiscuous_enable _ \<Rightarrow> True | _ \<Rightarrow> 0 \<le> r)"

definition accepted :: "dev_api \<Rightarrow> dev_log \<Rightarrow> bool" where
  "accepted api tr \<longleftrightarrow> (\<forall>i<length tr. call_ok (tr ! i) (api (take i tr) (tr ! i)))"

lemma accepted_Nil [simp]: "accepted api []"
  by (simp add: accepted_def)

lemma accepted_snoc [simp]:
  "accepted api (tr @ [c]) \<longleftrightarrow> accepted api tr \<and> call_ok c (api tr c)"
  by (auto simp: accepted_def nth_append less_Suc_eq)

text \<open>\<open>extends api tr cs r\<close>: when the step \<open>r\<close> from the log \<open>tr\<close> succeeds, it has made the calls \<open>cs\<close>.\<close>

definition extends :: "dev_api \<Rightarrow> dev_log \<Rightarrow> dev_log \<Rightarrow> fw_error + dev_log \<Rightarrow> bool" where
  "extends api tr cs r \<longleftrightarrow>
     (\<forall>tr'. r = Inr tr' \<longrightarrow> tr' = tr @ cs \<and> (accepted api tr \<longrightarrow> accepted api tr'))"

lemma extendsD:
  "extends api tr cs r \<Longrightarrow> r = Inr tr' \<Longrightarrow> tr' = tr @ cs"
  "extends api tr cs r \<Longrightarrow> r = Inr tr' \<Longrightarrow> accepted api tr \<Longrightarrow> accepted api tr'"
  unfolding extends_def by blast+

lemma extendsI:
  "(\<And>t. r = Inr t \<Longrightarrow> t = tr @ cs) \<Longrightarrow>
   (\<And>t. r = Inr t \<Longrightarrow> accepted api tr \<Longrightarrow> accepted api t) \<Longrightarrow> extends api tr cs r"
  unfolding extends_def by blast

lemma extends_dev:
  "(\<And>r. ok r \<Longrightarrow> call_ok c r) \<Longrightarrow> extends api tr [c] (dev api c ok err tr)"
  by (simp add: extends_def dev_def)

lemma extends_Inr: "extends api tr [] (Inr tr)"
  by (simp add: extends_def)

lemma extends_promisc: "extends api tr [Promiscuous_enable p] (Inr (tr @ [Promiscuous_enable p]))"
  by (simp add: extends_def call_ok_def)

lemma extends_Inl: "extends api tr cs (Inl e)"
  by (simp add: extends_def)

lemma extends_sbind:
  assumes "extends api tr cs r" "\<And>t. extends api t ds (f t)"
  shows "extends api tr (cs @ ds) (sbind r f)"
proof (rule extendsI)
  fix t assume "sbind r f = Inr t"
  then obtain u where u: "r = Inr u" "f u = Inr t" by (rule sbindE)
  show "t = tr @ cs @ ds"
    using extendsD(1) [OF assms(1) u(1)] extendsD(1) [OF assms(2) u(2)] by simp
  show "accepted api t" if "accepted api tr"
    using extendsD(2) [OF assms(1) u(1) that] extendsD(2) [OF assms(2) u(2)] by simp
qed

lemma extends_run:
  assumes "\<And>x t. x \<in> set xs \<Longrightarrow> extends api t (cs x) (f x t)"
  shows "extends api tr (concat (map cs xs)) (run f xs tr)"
  using assms
proof (induction xs arbitrary: tr)
  case Nil
  then show ?case by (simp add: extends_Inr)
next
  case (Cons x xs)
  have "run f (x # xs) tr = sbind (f x tr) (run f xs)"
    by (simp add: sbind_def split: sum.split)
  then show ?case
    using extends_sbind [of api tr "cs x" "f x tr" "concat (map cs xs)" "run f xs"] Cons by simp
qed

lemmas extends_intros = extends_sbind extends_dev extends_run

section \<open>The calls of each version\<close>

text \<open>The calls of one port of the pthread version with \<open>n\<close> queues.\<close>

definition queue_calls :: "u8 \<Rightarrow> u16 \<Rightarrow> nat \<Rightarrow> dev_log" where
  "queue_calls port desc q = [Pool_create q] @ [Rx_queue_setup port (of_nat q) desc (Some q)]"

definition port_calls :: "u16 \<Rightarrow> u16 \<Rightarrow> bool \<Rightarrow> nat \<Rightarrow> dev_log" where
  "port_calls n desc prom p = [Dev_configure (of_nat p) n 0]
     @ concat (map (queue_calls (of_nat p) desc) [0..<unat n]) @ [Dev_start (of_nat p)]
     @ (if prom then [Promiscuous_enable (of_nat p)] else [])"

lemma pth_queue_calls:
  "extends api tr (queue_calls port desc q) (pth_queue_init api port desc q tr)"
proof (cases "q < NB_SOCKETS")
  case True
  then show ?thesis
    unfolding queue_calls_def pth_queue_init_def
    by (simp only: if_True) (intro extends_sbind extends_dev; simp add: call_ok_def)
qed (simp add: pth_queue_init_def extends_Inl)

lemma pth_port_calls:
  "extends api tr (port_calls n desc prom p) (pth_port_init api n desc prom (of_nat p) tr)"
  unfolding port_calls_def pth_port_init_def
  by (intro extends_sbind extends_dev extends_run pth_queue_calls)
     (simp_all add: call_ok_def extends_Inr extends_promisc)

lemma pth_ports_calls:
  "extends api tr (concat (map (\<lambda>p. if bit m p then port_calls n desc prom p else []) [0..<nb]))
     (pth_ports api m nb n desc prom tr)"
  unfolding pth_ports_def
  by (rule extends_run) (simp add: pth_port_calls extends_Inr)

lemma run_each:
  "run f xs s = Inr t \<Longrightarrow> x \<in> set xs \<Longrightarrow> \<exists>u v. f x u = Inr v"
  by (induction xs arbitrary: s) (auto split: sum.splits)

lemma pth_port_queues:
  assumes "pth_port_init api n desc prom port tr = Inr tr'"
  shows "unat n \<le> NB_SOCKETS"
proof (rule ccontr)
  assume "\<not> unat n \<le> NB_SOCKETS"
  then have m: "NB_SOCKETS \<in> set [0..<unat n]" by simp
  obtain t u where "run (pth_queue_init api port desc) [0..<unat n] t = Inr u"
    using assms unfolding pth_port_init_def by (auto elim!: sbindE)
  from run_each [OF this m] show False by (simp add: pth_queue_init_def)
qed

lemma pth_ports_queues:
  assumes "pth_ports api m nb n desc prom tr = Inr tr'" "bit m p" "p < nb"
  shows "unat n \<le> NB_SOCKETS"
proof -
  have "p \<in> set [0..<nb]" using assms(3) by simp
  from run_each [OF assms(1) [unfolded pth_ports_def] this] assms(2)
  show ?thesis using pth_port_queues by auto
qed

lemma or_exit_Inr [simp]: "or_exit msg r = Inr x \<longleftrightarrow> r = Inr x"
  by (auto simp: or_exit_def split: sum.splits fw_error.splits)

lemma pth_main_ports:
  assumes "pth_main eal_ret split optind opts max_lcore socket_of mk api nb_ports init_flows = Inr b"
  shows "pth_ports api (enabled_port_mask (b_app b)) nb_ports (b_n_rx b) (nb_rx_desc (b_app b))
      (promiscuous_on (b_app b)) [] = Inr (b_log b)"
    and "\<exists>ret. 0 \<le> ret \<and> pth_parse_args split optind opts pth_app_default = (ret, b_app b)"
    and "b_gctr b = []"
  using assms
  by (auto simp: pth_main_def Let_def pth_alloc_gctr_def not_less elim!: sbindE split: if_splits prod.splits)

text \<open>The same call cannot succeed twice when the devices refuse a repeated name.\<close>

definition unique_pool_names :: "dev_api \<Rightarrow> bool" where
  "unique_pool_names api \<longleftrightarrow> (\<forall>tr q. Pool_create q \<in> set tr \<longrightarrow> api tr (Pool_create q) = 0)"

lemma accepted_at: "accepted api (xs @ c # ys) \<Longrightarrow> call_ok c (api xs c)"
  unfolding accepted_def by (drule spec [of _ "length xs"]) simp

lemma accepted_pool_once:
  assumes "unique_pool_names api" "accepted api (xs @ Pool_create q # ys)"
  shows "Pool_create q \<notin> set xs"
  using accepted_at [OF assms(2)] assms(1) by (auto simp: unique_pool_names_def call_ok_def)

lemma port_calls_pool:
  assumes "n \<noteq> 0"
  shows "\<exists>c ys. port_calls n desc prom p = [c] @ Pool_create 0 # ys"
proof -
  have "0 < unat n" using assms by (simp add: unat_gt_0)
  then show ?thesis by (auto simp: port_calls_def queue_calls_def upt_conv_Cons)
qed

abbreviation per_port :: "u32 \<Rightarrow> nat \<Rightarrow> (nat \<Rightarrow> dev_log) \<Rightarrow> dev_log" where
  "per_port m nb f \<equiv> concat (map (\<lambda>p. if bit m p then f p else []) [0..<nb])"

text \<open>So a log with calls for two ports that both create pool 0 is not accepted.\<close>

lemma two_ports_repeat:
  assumes "p < p'" "p' < nb" "bit m p" "bit m p'" and "unique_pool_names api"
    and pool: "\<And>i. \<exists>c zs. f i = [c] @ Pool_create 0 # zs"
  shows "\<not> accepted api (per_port m nb f @ tr)"
proof
  let ?g = "\<lambda>p. if bit m p then f p else []"
  assume acc: "accepted api (per_port m nb f @ tr)"
  have "[0..<nb] = [0..<p'] @ p' # [p' + 1..<nb]"
    using upt_add_eq_append [of 0 p' "nb - p'"] upt_conv_Cons [of p' nb] assms(2) by simp
  then have "per_port m nb f = concat (map ?g [0..<p']) @ f p' @ concat (map ?g [p' + 1..<nb])"
    using assms(4) by simp
  moreover obtain c ys where "f p' = [c] @ Pool_create 0 # ys" using pool by blast
  ultimately have "accepted api ((concat (map ?g [0..<p']) @ [c])
      @ Pool_create 0 # ys @ concat (map ?g [p' + 1..<nb]) @ tr)" using acc by simp
  from accepted_pool_once [OF assms(5) this] have "Pool_create 0 \<notin> set (?g p)" using assms(1) by auto
  then show False using pool [of p] assms(3) by auto
qed

text \<open>A receive parameter makes at least one receiving thread.\<close>

lemma rx_queue_step_count:
  assumes "rx_queue_step err p s = Inr s'"
  shows "fst s' \<noteq> 0"
proof (cases "ucast (thread_id p) \<ge> fst s")
  case True
  have "unat (ucast (thread_id p) + 1 :: u16) = unat (thread_id p) + 1"
    using unat_u8_less [of "thread_id p"]
    by (subst unat_add_lem [THEN iffD1]) (simp_all add: unat_ucast_u8_u16)
  then have "ucast (thread_id p) + 1 \<noteq> (0 :: u16)" by (metis Suc_eq_plus1 nat.simps(3) unat_0)
  then show ?thesis
    using assms True by (auto simp: rx_queue_step_def Let_def split: prod.splits if_splits)
next
  case False
  then have "fst s \<noteq> 0" by (metis word_zero_le)
  then show ?thesis
    using assms False by (auto simp: rx_queue_step_def Let_def split: prod.splits if_splits)
qed

lemma init_rx_queues_count:
  assumes "pth_init_rx_queues ps rx = Inr (n, rx')" "ps \<noteq> []"
  shows "n \<noteq> 0"
proof -
  obtain qs p where ps: "ps = qs @ [p]" using assms(2) by (metis rev_exhaust)
  show ?thesis
    using assms(1) unfolding pth_init_rx_queues_def ps
    by (auto simp: run_append dest: rx_queue_step_count split: sum.splits)
qed

lemma pth_main_threads:
  assumes "pth_main eal_ret split optind opts max_lcore socket_of mk api nb_ports init_flows = Inr b"
    and "take (unat (nb_rx (b_app b))) (rx_list (b_app b)) \<noteq> []"
  shows "b_n_rx b \<noteq> 0"
proof -
  have "\<exists>rx'. pth_init_rx_queues (take (unat (nb_rx (b_app b))) (rx_list (b_app b))) (zero_rx max_lcore
      :: nat \<Rightarrow> 'a rx_conf) = Inr (b_n_rx b, rx')"
    using assms(1) by (auto simp: pth_main_def Let_def elim!: sbindE split: if_splits prod.splits)
  then show ?thesis using init_rx_queues_count assms(2) by blast
qed

lemma or_exit_of_Inr [simp]: "or_exit msg (Inr x) = Inr x"
  by simp

lemma run_skip: "(\<And>x s. x \<in> set xs \<Longrightarrow> f x s = Inr s) \<Longrightarrow> run f xs s = Inr s"
  by (induction xs) auto

text \<open>Only port 3 is in the default mask.\<close>

lemma bit_default_mask: "bit (0x8 :: u32) p \<longleftrightarrow> p = 3"
proof -
  have "(0x8 :: u32) = 2 ^ 3" by simp
  then show ?thesis by (simp only: bit_exp_iff) auto
qed

text \<open>Devices that accept every call.\<close>

definition all_accepting :: "dev_api \<Rightarrow> bool" where
  "all_accepting api \<longleftrightarrow> (\<forall>tr c. call_ok c (api tr c))"

lemma all_acceptingD:
  assumes "all_accepting api"
  shows "api tr (Pool_create q) \<noteq> 0" "0 \<le> api tr (Dev_configure p n m)"
    "0 \<le> api tr (Rx_queue_setup p k d x)" "0 \<le> api tr (Dev_start p)"
proof -
  have ok: "call_ok c (api tr c)" for c using assms by (simp add: all_accepting_def)
  show "api tr (Pool_create q) \<noteq> 0" "0 \<le> api tr (Dev_configure p n m)"
    "0 \<le> api tr (Rx_queue_setup p k d x)" "0 \<le> api tr (Dev_start p)"
    using ok [of "Pool_create q"] ok [of "Dev_configure p n m"] ok [of "Rx_queue_setup p k d x"]
      ok [of "Dev_start p"] by (simp_all add: call_ok_def)
qed

lemma pth_queue_accepts:
  assumes "all_accepting api" "q < NB_SOCKETS"
  shows "pth_queue_init api port desc q tr = Inr (tr @ queue_calls port desc q)"
  using assms(2) all_acceptingD [OF assms(1)] by (simp add: pth_queue_init_def queue_calls_def dev_def)

lemma pth_queues_accept:
  assumes "all_accepting api" "m \<le> NB_SOCKETS"
  shows "run (pth_queue_init api port desc) [0..<m] tr
    = Inr (tr @ concat (map (queue_calls port desc) [0..<m]))"
  using assms(2)
  by (induction m) (simp_all add: run_append pth_queue_accepts [OF assms(1)])

lemma pth_port_accepts:
  assumes "all_accepting api" "unat n \<le> NB_SOCKETS"
  shows "pth_port_init api n desc prom (of_nat p) tr = Inr (tr @ port_calls n desc prom p)"
  by (simp add: pth_port_init_def port_calls_def dev_def all_acceptingD [OF assms(1)]
      pth_queues_accept [OF assms])

text \<open>The default parameters in the thread structures.\<close>

lemma default_rx_queues:
  "pth_init_rx_queues pth_default_rx (zero_rx max_lcore) = Inr (2, (zero_rx max_lcore)(
     0 := (zero_rx max_lcore 0)\<lparr>rx_tc := \<lparr>tc_lcore = 2, tc_cpu = 0, tc_thread = 0\<rparr>,
       n_rx_queue := 1, rx_queue_list := (replicate 16 (0, 0))[0 := (3, 0)]\<rparr>,
     1 := (zero_rx max_lcore 1)\<lparr>rx_tc := \<lparr>tc_lcore = 4, tc_cpu = 0, tc_thread = 1\<rparr>,
       n_rx_queue := 1, rx_queue_list := (replicate 16 (0, 0))[0 := (3, 1)]\<rparr>))"
  by (simp add: pth_init_rx_queues_def pth_default_rx_def rx_queue_step_def zero_rx_def Let_def
      MAX_RX_QUEUE_PER_LCORE_def)

lemma default_tx_threads:
  "init_tx_threads pth_default_tx zero_tx = (2, zero_tx(
     0 := \<lparr>tx_tc = \<lparr>tc_lcore = 6, tc_cpu = 0, tc_thread = 0\<rparr>, tx_ring = None\<rparr>,
     1 := \<lparr>tx_tc = \<lparr>tc_lcore = 8, tc_cpu = 0, tc_thread = 1\<rparr>, tx_ring = None\<rparr>))"
  by (simp add: init_tx_threads_def pth_default_tx_def init_tx_step_def zero_tx_def Let_def)

lemma default_starts:
  assumes "all_accepting api" "\<And>s r t. mk s r t \<noteq> None" "4 \<le> nb_ports" "0 < max_lcore"
  shows "\<exists>b. pth_main 0 split 1 [] max_lcore socket_of mk api nb_ports (Inr t) = Inr b \<and>
    b_log b = port_calls 2 4096 True 3 \<and> b_gctr b = [] \<and>
    (\<forall>l. pthread_run b l = (if l = 2 then Run_rx 0 else if l = 4 then Run_rx 1
       else if l = 6 then Run_tx 0 else if l = 8 then Run_tx 1 else Idle)) \<and>
    (\<forall>i<2. tx_ring (b_tx b i) \<noteq> None \<and> rx_ring (b_rx b i) ! 0 = tx_ring (b_tx b i))"
proof -
  obtain r0 where r0: "mk (socket_of 2) 0 0 = Some r0" using assms(2) by blast
  obtain r1 where r1: "mk (socket_of 4) 1 1 = Some r1" using assms(2) by blast
  have two: "[0..<2] = [0, Suc 0]" by (simp add: upt_conv_Cons)
  obtain rx0 :: "nat \<Rightarrow> 'a rx_conf" where
    rxq: "pth_init_rx_queues pth_default_rx (zero_rx max_lcore) = Inr (2, rx0)"
    and rx0: "tc_lcore (rx_tc (rx0 0)) = 2" "tc_lcore (rx_tc (rx0 (Suc 0))) = 4"
      "n_ring (rx0 0) = 0" "n_ring (rx0 (Suc 0)) = 0"
      "length (rx_ring (rx0 0)) = max_lcore" "length (rx_ring (rx0 (Suc 0))) = max_lcore"
    by (rule that [OF default_rx_queues]) (simp_all add: zero_rx_def)
  obtain tx0 :: "nat \<Rightarrow> 'a tx_conf" where
    txq: "init_tx_threads pth_default_tx zero_tx = (2, tx0)"
    and tx0: "tx_tc (tx0 0) = \<lparr>tc_lcore = 6, tc_cpu = 0, tc_thread = 0\<rparr>"
      "tx_tc (tx0 (Suc 0)) = \<lparr>tc_lcore = 8, tc_cpu = 0, tc_thread = 1\<rparr>"
    by (rule that [OF default_tx_threads]) simp_all
  obtain rx tx where ring: "init_rx_rings socket_of mk 2 (rx0, tx0) = Inr (rx, tx)"
    and lcores: "tc_lcore (rx_tc (rx 0)) = 2" "tc_lcore (rx_tc (rx (Suc 0))) = 4"
      "tc_lcore (tx_tc (tx 0)) = 6" "tc_lcore (tx_tc (tx (Suc 0))) = 8"
    and joined: "tx_ring (tx 0) = Some r0" "tx_ring (tx (Suc 0)) = Some r1"
      "rx_ring (rx 0) ! 0 = Some r0" "rx_ring (rx (Suc 0)) ! 0 = Some r1"
    using assms(4) r0 r1 rx0 tx0
    by (simp add: init_rx_rings_def two rx_ring_step_def Let_def)
  have ports: "pth_ports api 8 nb_ports 2 4096 True [] = Inr (port_calls 2 4096 True 3)"
  proof -
    let ?step = "\<lambda>p tr. if bit (8 :: u32) p then pth_port_init api 2 4096 True (of_nat p) tr else Inr tr"
    have "[0..<nb_ports] = [0..<3] @ 3 # [4..<nb_ports]"
      using upt_add_eq_append [of 0 3 "nb_ports - 3"] upt_conv_Cons [of 3 nb_ports] assms(3) by simp
    moreover have "run ?step [0..<3] [] = Inr []"
    proof (rule run_skip)
      fix x tr assume "x \<in> set [0..<3]"
      then have "\<not> bit (8 :: u32) x" using bit_default_mask [of x] by auto
      then show "?step x tr = Inr tr" by (rule if_not_P)
    qed
    moreover have "?step 3 [] = Inr (port_calls 2 4096 True 3)"
      using pth_port_accepts [OF assms(1), of 2 4096 True 3 "[]"] bit_default_mask [of 3]
      by (simp add: NB_SOCKETS_def)
    moreover have "run ?step [4..<nb_ports] tr = Inr tr" for tr
    proof (rule run_skip)
      fix x tr assume "x \<in> set [4..<nb_ports]"
      then have "\<not> bit (8 :: u32) x" using bit_default_mask [of x] by auto
      then show "?step x tr = Inr tr" by (rule if_not_P)
    qed
    ultimately show ?thesis by (simp add: pth_ports_def run_append)
  qed
  have args: "pth_parse_args split 1 [] pth_app_default = (0, pth_app_default)"
    by (simp add: pth_parse_args_def)
  have defaults: "take (unat (nb_rx pth_app_default)) (rx_list pth_app_default) = pth_default_rx"
    "take (unat (nb_tx pth_app_default)) (tx_list pth_app_default) = pth_default_tx"
    "enabled_port_mask pth_app_default = 8" "nb_rx_desc pth_app_default = 4096"
    "promiscuous_on pth_app_default"
    by (simp_all add: pth_app_default_def pth_default_rx_def pth_default_tx_def)
  define b where "b = \<lparr>b_app = pth_app_default, b_gctr = [], b_n_rx = 2, b_rx = rx, b_n_tx = 2,
    b_tx = tx, b_log = port_calls 2 4096 True 3, b_flows = t\<rparr>"
  have "pth_main 0 split 1 [] max_lcore socket_of mk api nb_ports (Inr t) = Inr b"
    using rxq txq ring ports by (simp add: pth_main_def args defaults pth_alloc_gctr_def b_def)
  moreover have "pthread_run b l = (if l = 2 then Run_rx 0 else if l = 4 then Run_rx 1
       else if l = 6 then Run_tx 0 else if l = 8 then Run_tx 1 else Idle)" for l
    by (simp add: pthread_run_def b_def two lcores)
  ultimately show ?thesis
    using joined by (auto simp: b_def less_2_cases_iff)
qed

section \<open>Properties\<close>

text \<open>
  C20: What a successful start of the pthread version has done to the devices: for every enabled port
  in order, and for no other port, it has configured as many receive queues as there are receiving
  threads, created a pool and set up a queue for each of them, started the port, and switched
  promiscuous mode on if asked to; every one of these calls succeeded, and there are at most four
  receiving threads as soon as a port is enabled (\<^verbatim>\<open>pktmbuf_pool\<close> has four entries).
\<close>

theorem pth_main_log:
  assumes "pth_main eal_ret split optind opts max_lcore socket_of mk api nb_ports init_flows = Inr b"
  shows "b_log b = concat (map (\<lambda>p. if bit (enabled_port_mask (b_app b)) p
           then port_calls (b_n_rx b) (nb_rx_desc (b_app b)) (promiscuous_on (b_app b)) p else [])
           [0..<nb_ports]) \<and>
    accepted api (b_log b) \<and>
    ((\<exists>p<nb_ports. bit (enabled_port_mask (b_app b)) p) \<longrightarrow> unat (b_n_rx b) \<le> NB_SOCKETS)"
  using pth_main_ports(1) [OF assms] pth_ports_queues extendsD [OF pth_ports_calls]
  by fastforce

text \<open>
  One port only. DPDK refuses to create a pool whose name exists, and the pools are named after
  the queue alone: with a receiving thread configured and two of the present ports enabled, the
  pthread version never starts.
\<close>

theorem pth_main_two_ports_fail:
  assumes "unique_pool_names api" "pth_parse_args split optind opts pth_app_default = (ret, a)"
    and "take (unat (nb_rx a)) (rx_list a) \<noteq> []" "p < p'" "p' < nb_ports"
    and "bit (enabled_port_mask a) p" "bit (enabled_port_mask a) p'"
  shows "\<not> (\<exists>b. pth_main eal_ret split optind opts max_lcore socket_of mk api nb_ports init_flows = Inr b)"
proof
  assume "\<exists>b. pth_main eal_ret split optind opts max_lcore socket_of mk api nb_ports init_flows = Inr b"
  then obtain b where b: "pth_main eal_ret split optind opts max_lcore socket_of mk api nb_ports init_flows = Inr b"
    by blast
  have a: "b_app b = a" using pth_main_ports(2) [OF b] assms(2) by auto
  have n: "b_n_rx b \<noteq> 0" using pth_main_threads [OF b] assms(3) a by simp
  have "accepted api (per_port (enabled_port_mask a) nb_ports
      (port_calls (b_n_rx b) (nb_rx_desc a) (promiscuous_on a)) @ [])"
    using extendsD [OF pth_ports_calls pth_main_ports(1) [OF b]] unfolding a by simp
  then show False
    using two_ports_repeat [where f = "port_calls (b_n_rx b) (nb_rx_desc a) (promiscuous_on a)",
        OF assms(4-7,1) port_calls_pool [OF n]] by blast
qed

theorem pth_main_two_ports_fail_witness:
  "\<not> (\<exists>b :: (nat \<times> nat, nat) pth_boot.
    pth_main 0 (\<lambda>s n c. []) 1 [Opt_p []] 128 (\<lambda>l. 0) (\<lambda>s r t. Some (r, t))
      (\<lambda>tr c. if c \<in> set tr then 0 else 1) 2 (Inr 0) = Inr b)"
proof (rule pth_main_two_ports_fail [where p = 0 and p' = 1])
  show "unique_pool_names (\<lambda>tr c. if c \<in> set tr then 0 else 1)"
    by (simp add: unique_pool_names_def)
  show "pth_parse_args (\<lambda>s n c. []) 1 [Opt_p []] pth_app_default
      = (0, pth_app_default\<lparr>enabled_port_mask := -1\<rparr>)"
    by (cases "strtoul 16 []") (simp add: pth_parse_args_def pth_opt_step_def parse_portmask_def)
qed (simp_all add: pth_app_default_def pth_default_rx_def)

text \<open>
  The default configuration of the pthread version starts: without options, with at least four
  ports and devices that accept every call, the log is that of port 3 with two queues; the cores 2
  and 4 receive, the cores 6 and 8 count, every other core stays idle, and the ring that counting
  thread 0 (1) reads is the one that receiving thread 0 (1) writes. The array of global counters is
  empty in this state.
\<close>

theorem pth_main_default:
  assumes "all_accepting api" "\<And>s r t. mk s r t \<noteq> None" "4 \<le> nb_ports" "0 < max_lcore"
  shows "\<exists>b. pth_main 0 split 1 [] max_lcore socket_of mk api nb_ports (Inr t) = Inr b \<and>
    b_log b = port_calls 2 4096 True 3 \<and> b_gctr b = [] \<and>
    (\<forall>l. pthread_run b l = (if l = 2 then Run_rx 0 else if l = 4 then Run_rx 1
       else if l = 6 then Run_tx 0 else if l = 8 then Run_tx 1 else Idle)) \<and>
    (\<forall>i<2. tx_ring (b_tx b i) \<noteq> None \<and> rx_ring (b_rx b i) ! 0 = tx_ring (b_tx b i))"
  using default_starts [of api mk nb_ports max_lcore split socket_of t] assms by blast

theorem pth_main_default_witness:
  "\<exists>b :: (nat \<times> nat, nat) pth_boot.
    pth_main 0 (\<lambda>s n c. []) 1 [] 128 (\<lambda>l. 0) (\<lambda>s r t. Some (r, t)) (\<lambda>tr c. 1) 4 (Inr 0) = Inr b \<and>
    b_log b = port_calls 2 4096 True 3 \<and> pthread_run b 2 = Run_rx 0 \<and> pthread_run b 8 = Run_tx 1"
proof -
  have "all_accepting (\<lambda>tr c. 1)"
    unfolding all_accepting_def call_ok_def by (auto split: dev_call.splits)
  from pth_main_default [OF this, where mk = "\<lambda>s r t. Some (r, t)" and nb_ports = 4
      and max_lcore = 128 and split = "\<lambda>s n c. []" and socket_of = "\<lambda>l. 0" and t = "0 :: nat"]
  show ?thesis by auto
qed

theorem pth_main_log_witness:
  "\<exists>b :: (nat \<times> nat, nat) pth_boot.
    pth_main 0 (\<lambda>s n c. []) 1 [] 128 (\<lambda>l. 0) (\<lambda>s r t. Some (r, t)) (\<lambda>tr c. 1) 4 (Inr 0) = Inr b \<and>
    accepted (\<lambda>tr c. 1) (b_log b)"
proof -
  have "all_accepting (\<lambda>tr c. 1)"
    unfolding all_accepting_def call_ok_def by (auto split: dev_call.splits)
  from default_starts [OF this, where mk = "\<lambda>s r t. Some (r, t)" and nb_ports = 4
      and max_lcore = 128 and split = "\<lambda>s n c. []" and socket_of = "\<lambda>l. 0" and t = "0 :: nat"]
  obtain b :: "(nat \<times> nat, nat) pth_boot" where
    b: "pth_main 0 (\<lambda>s n c. []) 1 [] 128 (\<lambda>l. 0) (\<lambda>s r t. Some (r, t)) (\<lambda>tr c. 1) 4 (Inr 0) = Inr b"
    by auto
  then show ?thesis using pth_main_log [OF b] by blast
qed

text \<open>
  The L-thread version does not stop at an option it does not know: \<^verbatim>\<open>parse_args\<close> returns
  \<^verbatim>\<open>EXIT_FAILURE\<close>, 1, and \<^verbatim>\<open>main\<close> tests for a negative result, so the program starts exactly as if the
  unknown option and everything after it had not been written.
\<close>

theorem lt_main_ignores_bad_option:
  assumes "1 \<le> optind"
  shows "lt_main eal_ret split optind (opts @ Lt_other # rest) max_lcore enabled socket_of mk api
      mem_ret nb_ports init_flows
    = lt_main eal_ret split optind opts max_lcore enabled socket_of mk api mem_ret nb_ports init_flows"
proof (cases "run (lt_opt_step split) opts lt_app_default")
  case (Inl r)
  then have "lt_parse_args split optind (opts @ Lt_other # rest) lt_app_default
      = lt_parse_args split optind opts lt_app_default"
    by (simp add: lt_parse_args_def run_append)
  then show ?thesis by (simp add: lt_main_def)
next
  case (Inr a)
  then have "lt_parse_args split optind (opts @ Lt_other # rest) lt_app_default = (1, a)"
    "lt_parse_args split optind opts lt_app_default = (optind - 1, a)"
    by (simp_all add: lt_parse_args_def run_append lt_opt_step_def)
  then show ?thesis using assms by (simp add: lt_main_def)
qed

theorem lt_main_ignores_bad_option_witness:
  "lt_main 0 (\<lambda>s n c. []) 1 ([Lt_P] @ Lt_other # [Lt_p ''1'']) 128 (\<lambda>l. True) (\<lambda>l. 0)
      (\<lambda>s r t. Some (r, t)) (\<lambda>tr c. 1) 0 4 (Inr (0 :: nat))
    = lt_main 0 (\<lambda>s n c. []) 1 [Lt_P] 128 (\<lambda>l. True) (\<lambda>l. 0)
      (\<lambda>s r t. Some (r, t)) (\<lambda>tr c. 1) 0 4 (Inr (0 :: nat))"
  by (rule lt_main_ignores_bad_option) simp

text \<open>
  What a successful start of the run-to-completion version has done: made the pool of queue 0,
  configured port 0 with one receive queue, set the queue up on that pool, started the port and
  switched promiscuous mode on, in this order and every call successful; the first slave core runs
  the monitoring loop on queue 0, and without a slave core nothing runs it.
\<close>

theorem rtc_main_log:
  assumes "rtc_main eal_ret init_flows api dev_count slaves = Inr (t, tr, ls)"
  shows "tr = [Pool_create 0, Dev_configure 0 1 0, Rx_queue_setup 0 0 4096 (Some 0), Dev_start 0,
      Promiscuous_enable 0] \<and> accepted api tr \<and> 0 < dev_count \<and>
    ls = map (\<lambda>l. (l, 0)) (take 1 slaves)"
proof -
  have "rtc_launch slaves 0 = map (\<lambda>l. (l, 0)) (take 1 slaves)"
    by (cases slaves) (simp_all add: RTC_RX_RINGS_def)
  moreover obtain tr1 where tr1: "run (\<lambda>q. dev api (Pool_create q) (\<lambda>r. r \<noteq> 0)
      (Exit_failure ''Cannot create mbuf pool'')) [0..<RTC_RX_RINGS] [] = Inr tr1"
    and port: "rtc_port_dev api dev_count 0 tr1 = Inr tr" and ls: "ls = rtc_launch slaves 0"
    using assms unfolding rtc_main_def
    by (auto simp: rtc_port_init_def elim!: sbindE split: if_splits)
  moreover have pools: "extends api [] (concat (map (\<lambda>q. [Pool_create q]) [0..<RTC_RX_RINGS]))
      (run (\<lambda>q. dev api (Pool_create q) (\<lambda>r. r \<noteq> 0) (Exit_failure ''Cannot create mbuf pool''))
        [0..<RTC_RX_RINGS] [])"
    by (rule extends_run) (rule extends_dev, simp add: call_ok_def)
  moreover have dev: "extends api tr1 ([Dev_configure 0 (of_nat RTC_RX_RINGS) 0]
      @ concat (map (\<lambda>q. [Rx_queue_setup 0 (of_nat q) 4096 (Some q)]) [0..<RTC_RX_RINGS])
      @ [Dev_start 0] @ [Promiscuous_enable 0]) (rtc_port_dev api dev_count 0 tr1)"
  proof (cases "dev_count = 0")
    case False
    then have "\<not> unat (0 :: u8) \<ge> dev_count" by simp
    then show ?thesis
      unfolding rtc_port_dev_def
      by (simp only: if_False)
         (intro extends_sbind extends_dev extends_run extends_promisc; simp add: call_ok_def)
  qed (simp add: rtc_port_dev_def extends_Inl)
  moreover have "0 < dev_count" using port by (cases "dev_count = 0") (simp_all add: rtc_port_dev_def)
  ultimately show ?thesis
    using extendsD [OF pools tr1] extendsD [OF dev port] by (simp add: RTC_RX_RINGS_def)
qed

theorem rtc_main_log_witness:
  "\<exists>tr. rtc_main 0 (Inr (0 :: nat)) (\<lambda>tr c. if c = Dev_configure 0 1 0 then 0 else 1) 1 [1, 2] = Inr (0, tr, [(1, 0)]) \<and>
    length tr = 5"
proof -
  obtain tr where tr: "rtc_main 0 (Inr (0 :: nat)) (\<lambda>tr c. if c = Dev_configure 0 1 0 then 0 else 1) 1 [1, 2]
      = Inr (0, tr, [(1, 0)])"
    by (simp add: rtc_main_def rtc_port_init_def rtc_port_dev_def dev_def RTC_RX_RINGS_def)
  then show ?thesis using rtc_main_log [OF tr] by simp
qed

end
