(* ===== verification/Startup_Lthread.thy ===== *)
theory Startup_Lthread
  imports Startup_Correct
begin

text \<open>
  Start-up of the L-thread version: which device calls a successful start has made, read off the
  receive parameters, and the configurations that cannot start.
\<close>

section \<open>The calls of a start\<close>

text \<open>For an enabled port: configuration with the number of its queues, and a pool per receiving thread.\<close>

definition lt_config_calls :: "rx_params list \<Rightarrow> nat \<Rightarrow> nat \<Rightarrow> dev_log" where
  "lt_config_calls ps n p =
     Dev_configure (of_nat p) (ucast (get_port_n_rx_queues ps (of_nat p))) 0 # map Pool_create [0..<n]"

text \<open>A receive queue gets the pool of its own number, where pools exist for the numbers below \<open>n\<close>.\<close>

definition lt_setup_call :: "nat \<Rightarrow> u8 \<times> u8 \<Rightarrow> dev_call" where
  "lt_setup_call n pq = Rx_queue_setup (fst pq) (ucast (snd pq)) 4096
     (if unat (snd pq) < n then Some (unat (snd pq)) else None)"

definition lt_start_calls :: "bool \<Rightarrow> nat \<Rightarrow> dev_log" where
  "lt_start_calls prom p = Dev_start (of_nat p) # (if prom then [Promiscuous_enable (of_nat p)] else [])"

section \<open>Pools\<close>

lemma init_mem1_pools:
  assumes "init_mem1 mk_pool n pool = Inr pool'"
  shows "unat n \<le> length pool \<and> (\<forall>q < unat n. mk_pool q \<noteq> None) \<and>
    pool' = map mk_pool [0..<unat n] @ drop (unat n) pool"
proof -
  have "k \<le> length pool \<and> (\<forall>q < k. mk_pool q \<noteq> None) \<and> pool' = map mk_pool [0..<k] @ drop k pool"
    if "run (init_mem_step mk_pool) [0..<k] pool = Inr pool'" for k pool'
    using that
  proof (induction k arbitrary: pool')
    case (Suc k)
    then obtain u where u: "run (init_mem_step mk_pool) [0..<k] pool = Inr u"
      "init_mem_step mk_pool k u = Inr pool'" by (auto simp: run_append split: sum.splits)
    note IH = Suc.IH [OF u(1)]
    then have k: "k < length pool" "mk_pool k \<noteq> None" "pool' = u[k := mk_pool k]"
      using u(2) by (auto simp: init_mem_step_def split: if_splits option.splits)
    then have "drop k pool = pool ! k # drop (Suc k) pool" by (simp add: Cons_nth_drop_Suc)
    then show ?case using IH k by (auto simp: less_Suc_eq list_update_append)
  qed simp
  then show ?thesis using assms by (simp add: init_mem1_def)
qed

lemma accepted_pools:
  "accepted api tr \<Longrightarrow> \<forall>q < n. api (tr @ map Pool_create [0..<q]) (Pool_create q) \<noteq> 0
    \<Longrightarrow> accepted api (tr @ map Pool_create [0..<n])"
proof (induction n)
  case (Suc n)
  then show ?case
    using accepted_snoc [of api "tr @ map Pool_create [0..<n]" "Pool_create n"] by (simp add: call_ok_def)
qed simp

text \<open>The pools after a port was configured: one for each number below \<open>n\<close>.\<close>

definition pools :: "nat \<Rightarrow> nat option list" where
  "pools n = map (\<lambda>q. if q < n then Some q else None) [0..<NB_SOCKETS]"

lemma pools_0: "replicate NB_SOCKETS None = pools 0"
  by (simp add: pools_def map_replicate_const)

lemma pools_again:
  assumes "n \<le> NB_SOCKETS" "pool = pools 0 \<or> pool = pools n"
  shows "map Some [0..<n] @ drop n pool = pools n"
  using assms by (intro nth_equalityI) (auto simp: pools_def nth_append)

lemma lt_port_config_calls:
  assumes "lt_port_config api mem_ret ps n p (pool, tr) = Inr (pool', tr')"
    and pool: "pool = pools 0 \<or> pool = pools (unat n)"
  shows "tr' = tr @ lt_config_calls ps (unat n) p \<and> (accepted api tr \<longrightarrow> accepted api tr') \<and>
    unat n \<le> NB_SOCKETS \<and> pool' = pools (unat n)"
proof -
  let ?c = "Dev_configure (of_nat p) (ucast (get_port_n_rx_queues ps (of_nat p))) 0"
  let ?tr = "tr @ [?c]"
  let ?mk = "\<lambda>q. if api (?tr @ map Pool_create [0..<q]) (Pool_create q) \<noteq> 0 then Some q else None"
  have ok: "0 \<le> api tr ?c" and mem: "init_mem1 ?mk n pool = Inr pool'"
    and tr': "tr' = ?tr @ map Pool_create [0..<unat n]"
    using assms(1) by (auto simp: lt_port_config_def dev_def sbind_Inr_iff Let_def split: if_splits)
  have len: "length pool = NB_SOCKETS" using pool by (auto simp: pools_def)
  from init_mem1_pools [OF mem] len have n: "unat n \<le> NB_SOCKETS"
    and made: "\<forall>q < unat n. api (?tr @ map Pool_create [0..<q]) (Pool_create q) \<noteq> 0"
    and pool': "pool' = map ?mk [0..<unat n] @ drop (unat n) pool"
    by (auto split: if_splits)
  have some: "map ?mk [0..<unat n] = map Some [0..<unat n]" using made by simp
  have "pool' = pools (unat n)" using pools_again [OF n pool] unfolding pool' some .
  moreover have "accepted api tr'" if "accepted api tr"
    using accepted_pools [OF _ made] that ok by (simp add: tr' call_ok_def)
  ultimately show ?thesis using n by (simp add: tr' lt_config_calls_def)
qed

lemma lt_ports_config_calls:
  assumes "lt_ports_config api mem_ret m nb ps n = Inr (pool, tr)"
  shows "tr = per_port m nb (lt_config_calls ps (unat n)) \<and> accepted api tr \<and>
    ((\<exists>p < nb. bit m p) \<longrightarrow> unat n \<le> NB_SOCKETS) \<and>
    pool = pools (if \<exists>p < nb. bit m p then unat n else 0)"
proof -
  let ?f = "\<lambda>portid s. if bit m portid then lt_port_config api mem_ret ps n portid s else Inr s"
  have "tr = per_port m k (lt_config_calls ps (unat n)) \<and> accepted api tr \<and>
    ((\<exists>p < k. bit m p) \<longrightarrow> unat n \<le> NB_SOCKETS) \<and> pool = pools (if \<exists>p < k. bit m p then unat n else 0)"
    if "run ?f [0..<k] (pools 0, []) = Inr (pool, tr)" for k pool tr
    using that
  proof (induction k arbitrary: pool tr)
    case (Suc k)
    then obtain pool1 tr1 where u: "run ?f [0..<k] (pools 0, []) = Inr (pool1, tr1)"
      "?f k (pool1, tr1) = Inr (pool, tr)" by (auto simp: run_append split: sum.splits)
    note IH = Suc.IH [OF u(1)]
    show ?case
    proof (cases "bit m k")
      case True
      with u(2) have c: "lt_port_config api mem_ret ps n k (pool1, tr1) = Inr (pool, tr)" by simp
      have "pool1 = pools 0 \<or> pool1 = pools (unat n)" using IH by (simp split: if_splits)
      from lt_port_config_calls [OF c this] IH True show ?thesis by auto
    next
      case False
      with u(2) IH show ?thesis by (auto simp: less_Suc_eq)
    qed
  qed simp
  then show ?thesis using assms unfolding lt_ports_config_def pools_0 .
qed

section \<open>Queues and start\<close>

lemma lt_queue_calls:
  assumes "n \<le> NB_SOCKETS"
  shows "extends api tr [lt_setup_call n pq] (lt_queue_setup api (pools n) pq tr)"
  unfolding lt_queue_setup_def
  by (auto simp: lt_setup_call_def pools_def call_ok_def extends_Inl intro!: extends_dev)

lemma lt_thread_calls:
  assumes "n \<le> NB_SOCKETS"
  shows "extends api tr (map (lt_setup_call n) (take (unat (n_rx_queue (rx i))) (rx_queue_list (rx i))))
    (lt_thread_queues api enabled (pools n) rx i tr)"
proof -
  have "extends api tr (concat (map (\<lambda>pq. [lt_setup_call n pq]) qs))
      (run (lt_queue_setup api (pools n)) qs tr)" for qs
    by (rule extends_run) (rule lt_queue_calls [OF assms])
  moreover have "concat (map (\<lambda>pq. [lt_setup_call n pq]) qs) = map (lt_setup_call n) qs" for qs
    by (induction qs) simp_all
  ultimately show ?thesis by (simp add: lt_thread_queues_def extends_Inl)
qed

lemma lt_start_calls:
  "extends api tr (per_port m nb (lt_start_calls prom)) (lt_start_ports api m nb prom tr)"
  unfolding lt_start_ports_def
proof (rule extends_run)
  fix p t
  have "extends api t ([Dev_start (of_nat p)] @ (if prom then [Promiscuous_enable (of_nat p)] else []))
     (sbind (dev api (Dev_start (of_nat p)) (\<lambda>r. 0 \<le> r) (Exit_failure ''rte_eth_dev_start'') t)
        (\<lambda>tr. Inr (if prom then tr @ [Promiscuous_enable (of_nat p)] else tr)))"
    by (intro extends_sbind extends_dev) (simp_all add: call_ok_def extends_Inr extends_promisc)
  then show "extends api t (if bit m p then lt_start_calls prom p else [])
      (if bit m p then
         sbind (dev api (Dev_start (of_nat p)) (\<lambda>r. 0 \<le> r) (Exit_failure ''rte_eth_dev_start'') t)
           (\<lambda>tr. Inr (if prom then tr @ [Promiscuous_enable (of_nat p)] else tr))
       else Inr t)"
    by (simp add: lt_start_calls_def extends_Inr)
qed

text \<open>\<^verbatim>\<open>init_rx_rings\<close> leaves the queues of the receiving threads alone.\<close>

lemma init_rx_rings_queues:
  assumes "init_rx_rings socket_of mk n_tx (rx, tx) = Inr (rx', tx')"
  shows "n_rx_queue (rx' i) = n_rx_queue (rx i) \<and> rx_queue_list (rx' i) = rx_queue_list (rx i)"
  by (rule run_invariant [where I = "\<lambda>s. n_rx_queue (fst s i) = n_rx_queue (rx i) \<and>
        rx_queue_list (fst s i) = rx_queue_list (rx i)", OF assms [unfolded init_rx_rings_def], simplified])
     (auto simp: rx_ring_step_def Let_def split: prod.splits if_splits option.splits)

section \<open>The whole start\<close>

lemma zero_rx_fresh: "rx_fresh (zero_rx max_lcore)"
  by (simp add: rx_fresh_def zero_rx_def)

abbreviation rx_args :: "lt_app \<Rightarrow> rx_params list" where
  "rx_args a \<equiv> take (unat (l_nb_rx a)) (l_rx_list a)"

lemma lt_main_parts:
  assumes "lt_main eal_ret split optind opts max_lcore enabled socket_of mk api mem_ret nb_ports init_flows = Inr b"
  obtains ret rx0 rx1 tx0 tx1 pool tr1 tr2 where
    "lt_parse_args split optind opts lt_app_default = (ret, lb_app b)"
    "lt_init_rx_queues (rx_args (lb_app b)) (zero_rx max_lcore) = Inr (lb_n_rx b, rx0)"
    "init_rx_rings socket_of mk (lb_n_tx b) (rx0, tx0) = Inr (lb_rx b, lb_tx b)"
    "lt_ports_config api mem_ret (l_port_mask (lb_app b)) nb_ports (rx_args (lb_app b)) (lb_n_rx b) = Inr (pool, tr1)"
    "run (lt_thread_queues api enabled pool (lb_rx b)) [0..<unat (lb_n_rx b)] tr1 = Inr tr2"
    "lt_start_ports api (l_port_mask (lb_app b)) nb_ports (l_promiscuous_on (lb_app b)) tr2 = Inr (lb_log b)"
  using assms unfolding lt_main_def Let_def
  by (auto elim!: sbindE split: if_splits prod.splits)

lemma lt_main_queues:
  fixes rx0 :: "nat \<Rightarrow> 'r rx_conf"
  assumes "lt_init_rx_queues ps (zero_rx max_lcore) = Inr (n, rx0)"
    and "init_rx_rings socket_of mk n_tx (rx0, tx0) = Inr (rx, tx)"
  shows "unat n = thread_count ps \<and> (\<forall>i < unat n.
    take (unat (n_rx_queue (rx i))) (rx_queue_list (rx i)) = queues_of ps (of_nat i))"
proof -
  have after: "rx_after (zero_rx max_lcore) ps (n, rx0)"
    using assms(1) rx_queue_run [where err = "Exit_failure ''too many queues''" and ps = ps,
        OF zero_rx_fresh [of max_lcore, where 'a = 'r]]
    unfolding lt_init_rx_queues_def by (cases "queues_fit ps") auto
  then have n: "unat n = thread_count ps" by (simp add: rx_after_def)
  have "take (unat (n_rx_queue (rx i))) (rx_queue_list (rx i)) = queues_of ps (of_nat i)" if "i < unat n" for i
  proof -
    have "unat (of_nat i :: u8) = i" using that n thread_count_le [of ps] by (simp add: unat_of_nat)
    then show ?thesis
      using after init_rx_rings_queues [OF assms(2), of i] unfolding rx_after_def Let_def
      by (auto dest!: spec [of _ "of_nat i"])
  qed
  with n show ?thesis by simp
qed

definition lt_start_log :: "rx_params list \<Rightarrow> u32 \<Rightarrow> nat \<Rightarrow> bool \<Rightarrow> dev_log" where
  "lt_start_log ps m nb prom =
     (let n = thread_count ps; made = (if \<exists>p < nb. bit m p then n else 0) in
      per_port m nb (lt_config_calls ps n)
      @ concat (map (\<lambda>t. map (lt_setup_call made) (queues_of ps (of_nat t))) [0..<n])
      @ per_port m nb (lt_start_calls prom))"

lemma lt_main_start_log:
  assumes "lt_main eal_ret split optind opts max_lcore enabled socket_of mk api mem_ret nb_ports init_flows = Inr b"
  shows "lb_log b = lt_start_log (rx_args (lb_app b)) (l_port_mask (lb_app b)) nb_ports (l_promiscuous_on (lb_app b)) \<and>
    accepted api (lb_log b) \<and>
    ((\<exists>p < nb_ports. bit (l_port_mask (lb_app b)) p) \<longrightarrow> thread_count (rx_args (lb_app b)) \<le> NB_SOCKETS)"
proof -
  obtain ret rx0 rx1 tx0 tx1 pool tr1 tr2 where
    q: "lt_init_rx_queues (rx_args (lb_app b)) (zero_rx max_lcore) = Inr (lb_n_rx b, rx0)"
      "init_rx_rings socket_of mk (lb_n_tx b) (rx0, tx0) = Inr (lb_rx b, lb_tx b)"
    and ports: "lt_ports_config api mem_ret (l_port_mask (lb_app b)) nb_ports (rx_args (lb_app b)) (lb_n_rx b) = Inr (pool, tr1)"
    and thr: "run (lt_thread_queues api enabled pool (lb_rx b)) [0..<unat (lb_n_rx b)] tr1 = Inr tr2"
    and start: "lt_start_ports api (l_port_mask (lb_app b)) nb_ports (l_promiscuous_on (lb_app b)) tr2 = Inr (lb_log b)"
    by (rule lt_main_parts [OF assms])
  let ?some = "\<exists>p < nb_ports. bit (l_port_mask (lb_app b)) p"
  note n = lt_main_queues [OF q]
  define made where "made = (if ?some then unat (lb_n_rx b) else 0)"
  from lt_ports_config_calls [OF ports] n
  have c: "tr1 = per_port (l_port_mask (lb_app b)) nb_ports (lt_config_calls (rx_args (lb_app b)) (unat (lb_n_rx b)))"
    "accepted api tr1" "pool = pools made" "made \<le> NB_SOCKETS"
    "?some \<longrightarrow> thread_count (rx_args (lb_app b)) \<le> NB_SOCKETS"
    by (auto simp: made_def)
  let ?qs = "\<lambda>i. map (lt_setup_call made) (take (unat (n_rx_queue (lb_rx b i))) (rx_queue_list (lb_rx b i)))"
  have t: "extends api tr1 (concat (map ?qs [0..<unat (lb_n_rx b)]))
      (run (lt_thread_queues api enabled pool (lb_rx b)) [0..<unat (lb_n_rx b)] tr1)"
    unfolding c(3) by (rule extends_run) (rule lt_thread_calls [OF c(4)])
  have qs: "map ?qs [0..<unat (lb_n_rx b)]
      = map (\<lambda>i. map (lt_setup_call made) (queues_of (rx_args (lb_app b)) (of_nat i))) [0..<unat (lb_n_rx b)]"
    using n by simp
  note tr2 = extendsD(1) [OF t thr, unfolded qs c(1)]
  show ?thesis
    using extendsD [OF lt_start_calls start] extendsD(2) [OF t thr c(2)] c(5)
    unfolding tr2 made_def lt_start_log_def Let_def conjunct1 [OF n] by simp
qed

lemma thread_count_pos: "ps \<noteq> [] \<Longrightarrow> 0 < thread_count ps"
proof -
  assume "ps \<noteq> []"
  then obtain qs p where "ps = qs @ [p]" by (metis rev_exhaust)
  then show ?thesis by (simp add: thread_count_def)
qed

lemma lt_config_pool: "0 < n \<Longrightarrow> \<exists>c zs. lt_config_calls ps n p = [c] @ Pool_create 0 # zs"
  by (simp add: lt_config_calls_def upt_conv_Cons)

section \<open>Properties\<close>

text \<open>
  C21: What a successful start of the L-thread version has done to the devices, read off its receive
  parameters: each enabled port is configured with the number of its queues and a pool is made for each
  receiving thread; then the queues of every thread are set up in order, queue \<open>q\<close> with pool \<open>q\<close>, or
  with a null pool if \<open>q\<close> is not below the number of threads; and only then the ports are
  started. Every call succeeded, and there are at most four threads as soon as a port is enabled.
\<close>

theorem lt_main_log:
  assumes "lt_main eal_ret split optind opts max_lcore enabled socket_of mk api mem_ret nb_ports init_flows = Inr b"
  shows "lb_log b = lt_start_log (rx_args (lb_app b)) (l_port_mask (lb_app b)) nb_ports (l_promiscuous_on (lb_app b)) \<and>
    accepted api (lb_log b) \<and>
    ((\<exists>p < nb_ports. bit (l_port_mask (lb_app b)) p) \<longrightarrow> thread_count (rx_args (lb_app b)) \<le> NB_SOCKETS)"
  using lt_main_start_log [OF assms] .

text \<open>One thread with two queues: the second queue is set up with a null pool.\<close>

definition ex_rx_args :: "rx_params list" where
  "ex_rx_args = [\<lparr>port_id = 0, queue_id = 0, lcore_id = 2, thread_id = 0\<rparr>,
     \<lparr>port_id = 0, queue_id = 1, lcore_id = 2, thread_id = 0\<rparr>]"

definition ex_tx_args :: "tx_params list" where
  "ex_tx_args = [\<lparr>t_lcore_id = 4, t_thread_id = 0\<rparr>]"

lemma ex_queue_list: "take 2 ((replicate 16 x)[0 := a, Suc 0 := b]) = [a, b]"
  by (simp add: numeral_eq_Suc)

lemma ex_args:
  "lt_parse_args (\<lambda>s n c. tokens c s) 1 [Lt_p [], Lt_rx (show_rx ex_rx_args), Lt_tx (show_tx ex_tx_args)] lt_app_default
   = (0, lt_app_default\<lparr>l_port_mask := -1, l_nb_rx := 2, l_rx_list := ex_rx_args,
        l_nb_tx := 1, l_tx_list := ex_tx_args\<rparr>)"
  using parse_rx_show [OF tokens_split, of ex_rx_args] parse_tx_show [OF tokens_split, of ex_tx_args]
  by (cases "strtoul 16 []")
     (simp add: lt_parse_args_def lt_opt_step_def parse_portmask_def ex_rx_args_def ex_tx_args_def MAX_LCORE_PARAMS_def)

theorem lt_main_log_witness:
  "\<exists>b :: (nat \<times> nat, nat) lt_boot. lt_main 0 (\<lambda>s n c. tokens c s) 1
      [Lt_p [], Lt_rx (show_rx ex_rx_args), Lt_tx (show_tx ex_tx_args)] 128 (\<lambda>l. True) (\<lambda>l. 0)
      (\<lambda>s r t. Some (r, t)) (\<lambda>tr c. 1) 0 1 (Inr 0) = Inr b \<and>
    lb_log b = [Dev_configure 0 2 0, Pool_create 0, Rx_queue_setup 0 0 4096 (Some 0),
      Rx_queue_setup 0 1 4096 None, Dev_start 0]"
proof -
  obtain b :: "(nat \<times> nat, nat) lt_boot" where b: "lt_main 0 (\<lambda>s n c. tokens c s) 1
      [Lt_p [], Lt_rx (show_rx ex_rx_args), Lt_tx (show_tx ex_tx_args)] 128 (\<lambda>l. True) (\<lambda>l. 0)
      (\<lambda>s r t. Some (r, t)) (\<lambda>tr c. 1) 0 1 (Inr 0) = Inr b"
    and args: "rx_args (lb_app b) = ex_rx_args" "l_port_mask (lb_app b) = -1" "\<not> l_promiscuous_on (lb_app b)"
    by (simp add: lt_main_def ex_args) (simp add: ex_rx_args_def ex_tx_args_def lt_init_rx_queues_def
        rx_queue_step_def zero_rx_def zero_tx_def Let_def init_tx_threads_def init_tx_step_def
        init_rx_rings_def rx_ring_step_def lt_ports_config_def lt_port_config_def dev_def init_mem1_def
        init_mem_step_def NB_SOCKETS_def lt_thread_queues_def lt_queue_setup_def lt_start_ports_def
        MAX_RX_QUEUE_PER_LCORE_def MAX_RX_QUEUE_PER_PORT_def lt_app_default_def ex_queue_list)
  have "thread_count ex_rx_args = 1" "queues_of ex_rx_args 0 = [(0, 0), (0, 1)]" "get_port_n_rx_queues ex_rx_args 0 = 2"
    by (simp_all add: thread_count_def queues_of_def get_port_n_rx_queues_def ex_rx_args_def)
  then show ?thesis
    using lt_main_log [OF b] b args
    by (simp add: lt_start_log_def lt_config_calls_def lt_setup_call_def lt_start_calls_def)
qed

text \<open>
  C36: When the L-thread version cannot start: with an enabled port, not with more than four receiving threads,
  hence never with the default parameters; and with receive parameters given not with two enabled ports, since
  DPDK refuses to create a pool whose name exists.
\<close>

theorem lt_main_cannot_start:
  assumes "lt_parse_args split optind opts lt_app_default = (ret, a)"
    and "p < nb_ports" "bit (l_port_mask a) p"
    and "NB_SOCKETS < thread_count (rx_args a) \<or> rx_args a = lt_default_rx \<or>
      rx_args a \<noteq> [] \<and> unique_pool_names api \<and> (\<exists>p' < nb_ports. p' \<noteq> p \<and> bit (l_port_mask a) p')"
  shows "\<nexists>b. lt_main eal_ret split optind opts max_lcore enabled socket_of mk api mem_ret nb_ports init_flows = Inr b"
proof
  assume "\<exists>b. lt_main eal_ret split optind opts max_lcore enabled socket_of mk api mem_ret nb_ports init_flows = Inr b"
  then obtain b where b: "lt_main eal_ret split optind opts max_lcore enabled socket_of mk api mem_ret nb_ports init_flows = Inr b"
    by blast
  have a: "lb_app b = a" using assms(1) by (rule_tac lt_main_parts [OF b]) simp
  note log = lt_main_start_log [OF b, unfolded a]
  have few: "thread_count (rx_args a) \<le> NB_SOCKETS" using log assms(2,3) by blast
  moreover have "thread_count lt_default_rx = 9" by (simp add: thread_count_def lt_default_rx_def)
  ultimately have "rx_args a \<noteq> []" "unique_pool_names api"
    and "\<exists>p' < nb_ports. p' \<noteq> p \<and> bit (l_port_mask a) p'" using assms(4) by (auto simp: NB_SOCKETS_def)
  then obtain i j where "i < j" "j < nb_ports" "bit (l_port_mask a) i" "bit (l_port_mask a) j"
    using assms(2,3) by (metis linorder_neqE_nat)
  note two = two_ports_repeat [where f = "lt_config_calls (rx_args a) (thread_count (rx_args a))",
      OF this \<open>unique_pool_names api\<close>
      lt_config_pool [OF thread_count_pos [OF \<open>rx_args a \<noteq> []\<close>]]]
  have "accepted api (lt_start_log (rx_args a) (l_port_mask a) nb_ports (l_promiscuous_on a))"
    using conjunct1 [OF log] conjunct1 [OF conjunct2 [OF log]] by (rule subst)
  with two show False unfolding lt_start_log_def Let_def by blast
qed

theorem lt_main_cannot_start_witness:
  "\<nexists>b :: (nat \<times> nat, nat) lt_boot. lt_main 0 (\<lambda>s n c. []) 1 [Lt_p []] 128 (\<lambda>l. True) (\<lambda>l. 0)
      (\<lambda>s r t. Some (r, t)) (\<lambda>tr c. 1) 0 4 (Inr 0) = Inr b"
proof (rule lt_main_cannot_start [where p = 0])
  show "lt_parse_args (\<lambda>s n c. []) 1 [Lt_p []] lt_app_default = (0, lt_app_default\<lparr>l_port_mask := -1\<rparr>)"
    by (cases "strtoul 16 []") (simp add: lt_parse_args_def lt_opt_step_def parse_portmask_def)
qed (simp_all add: lt_app_default_def lt_default_rx_def)

end
