(* ===== verification/Lthread_System.thy ===== *)
theory Lthread_System
  imports Pipeline_Correct
begin

text \<open>
  The L-thread version at run time: a receiving thread that deals bursts to the rings of its counting
  threads, and counting threads that take packets out of their ring, count them and wait for a signal
  when they find it empty. A run is any sequence of steps of these threads. Whether the receiving
  thread can run between the moment a counting thread finds its ring empty and the moment it
  waits depends on whether both are on one core, where threads only switch when they yield.
\<close>

section \<open>The threads together\<close>

text \<open>
  Where a counting thread is: about to look at its ring, on its way to \<^verbatim>\<open>lthread_cond_wait\<close> after an
  empty look, or waiting.
\<close>

datatype consumer = Awake | Found_empty | Asleep

record ('r, 'b) lt_sys =
  ls_rx :: "'r lt_rx"
  ls_cons :: "nat \<Rightarrow> consumer"
  ls_mon :: "'b mon_state"

text \<open>
  The condition variables of the L-thread library: what becomes of a thread that calls
  \<^verbatim>\<open>lthread_cond_wait\<close>, and of a thread in some place when \<^verbatim>\<open>lthread_cond_signal\<close> is called, for a variable
  that is initialised or null. The documented behaviour: waiting on a null condition returns at
  once, and a signal wakes the thread that waits and has no effect when none does.
\<close>

type_synonym cond_lib = "(bool \<Rightarrow> consumer) \<times> (bool \<Rightarrow> consumer \<Rightarrow> consumer)"

definition cond_contract :: "cond_lib \<Rightarrow> bool" where
  "cond_contract lib \<longleftrightarrow> (\<forall>b. fst lib b = (if b then Asleep else Awake)) \<and>
     (\<forall>b c. snd lib b c = (if b \<and> c = Asleep then Awake else c))"

definition lthread_cond :: cond_lib where
  "lthread_cond = ((\<lambda>b. if b then Asleep else Awake), (\<lambda>b c. if b \<and> c = Asleep then Awake else c))"

lemma cond_contract_lthread_cond: "cond_contract lthread_cond"
  by (simp add: cond_contract_def lthread_cond_def)

lemma cond_contract_unique: "cond_contract lib \<Longrightarrow> lib = lthread_cond"
  by (cases lib) (simp add: cond_contract_def lthread_cond_def fun_eq_iff)

definition cond_wait :: "cond_lib \<Rightarrow> bool list \<Rightarrow> nat \<Rightarrow> consumer" where
  "cond_wait lib ready w = fst lib (ready ! w)"

fun cond_signals :: "cond_lib \<Rightarrow> (nat \<times> bool) list \<Rightarrow> (nat \<Rightarrow> consumer) \<Rightarrow> nat \<Rightarrow> consumer" where
  "cond_signals lib [] cs = cs"
| "cond_signals lib ((w, initialised) # sigs) cs =
     cond_signals lib sigs (cs(w := snd lib initialised (cs w)))"

lemma cond_simps [simp]:
  "cond_wait lthread_cond ready w = (if ready ! w then Asleep else Awake)"
  "snd lthread_cond b c = (if b \<and> c = Asleep then Awake else c)"
  by (simp_all add: cond_wait_def lthread_cond_def)

text \<open>
  A burst \<open>pkts\<close> from queue \<open>q\<close> at the receiving thread, or a turn of counting thread \<open>w\<close>. \<open>same_core w\<close>
  tells whether \<open>w\<close> and the receiving thread share a core; \<open>counting w\<close> is the code behind the dequeue.
\<close>

datatype lt_act = Receive nat "mbuf list" | Consume nat

definition MAX_PKT_BURST :: nat where
  "MAX_PKT_BURST = 256"

definition lt_consume ::
  "cond_lib \<Rightarrow> 'r deq \<Rightarrow> bool list \<Rightarrow> (nat \<Rightarrow> bool) \<Rightarrow> (nat \<Rightarrow> mbuf list \<Rightarrow> 'b mon_state \<Rightarrow> fw_error + 'b mon_state)
     \<Rightarrow> nat \<Rightarrow> ('r, 'b) lt_sys \<Rightarrow> fw_error + ('r, 'b) lt_sys"
where
  "lt_consume lib deq ready same_core counting w s =
     (case ls_cons s w of
        Asleep \<Rightarrow> Inr s
      | Found_empty \<Rightarrow> Inr (s\<lparr>ls_cons := (ls_cons s)(w := cond_wait lib ready w)\<rparr>)
      | Awake \<Rightarrow>
          (case lt_ring (ls_rx s) ! w of
             None \<Rightarrow> Inl (Undefined ''null ring'')
           | Some r \<Rightarrow>
               (let (bufs, r') = deq MAX_PKT_BURST r;
                    s = s\<lparr>ls_rx := (ls_rx s)\<lparr>lt_ring := (lt_ring (ls_rx s))[w := Some r']\<rparr>\<rparr>
                in if bufs = [] then
                     Inr (s\<lparr>ls_cons := (ls_cons s)(w := if same_core w then cond_wait lib ready w else Found_empty)\<rparr>)
                   else sbind (counting w bufs (ls_mon s)) (\<lambda>m. Inr (s\<lparr>ls_mon := m\<rparr>)))))"

definition lt_sys_step ::
  "cond_lib \<Rightarrow> 'r enq \<Rightarrow> 'r deq \<Rightarrow> u16 \<Rightarrow> bool list \<Rightarrow> (nat \<Rightarrow> bool) \<Rightarrow>
   (nat \<Rightarrow> mbuf list \<Rightarrow> 'b mon_state \<Rightarrow> fw_error + 'b mon_state) \<Rightarrow> lt_act \<Rightarrow> ('r, 'b) lt_sys \<Rightarrow> fw_error + ('r, 'b) lt_sys"
where
  "lt_sys_step lib enq deq nr ready same_core counting a s =
     (case a of
        Receive q pkts \<Rightarrow>
          sbind (lthread_rx_burst enq nr ready (q, pkts) (ls_rx s)) (\<lambda>r.
          Inr (s\<lparr>ls_rx := r,
                 ls_cons := cond_signals lib (drop (length (signals (ls_rx s))) (signals r)) (ls_cons s)\<rparr>))
      | Consume w \<Rightarrow> lt_consume lib deq ready same_core counting w s)"

text \<open>At the start every counting thread is about to look at its ring.\<close>

definition lt_sys_start :: "'r option list \<Rightarrow> int list \<Rightarrow> 'b mon_state \<Rightarrow> ('r, 'b) lt_sys" where
  "lt_sys_start ring batches m = \<lparr>ls_rx = lt_rx_start ring batches, ls_cons = (\<lambda>_. Awake), ls_mon = m\<rparr>"

definition lt_received :: "lt_act list \<Rightarrow> mbuf list" where
  "lt_received as = concat (map (\<lambda>a. case a of Receive q pkts \<Rightarrow> pkts | Consume w \<Rightarrow> []) as)"

lemma lt_received_simps [simp]:
  "lt_received [] = []"
  "lt_received (as @ [Receive q pkts]) = lt_received as @ pkts"
  "lt_received (as @ [Consume w]) = lt_received as"
  by (simp_all add: lt_received_def)

section \<open>One burst\<close>

text \<open>The receiving thread's state is sound for \<open>n\<close> rings after at most \<open>k\<close> bursts.\<close>

definition rx_ok :: "nat \<Rightarrow> nat \<Rightarrow> nat \<Rightarrow> nat \<Rightarrow> 'r lt_rx \<Rightarrow> bool" where
  "rx_ok n W L k s \<longleftrightarrow> 0 \<le> worker_id s \<and> length (len s) = W \<and> length (lt_ring s) = W \<and> length (batch_n s) = L \<and>
     (\<forall>w < n. lt_ring s ! w \<noteq> None) \<and> (\<forall>w < n. 0 \<le> len s ! w \<and> len s ! w < BURST_SIZE) \<and>
     ring_loss s = int (length (rx_freed s)) \<and> (\<forall>q < L. 0 \<le> batch_n s ! q \<and> batch_n s ! q \<le> int k)"

lemma rx_ok_idle: "rx_ok n W L k s \<Longrightarrow> rx_ok n W L (k + 1) s"
  by (fastforce simp: rx_ok_def)

lemma rx_ok_start:
  assumes "n \<le> W" "length ring = W" "\<forall>w < n. ring ! w \<noteq> None"
  shows "rx_ok n W L 0 (lt_rx_start ring (replicate L 0))"
  using assms by (simp add: rx_ok_def lt_rx_start_def BURST_SIZE_def)

lemma rx_burst_effect:
  assumes fifo: "fifo_ring contents enq deq" and ok: "rx_ok n W L k s"
    and n: "n = unat nr" "0 < n" "n \<le> W" and q: "q < L" and p: "pkts \<noteq> []" "length pkts \<le> 256"
    and small: "length (rx_freed s) + length pkts < 2 ^ 31" "k + 1 < 2 ^ 31"
  shows "\<exists>s' w j. lthread_rx_burst enq nr ready (q, pkts) s = Inr s' \<and> rx_ok n W L (k + 1) s' \<and> w < n \<and>
    contents (the (lt_ring s' ! w)) = contents (the (lt_ring s ! w)) @ take j pkts \<and>
    rx_freed s' = rx_freed s @ drop j pkts \<and> j \<le> length pkts \<and>
    (\<forall>v < n. v \<noteq> w \<longrightarrow> lt_ring s' ! v = lt_ring s ! v \<and> len s' ! v = len s ! v) \<and>
    (if 256 \<le> len s ! w + int j then len s' ! w = 0 \<and> signals s' = signals s @ [(w, ready ! w)]
     else len s' ! w = len s ! w + int j \<and> signals s' = signals s)"
proof -
  define w where "w = nat ((worker_id s + 1) mod int (unat nr))"
  have "0 \<le> (worker_id s + 1) mod int n" "(worker_id s + 1) mod int n < int n" using n(2) by simp_all
  then have w: "w < n" unfolding w_def n(1) [symmetric] by linarith
  have okD: "length (len s) = W" "length (lt_ring s) = W" "length (batch_n s) = L"
    "\<And>w. w < n \<Longrightarrow> lt_ring s ! w \<noteq> None" "\<And>w. w < n \<Longrightarrow> 0 \<le> len s ! w \<and> len s ! w < BURST_SIZE"
    "ring_loss s = int (length (rx_freed s))" "\<And>q. q < L \<Longrightarrow> 0 \<le> batch_n s ! q \<and> batch_n s ! q \<le> int k"
    using ok by (auto simp: rx_ok_def)
  obtain r where r: "lt_ring s ! w = Some r" using okD(4) [OF w] by blast
  obtain j r' where j: "enq pkts r = (j, r')" by (cases "enq pkts r")
  then have jc: "j \<le> length pkts" "contents r' = contents r @ take j pkts"
    using fifo unfolding fifo_ring_def by blast+
  have b: "c_int_add (batch_n s ! q) 1 = Inr (batch_n s ! q + 1)"
    by (rule c_int_add_small) (use okD(7) [OF q] small(2) in auto)
  let ?s = "s\<lparr>batch_n := (batch_n s)[q := batch_n s ! q + 1], worker_id := int w\<rparr>"
  obtain s' where s': "lt_rx_enqueue enq ready w r pkts ?s = Inr s'" "worker_id s' = int w"
    "batch_n s' = (batch_n s)[q := batch_n s ! q + 1]" "lt_ring s' = (lt_ring s)[w := Some r']"
    "rx_freed s' = rx_freed s @ drop j pkts" "ring_loss s' = ring_loss s + int (length pkts - j)"
    "if BURST_SIZE \<le> len s ! w + int j
     then len s' = (len s)[w := 0] \<and> signals s' = signals s @ [(w, ready ! w)]
     else len s' = (len s)[w := len s ! w + int j] \<and> signals s' = signals s"
    using lt_rx_enqueue_step [OF fifo j, of ?s w ready] p(2) small(1) okD(5) [OF w] okD(6) by auto
  have "lthread_rx_burst enq nr ready (q, pkts) s = lt_rx_enqueue enq ready w r pkts ?s"
  proof -
    have "nr \<noteq> 0" using n(1,2) by auto
    moreover have "nat ((worker_id s + 1) mod int (unat nr)) = w" by (simp only: w_def)
    moreover have "w < length (lt_ring s)" using w n(3) okD(2) by simp
    ultimately show ?thesis using p(1) q okD(3) b r by (simp add: lthread_rx_burst_def Let_def)
  qed
  with s'(1) have "lthread_rx_burst enq nr ready (q, pkts) s = Inr s'" by simp
  moreover have "rx_ok n W L (k + 1) s'"
  proof -
    have "0 \<le> batch_n s' ! v \<and> batch_n s' ! v \<le> int (k + 1)" if "v < L" for v
      using okD(7) [OF that] okD(3) q s'(3) by (cases "v = q") simp_all
    moreover have "0 \<le> len s' ! v \<and> len s' ! v < BURST_SIZE" if "v < n" for v
      using okD(5) [OF that] okD(5) [OF w] s'(7) w n(3) okD(1)
      by (cases "v = w"; cases "BURST_SIZE \<le> len s ! w + int j") (simp_all add: BURST_SIZE_def)
    moreover have "lt_ring s' ! v \<noteq> None" if "v < n" for v
      using okD(4) [OF that] okD(2) w n(3) s'(4) by (cases "v = w") simp_all
    moreover have "length (len s') = W" using s'(7) okD(1) by (auto split: if_splits)
    moreover have "ring_loss s' = int (length (rx_freed s'))" using s'(5,6) okD(6) by simp
    ultimately show ?thesis using s'(2,3,4) okD(2,3) unfolding rx_ok_def by simp
  qed
  moreover have "contents (the (lt_ring s' ! w)) = contents (the (lt_ring s ! w)) @ take j pkts"
    using s'(4) r jc(2) okD(2) w n(3) by simp
  moreover have "lt_ring s' ! v = lt_ring s ! v \<and> len s' ! v = len s ! v" if "v \<noteq> w" for v
    using that s'(4,7) by (simp split: if_splits)
  moreover have "if 256 \<le> len s ! w + int j then len s' ! w = 0 \<and> signals s' = signals s @ [(w, ready ! w)]
     else len s' ! w = len s ! w + int j \<and> signals s' = signals s"
    using s'(7) okD(1) w n(3) by (cases "256 \<le> len s ! w + int j") (simp_all add: BURST_SIZE_def)
  ultimately show ?thesis using w s'(5) jc(1) by blast
qed

section \<open>The invariant\<close>

text \<open>
  After the steps \<open>as\<close> from the counting state \<open>m0\<close>: the counting threads have processed the bursts
  \<open>bss\<close>, and a waiting thread that shares the core of the receiving thread has at most \<open>len\<close> packets
  in its ring.
\<close>

definition sys_inv ::
  "('r \<Rightarrow> mbuf list) \<Rightarrow> nat \<Rightarrow> nat \<Rightarrow> nat \<Rightarrow> bool list \<Rightarrow> (nat \<Rightarrow> bool) \<Rightarrow>
   (nat \<Rightarrow> mbuf list \<Rightarrow> 'b mon_state \<Rightarrow> fw_error + 'b mon_state) \<Rightarrow> 'b mon_state \<Rightarrow>
   lt_act list \<Rightarrow> (nat \<times> mbuf list) list \<Rightarrow> ('r, 'b) lt_sys \<Rightarrow> bool"
where
  "sys_inv contents n W L ready same_core counting m0 as bss s \<longleftrightarrow>
     rx_ok n W L (length as) (ls_rx s) \<and>
     run (\<lambda>(q, bufs). counting q bufs) bss m0 = Inr (ls_mon s) \<and> (\<forall>b \<in> set bss. fst b < n) \<and>
     mset (lt_received as) = mset (rx_freed (ls_rx s))
       + (\<Sum>w < n. mset (contents (the (lt_ring (ls_rx s) ! w)))) + mset (packets bss) \<and>
     (\<forall>w < n. same_core w \<longrightarrow> ls_cons s w \<noteq> Found_empty \<and>
       (ls_cons s w = Asleep \<longrightarrow>
          ready ! w \<and> int (length (contents (the (lt_ring (ls_rx s) ! w)))) \<le> len (ls_rx s) ! w))"

lemma sys_inv_start:
  assumes "n \<le> length ring" "\<forall>w < n. \<exists>r. ring ! w = Some r \<and> contents r = []"
  shows "sys_inv contents n (length ring) L ready same_core counting m [] [] (lt_sys_start ring (replicate L 0) m)"
proof -
  have "rx_ok n (length ring) L 0 (lt_rx_start ring (replicate L 0))"
    by (rule rx_ok_start [OF assms(1) refl]) (use assms(2) in fastforce)
  moreover have "(\<Sum>w < n. mset (contents (the (ring ! w)))) = {#}"
    by (rule sum.neutral) (use assms(2) in fastforce)
  ultimately show ?thesis by (simp add: sys_inv_def lt_sys_start_def lt_rx_start_def)
qed

lemma sum_mset_at:
  fixes f :: "nat \<Rightarrow> 'a multiset"
  assumes "w < n" "\<And>v. v < n \<Longrightarrow> v \<noteq> w \<Longrightarrow> g v = f v"
  shows "(\<Sum>v<n. g v) + f w = (\<Sum>v<n. f v) + g w"
proof -
  have w: "w \<in> {..<n}" using assms(1) by simp
  have "sum g ({..<n} - {w}) = sum f ({..<n} - {w})" using assms(2) by (intro sum.cong) auto
  then show ?thesis using sum.remove [OF _ w, of g] sum.remove [OF _ w, of f] by simp
qed

lemma sys_inv_receive:
  assumes fifo: "fifo_ring contents enq deq" and inv: "sys_inv contents n W L ready same_core counting m0 as bss s"
    and n: "n = unat nr" "0 < n" "n \<le> W" "n \<le> length ready" and q: "q < L" "length pkts \<le> 256"
    and small: "length (lt_received (as @ [Receive q pkts])) < 2 ^ 31" "length (as @ [Receive q pkts]) < 2 ^ 31"
  shows "\<exists>s'. lt_sys_step lthread_cond enq deq nr ready same_core counting (Receive q pkts) s = Inr s' \<and>
    sys_inv contents n W L ready same_core counting m0 (as @ [Receive q pkts]) bss s'"
proof (cases "pkts = []")
  case True
  then have "lt_sys_step lthread_cond enq deq nr ready same_core counting (Receive q pkts) s = Inr s"
    by (simp add: lt_sys_step_def lthread_rx_burst_def)
  moreover have "sys_inv contents n W L ready same_core counting m0 (as @ [Receive q pkts]) bss s"
    using inv rx_ok_idle [of n W L "length as" "ls_rx s"] True by (simp add: sys_inv_def)
  ultimately show ?thesis by blast
next
  case False
  have ok: "rx_ok n W L (length as) (ls_rx s)"
    and run: "run (\<lambda>(q, bufs). counting q bufs) bss m0 = Inr (ls_mon s)" "\<forall>b \<in> set bss. fst b < n"
    and all: "mset (lt_received as) = mset (rx_freed (ls_rx s))
       + (\<Sum>w < n. mset (contents (the (lt_ring (ls_rx s) ! w)))) + mset (packets bss)"
    and core: "\<And>w. w < n \<Longrightarrow> same_core w \<Longrightarrow> ls_cons s w \<noteq> Found_empty \<and>
       (ls_cons s w = Asleep \<longrightarrow>
          ready ! w \<and> int (length (contents (the (lt_ring (ls_rx s) ! w)))) \<le> len (ls_rx s) ! w)"
    using inv unfolding sys_inv_def by blast+
  have "length (lt_received as) \<ge> length (rx_freed (ls_rx s))"
    using arg_cong [OF all, of size] by (simp add: size_mset)
  then have few: "length (rx_freed (ls_rx s)) + length pkts < 2 ^ 31" "length as + 1 < 2 ^ 31"
    using small by simp_all
  obtain r w j where r: "lthread_rx_burst enq nr ready (q, pkts) (ls_rx s) = Inr r" "rx_ok n W L (length as + 1) r"
    and w: "w < n" "contents (the (lt_ring r ! w)) = contents (the (lt_ring (ls_rx s) ! w)) @ take j pkts"
    and f: "rx_freed r = rx_freed (ls_rx s) @ drop j pkts" "j \<le> length pkts"
    and others: "\<And>v. v < n \<Longrightarrow> v \<noteq> w \<Longrightarrow> lt_ring r ! v = lt_ring (ls_rx s) ! v \<and> len r ! v = len (ls_rx s) ! v"
    and sig: "if 256 \<le> len (ls_rx s) ! w + int j then len r ! w = 0 \<and> signals r = signals (ls_rx s) @ [(w, ready ! w)]
      else len r ! w = len (ls_rx s) ! w + int j \<and> signals r = signals (ls_rx s)"
    using rx_burst_effect [OF fifo ok n(1-3) q(1) False q(2) few] by blast
  let ?s = "s\<lparr>ls_rx := r, ls_cons := cond_signals lthread_cond (drop (length (signals (ls_rx s))) (signals r)) (ls_cons s)\<rparr>"
  have step: "lt_sys_step lthread_cond enq deq nr ready same_core counting (Receive q pkts) s = Inr ?s"
    by (simp add: lt_sys_step_def r(1))
  have "(\<Sum>v<n. mset (contents (the (lt_ring r ! v)))) + mset (contents (the (lt_ring (ls_rx s) ! w)))
      = (\<Sum>v<n. mset (contents (the (lt_ring (ls_rx s) ! v)))) + mset (contents (the (lt_ring r ! w)))"
    by (rule sum_mset_at [OF w(1)]) (use others in simp)
  then have "(\<Sum>v<n. mset (contents (the (lt_ring r ! v))))
      = (\<Sum>v<n. mset (contents (the (lt_ring (ls_rx s) ! v)))) + mset (take j pkts)" by (simp add: w(2))
  moreover have "mset pkts = mset (take j pkts) + mset (drop j pkts)" by (metis append_take_drop_id mset_append)
  ultimately have all': "mset (lt_received (as @ [Receive q pkts])) = mset (rx_freed r)
      + (\<Sum>v < n. mset (contents (the (lt_ring r ! v)))) + mset (packets bss)"
    using all f(1) by simp
  have "ls_cons ?s v \<noteq> Found_empty \<and>
      (ls_cons ?s v = Asleep \<longrightarrow> ready ! v \<and> int (length (contents (the (lt_ring r ! v)))) \<le> len r ! v)"
    if v: "v < n" "same_core v" for v
  proof (cases "v = w")
    case False
    have "ls_cons ?s v = ls_cons s v" using sig False by (auto split: if_splits)
    then show ?thesis using core [OF v] others [OF v(1) False] by simp
  next
    case True
    have l: "length (contents (the (lt_ring r ! w))) = length (contents (the (lt_ring (ls_rx s) ! w))) + j"
      using w(2) f(2) by simp
    show ?thesis
    proof (cases "256 \<le> len (ls_rx s) ! w + int j")
      case t: True
      then have "ls_cons ?s w = (if ready ! w \<and> ls_cons s w = Asleep then Awake else ls_cons s w)"
        using sig by simp
      then show ?thesis using core [OF v] True by auto
    next
      case False
      then have "ls_cons ?s w = ls_cons s w" "len r ! w = len (ls_rx s) ! w + int j" using sig by simp_all
      then show ?thesis using core [OF v] True l by auto
    qed
  qed
  then have "sys_inv contents n W L ready same_core counting m0 (as @ [Receive q pkts]) bss ?s"
    unfolding sys_inv_def using r(2) run all' by simp
  with step show ?thesis by blast
qed

lemma sys_inv_consume:
  assumes fifo: "fifo_ring contents enq deq" and inv: "sys_inv contents n W L ready same_core counting m0 as bss s"
    and w: "w < n" "n \<le> W" and small: "length (lt_received as) < 2 ^ 31"
    and counting: "\<And>bss. \<forall>b \<in> set bss. fst b < n \<Longrightarrow> length (packets bss) < 2 ^ 31 \<Longrightarrow>
      \<exists>m. run (\<lambda>(q, bufs). counting q bufs) bss m0 = Inr m"
  shows "\<exists>s' bss'. lt_sys_step lthread_cond enq deq nr ready same_core counting (Consume w) s = Inr s' \<and>
    sys_inv contents n W L ready same_core counting m0 (as @ [Consume w]) bss' s'"
proof -
  have ok: "rx_ok n W L (length as) (ls_rx s)" "rx_ok n W L (length (as @ [Consume w])) (ls_rx s)"
    and run: "run (\<lambda>(q, bufs). counting q bufs) bss m0 = Inr (ls_mon s)" "\<forall>b \<in> set bss. fst b < n"
    and all: "mset (lt_received as) = mset (rx_freed (ls_rx s))
       + (\<Sum>w < n. mset (contents (the (lt_ring (ls_rx s) ! w)))) + mset (packets bss)"
    and core: "\<And>w. w < n \<Longrightarrow> same_core w \<Longrightarrow> ls_cons s w \<noteq> Found_empty \<and>
       (ls_cons s w = Asleep \<longrightarrow>
          ready ! w \<and> int (length (contents (the (lt_ring (ls_rx s) ! w)))) \<le> len (ls_rx s) ! w)"
    using inv rx_ok_idle [of n W L "length as" "ls_rx s"] unfolding sys_inv_def by simp_all
  have okD: "length (lt_ring (ls_rx s)) = W" "0 \<le> len (ls_rx s) ! w" "lt_ring (ls_rx s) ! w \<noteq> None"
    using ok(1) w unfolding rx_ok_def by auto
  show ?thesis
  proof (cases "ls_cons s w = Awake")
    case False
    let ?s = "if ls_cons s w = Asleep then s else s\<lparr>ls_cons := (ls_cons s)(w := cond_wait lthread_cond ready w)\<rparr>"
    have "lt_sys_step lthread_cond enq deq nr ready same_core counting (Consume w) s = Inr ?s"
      using False by (cases "ls_cons s w") (simp_all add: lt_sys_step_def lt_consume_def)
    moreover have "sys_inv contents n W L ready same_core counting m0 (as @ [Consume w]) bss ?s"
      using ok(2) run all core unfolding sys_inv_def by (cases "ls_cons s w") (simp_all add: False, fastforce+)
    ultimately show ?thesis by blast
  next
    case awake: True
    obtain r where r: "lt_ring (ls_rx s) ! w = Some r" using okD(3) by blast
    obtain bufs r' where d: "deq MAX_PKT_BURST r = (bufs, r')" by (cases "deq MAX_PKT_BURST r")
    then have dc: "length bufs = min 256 (length (contents r))" "contents r = bufs @ contents r'"
      using fifo unfolding fifo_ring_def MAX_PKT_BURST_def by blast+
    let ?rx = "(ls_rx s)\<lparr>lt_ring := (lt_ring (ls_rx s))[w := Some r']\<rparr>"
    have ok': "rx_ok n W L (length (as @ [Consume w])) ?rx"
      using ok(2) w unfolding rx_ok_def by (auto simp: nth_list_update)
    have "(\<Sum>v<n. mset (contents (the (lt_ring ?rx ! v)))) + mset (contents (the (lt_ring (ls_rx s) ! w)))
        = (\<Sum>v<n. mset (contents (the (lt_ring (ls_rx s) ! v)))) + mset (contents (the (lt_ring ?rx ! w)))"
      by (rule sum_mset_at [OF w(1)]) simp
    then have rings: "(\<Sum>v<n. mset (contents (the (lt_ring ?rx ! v)))) + mset bufs
        = (\<Sum>v<n. mset (contents (the (lt_ring (ls_rx s) ! v))))"
      using w okD(1) by (simp add: r dc(2))
    show ?thesis
    proof (cases "bufs = []")
      case True
      let ?c = "if same_core w then cond_wait lthread_cond ready w else Found_empty"
      let ?s = "s\<lparr>ls_rx := ?rx, ls_cons := (ls_cons s)(w := ?c)\<rparr>"
      have "lt_sys_step lthread_cond enq deq nr ready same_core counting (Consume w) s = Inr ?s"
        using awake r d True by (simp add: lt_sys_step_def lt_consume_def)
      moreover have "ls_cons ?s v \<noteq> Found_empty \<and> (ls_cons ?s v = Asleep \<longrightarrow>
          ready ! v \<and> int (length (contents (the (lt_ring ?rx ! v)))) \<le> len ?rx ! v)"
        if v: "v < n" "same_core v" for v
      proof (cases "v = w")
        case True
        have "contents r' = []" using dc \<open>bufs = []\<close> by (simp add: min_def split: if_splits)
        then show ?thesis using True v w okD by simp
      next
        case False
        then show ?thesis using core [OF v] by simp
      qed
      ultimately show ?thesis
        using ok' run all rings True unfolding sys_inv_def by (intro exI [of _ ?s] exI [of _ bss]) simp
    next
      case False
      have pk: "packets (bss @ [(w, bufs)]) = packets bss @ bufs" by simp
      have all': "mset (lt_received as) = mset (rx_freed ?rx) + (\<Sum>v<n. mset (contents (the (lt_ring ?rx ! v))))
          + mset (packets (bss @ [(w, bufs)]))"
        using all rings [symmetric] by (simp add: pk)
      then have "length (packets (bss @ [(w, bufs)])) \<le> length (lt_received as)"
        by (metis le_add2 size_mset size_union)
      then have "length (packets (bss @ [(w, bufs)])) < 2 ^ 31" using small by simp
      moreover have "\<forall>b \<in> set (bss @ [(w, bufs)]). fst b < n" using run(2) w(1) by simp
      ultimately obtain m where m: "run (\<lambda>(q, bufs). counting q bufs) (bss @ [(w, bufs)]) m0 = Inr m"
        using counting by blast
      then have "counting w bufs (ls_mon s) = Inr m" using run(1) by (cases "counting w bufs (ls_mon s)") (simp_all add: run_append)
      then have "lt_sys_step lthread_cond enq deq nr ready same_core counting (Consume w) s = Inr (s\<lparr>ls_rx := ?rx, ls_mon := m\<rparr>)"
        using awake r d False by (simp add: lt_sys_step_def lt_consume_def)
      moreover have "sys_inv contents n W L ready same_core counting m0 (as @ [Consume w]) (bss @ [(w, bufs)])
          (s\<lparr>ls_rx := ?rx, ls_mon := m\<rparr>)"
      proof -
        have "ls_cons s v \<noteq> Found_empty \<and> (ls_cons s v = Asleep \<longrightarrow>
            ready ! v \<and> int (length (contents (the (lt_ring ?rx ! v)))) \<le> len ?rx ! v)"
          if v: "v < n" "same_core v" for v
          using core [OF v] awake by (cases "v = w") simp_all
        then show ?thesis using ok' m run(2) w(1) all' unfolding sys_inv_def by simp
      qed
      ultimately show ?thesis by blast
    qed
  qed
qed

section \<open>A run\<close>

text \<open>The steps of \<open>n\<close> counting threads and a receiving thread with at most \<open>L\<close> queues.\<close>

definition acts_ok :: "nat \<Rightarrow> nat \<Rightarrow> lt_act list \<Rightarrow> bool" where
  "acts_ok n L as \<longleftrightarrow>
     (\<forall>a \<in> set as. case a of Receive q pkts \<Rightarrow> q < L \<and> length pkts \<le> 256 | Consume w \<Rightarrow> w < n) \<and>
     length (lt_received as) < 2 ^ 31 \<and> length as < 2 ^ 31"

lemma acts_ok_snoc:
  "acts_ok n L (as @ [a]) \<Longrightarrow> acts_ok n L as \<and>
     (case a of Receive q pkts \<Rightarrow> q < L \<and> length pkts \<le> 256 | Consume w \<Rightarrow> w < n)"
  by (auto simp: acts_ok_def split: lt_act.splits)

lemma sys_run:
  assumes fifo: "fifo_ring contents enq deq" and n: "n = unat nr" "0 < n" "n \<le> length ring" "n \<le> length ready"
    and ring: "\<forall>w < n. \<exists>r. ring ! w = Some r \<and> contents r = []"
    and counting: "\<And>bss. \<forall>b \<in> set bss. fst b < n \<Longrightarrow> length (packets bss) < 2 ^ 31 \<Longrightarrow>
      \<exists>m. run (\<lambda>(q, bufs). counting q bufs) bss m0 = Inr m"
    and "acts_ok n L as"
  shows "\<exists>s bss. run (lt_sys_step lthread_cond enq deq nr ready same_core counting) as (lt_sys_start ring (replicate L 0) m0) = Inr s \<and>
    sys_inv contents n (length ring) L ready same_core counting m0 as bss s"
  using assms(8)
proof (induction as rule: rev_induct)
  case Nil
  then show ?case using sys_inv_start [OF n(3) ring] by fastforce
next
  case (snoc a as)
  note ok = acts_ok_snoc [OF snoc.prems]
  obtain s bss where s: "run (lt_sys_step lthread_cond enq deq nr ready same_core counting) as (lt_sys_start ring (replicate L 0) m0) = Inr s"
    "sys_inv contents n (length ring) L ready same_core counting m0 as bss s"
    using snoc.IH ok by blast
  have small: "length (lt_received as) < 2 ^ 31" using ok by (simp add: acts_ok_def)
  have "\<exists>s' bss'. lt_sys_step lthread_cond enq deq nr ready same_core counting a s = Inr s' \<and>
      sys_inv contents n (length ring) L ready same_core counting m0 (as @ [a]) bss' s'"
  proof (cases a)
    case (Receive q pkts)
    have "length (lt_received (as @ [Receive q pkts])) < 2 ^ 31" "length (as @ [Receive q pkts]) < 2 ^ 31"
      using snoc.prems Receive by (simp_all add: acts_ok_def)
    moreover have "q < L" "length pkts \<le> 256" using ok Receive by simp_all
    ultimately show ?thesis using sys_inv_receive [OF fifo s(2) n] Receive by blast
  next
    case (Consume w)
    then have "w < n" using ok by simp
    then show ?thesis unfolding Consume by (rule sys_inv_consume [OF fifo s(2) _ n(3) small counting])
  qed
  then obtain s' bss' where "lt_sys_step lthread_cond enq deq nr ready same_core counting a s = Inr s'"
    "sys_inv contents n (length ring) L ready same_core counting m0 (as @ [a]) bss' s'" by blast
  with s(1) show ?case by (auto simp: run_append)
qed

lemma lt_tx_per_ring_frees: "lt_tx_per_ring c n_rx q bufs s = Inr s' \<Longrightarrow> freed s' = freed s @ bufs"
  by (auto simp: lt_tx_per_ring_def sbind_Inr_iff split: if_splits dest!: lt_run_one)

text \<open>The start of a run with the table of the L-thread version: empty rings, zeroed table and counters.\<close>

definition lt_ready_to_run ::
  "('r \<Rightarrow> mbuf list) \<Rightarrow> nat \<Rightarrow> nat \<Rightarrow> cfg \<Rightarrow> 'r option list \<Rightarrow> bool list \<Rightarrow> (nat \<Rightarrow> u32 pkt_count_qt)
     \<Rightarrow> u32 pkt_count_qt mon_state \<Rightarrow> bool"
where
  "lt_ready_to_run contents n n_rx c ring ready t m \<longleftrightarrow>
     0 < n \<and> n \<le> n_rx \<and> n \<le> length ring \<and> n \<le> length ready \<and>
     (\<forall>w < n. \<exists>r. ring ! w = Some r \<and> contents r = []) \<and>
     rings m = replicate n_rx 0 \<and> unat (glob m) < 2 ^ 31 \<and> freed m = [] \<and>
     (\<forall>i < FLOW_NUM. lt_zeroed (t i)) \<and> tbl m = init_table (lt_init_bucket c) t"

lemma lt_sys_run:
  assumes fifo: "fifo_ring contents enq deq" and fp: "ieee_double (c_fpu c)"
    and start: "lt_ready_to_run contents (unat nr) n_rx c ring ready t m" and as: "acts_ok (unat nr) L as"
  obtains s bss where "run (lt_sys_step lthread_cond enq deq nr ready same_core (lt_tx_per_ring c n_rx)) as
      (lt_sys_start ring (replicate L 0) m) = Inr s"
    and "sys_inv contents (unat nr) (length ring) L ready same_core (lt_tx_per_ring c n_rx) m as bss s"
    and "freed (ls_mon s) = packets bss"
proof -
  have n: "0 < unat nr" "unat nr \<le> length ring" "unat nr \<le> length ready"
    and le: "unat nr \<le> n_rx" and ring: "\<forall>w < unat nr. \<exists>r. ring ! w = Some r \<and> contents r = []"
    and m: "rings m = replicate n_rx 0" "unat (glob m) < 2 ^ 31" "freed m = []"
      "\<forall>i < FLOW_NUM. lt_zeroed (t i)" "tbl m = init_table (lt_init_bucket c) t"
    using start unfolding lt_ready_to_run_def by blast+
  have "\<exists>m'. run (\<lambda>(q, bufs). lt_tx_per_ring c n_rx q bufs) bss m = Inr m'"
    if b: "\<forall>b \<in> set bss. fst b < unat nr" "length (packets bss) < 2 ^ 31" for bss
  proof -
    have "\<forall>b \<in> set bss. fst b < n_rx" using b(1) le by auto
    from lt_start [OF fp m(1,2) this b(2) m(4,5)] show ?thesis by metis
  qed
  then obtain s bss where s: "run (lt_sys_step lthread_cond enq deq nr ready same_core (lt_tx_per_ring c n_rx)) as
      (lt_sys_start ring (replicate L 0) m) = Inr s"
    "sys_inv contents (unat nr) (length ring) L ready same_core (lt_tx_per_ring c n_rx) m as bss s"
    using sys_run [OF fifo refl n ring _ as, of "lt_tx_per_ring c n_rx" m same_core] by blast
  have "run (\<lambda>(q, bufs). lt_tx_per_ring c n_rx q bufs) bss m = Inr (ls_mon s)"
    using s(2) unfolding sys_inv_def by blast
  from run_frees [where f = "\<lambda>bufs. bufs", OF this lt_tx_per_ring_frees]
  have "freed (ls_mon s) = packets bss" by (simp add: m(3))
  with s show thesis by (rule that)
qed

section \<open>Every received packet is counted, waiting or freed\<close>


text \<open>Two counting threads, on the receiving thread's core and elsewhere.\<close>

definition ex_acts :: "lt_act list" where
  "ex_acts = [Consume 1, Receive 0 [\<lparr>mb_id = 1, rss = 65543\<rparr>, \<lparr>mb_id = 2, rss = 65544\<rparr>], Consume 1, Consume 0,
     Receive 1 [\<lparr>mb_id = 3, rss = 65543\<rparr>], Consume 1]"

lemma ex_sys_start:
  "lt_ready_to_run (\<lambda>r. r) (unat (2 :: u16)) 2 ex_cfg [Some [], Some []] [True, True] (\<lambda>_. lt_zero)
     ((ex_state (init_table (lt_init_bucket ex_cfg) (\<lambda>_. lt_zero)))\<lparr>rings := [0, 0]\<rparr>)"
proof -
  have "unat (2 :: u16) = 2" "replicate 2 (0 :: u64) = [0, 0]" by (simp, simp add: numeral_2_eq_2)
  then show ?thesis by (simp only: lt_ready_to_run_def) (simp add: less_2_cases_iff lt_zero_zeroed)
qed

lemma ex_acts_ok: "acts_ok (unat (2 :: u16)) 2 ex_acts"
  by (simp add: acts_ok_def ex_acts_def lt_received_def)


section \<open>Waiting\<close>

text \<open>
  C11: On the core of the receiving thread no wake-up is lost: whenever the ring of a counting thread
  holds 256 packets, the thread does not wait, and its next turn takes 256 of them and counts them.
\<close>

theorem same_core_progress:
  assumes "fifo_ring contents enq deq" and "ieee_double (c_fpu c)"
    and "lt_ready_to_run contents (unat nr) n_rx c ring ready t m" and "acts_ok (unat nr) L (as @ [Consume w])"
    and "run (lt_sys_step lib enq deq nr ready same_core (lt_tx_per_ring c n_rx)) as
      (lt_sys_start ring (replicate L 0) m) = Inr s"
    and "same_core w" and "256 \<le> length (contents (the (lt_ring (ls_rx s) ! w)))"
    and lib: "cond_contract lib"
  shows "\<exists>s' bufs. lt_sys_step lib enq deq nr ready same_core (lt_tx_per_ring c n_rx) (Consume w) s = Inr s' \<and>
    length bufs = 256 \<and> freed (ls_mon s') = freed (ls_mon s) @ bufs \<and>
    contents (the (lt_ring (ls_rx s) ! w)) = bufs @ contents (the (lt_ring (ls_rx s') ! w))"
proof -
  note lib = cond_contract_unique [OF lib]
  have acts: "acts_ok (unat nr) L as" and w: "w < unat nr" using acts_ok_snoc [OF assms(4)] by simp_all
  obtain bss where inv: "sys_inv contents (unat nr) (length ring) L ready same_core (lt_tx_per_ring c n_rx) m as bss s"
    using lt_sys_run [OF assms(1-3) acts, of same_core] assms(5) [unfolded lib] by (metis sum.inject(2))
  have ok: "rx_ok (unat nr) (length ring) L (length as) (ls_rx s)"
    and core: "ls_cons s w \<noteq> Found_empty \<and> (ls_cons s w = Asleep \<longrightarrow>
          ready ! w \<and> int (length (contents (the (lt_ring (ls_rx s) ! w)))) \<le> len (ls_rx s) ! w)"
    using inv w assms(6) unfolding sys_inv_def by blast+
  have le: "unat nr \<le> length ring" using assms(3) unfolding lt_ready_to_run_def by blast
  have rx: "length (lt_ring (ls_rx s)) = length ring" "len (ls_rx s) ! w < 256" "lt_ring (ls_rx s) ! w \<noteq> None"
    using ok w unfolding rx_ok_def BURST_SIZE_def by auto
  have "ls_cons s w \<noteq> Asleep" using core rx(2) assms(7) by linarith
  then have awake: "ls_cons s w = Awake" using core by (cases "ls_cons s w") simp_all
  obtain r where r: "lt_ring (ls_rx s) ! w = Some r" using rx(3) by blast
  obtain bufs r' where d: "deq MAX_PKT_BURST r = (bufs, r')" by (cases "deq MAX_PKT_BURST r")
  then have "length bufs = min 256 (length (contents r))" "contents r = bufs @ contents r'"
    using assms(1) unfolding fifo_ring_def MAX_PKT_BURST_def by blast+
  then have bufs: "length bufs = 256" "contents r = bufs @ contents r'" using assms(7) r by simp_all
  then have "bufs \<noteq> []" by auto
  obtain s' where s': "run (lt_sys_step lthread_cond enq deq nr ready same_core (lt_tx_per_ring c n_rx)) (as @ [Consume w])
      (lt_sys_start ring (replicate L 0) m) = Inr s'"
    using lt_sys_run [OF assms(1-4), of same_core] by metis
  then have step: "lt_sys_step lthread_cond enq deq nr ready same_core (lt_tx_per_ring c n_rx) (Consume w) s = Inr s'"
    using assms(5) [unfolded lib] by (cases "lt_sys_step lthread_cond enq deq nr ready same_core (lt_tx_per_ring c n_rx) (Consume w) s")
      (simp_all add: run_append)
  then obtain m' where m': "lt_tx_per_ring c n_rx w bufs (ls_mon s) = Inr m'"
    "s' = s\<lparr>ls_rx := (ls_rx s)\<lparr>lt_ring := (lt_ring (ls_rx s))[w := Some r']\<rparr>, ls_mon := m'\<rparr>"
    using awake r d \<open>bufs \<noteq> []\<close> by (auto simp: lt_sys_step_def lt_consume_def sbind_Inr_iff)
  have "contents (the (lt_ring (ls_rx s') ! w)) = contents r'" using m'(2) rx(1) w le by simp
  with step bufs lt_tx_per_ring_frees [OF m'(1)] m'(2) r show ?thesis unfolding lib by auto
qed

text \<open>A thread on another core that has found its ring empty waits although the ring has filled.\<close>

lemma asleep_run:
  assumes fifo: "fifo_ring contents enq deq" and W: "1 \<le> W"
    and "rx_ok 1 W L k (ls_rx s)" "ls_cons s 0 = Asleep"
    and "len (ls_rx s) ! 0 + int (length (lt_received as)) < 256"
    and "length (rx_freed (ls_rx s)) + length (lt_received as) < 2 ^ 31" "k + length as < 2 ^ 31"
    and "\<forall>a \<in> set as. case a of Receive q pkts \<Rightarrow> q < L | Consume w \<Rightarrow> w = 0"
  shows "\<exists>s'. run (lt_sys_step lthread_cond enq deq 1 ready same_core counting) as s = Inr s' \<and> ls_cons s' 0 = Asleep \<and>
    ls_mon s' = ls_mon s \<and> prefix (contents (the (lt_ring (ls_rx s) ! 0))) (contents (the (lt_ring (ls_rx s') ! 0)))"
  using assms(3-)
proof (induction as arbitrary: s k)
  case Nil
  then show ?case by simp
next
  case (Cons a as)
  show ?case
  proof (cases a)
    case (Consume w)
    then have "lt_sys_step lthread_cond enq deq 1 ready same_core counting a s = Inr s"
      using Cons.prems by (simp add: lt_sys_step_def lt_consume_def)
    moreover have "lt_received (a # as) = lt_received as" using Consume by (simp add: lt_received_def)
    ultimately show ?thesis using Cons.IH [of k s] Cons.prems by simp
  next
    case (Receive q pkts)
    have rec: "lt_received (a # as) = pkts @ lt_received as" using Receive by (simp add: lt_received_def)
    show ?thesis
    proof (cases "pkts = []")
      case True
      then have "lt_sys_step lthread_cond enq deq 1 ready same_core counting a s = Inr s"
        using Receive by (simp add: lt_sys_step_def lthread_rx_burst_def)
      then show ?thesis using Cons.IH [of k s] Cons.prems rec True by simp
    next
      case False
      have q: "q < L" using Cons.prems(6) Receive by simp
      have l: "0 \<le> len (ls_rx s) ! 0" using Cons.prems(1) by (simp add: rx_ok_def)
      have p: "length pkts \<le> 256" using Cons.prems(3) rec l by simp
      have few: "length (rx_freed (ls_rx s)) + length pkts < 2 ^ 31" "k + 1 < 2 ^ 31"
        using Cons.prems(4,5) rec by simp_all
      have one: "1 = unat (1 :: u16)" "0 < (1 :: nat)" by simp_all
      obtain r w j where r: "lthread_rx_burst enq 1 ready (q, pkts) (ls_rx s) = Inr r" "rx_ok 1 W L (k + 1) r"
        and w: "w < 1" "contents (the (lt_ring r ! w)) = contents (the (lt_ring (ls_rx s) ! w)) @ take j pkts"
        and f: "rx_freed r = rx_freed (ls_rx s) @ drop j pkts" "j \<le> length pkts"
        and sig: "if 256 \<le> len (ls_rx s) ! w + int j then len r ! w = 0 \<and> signals r = signals (ls_rx s) @ [(w, ready ! w)]
          else len r ! w = len (ls_rx s) ! w + int j \<and> signals r = signals (ls_rx s)"
        using rx_burst_effect [OF fifo Cons.prems(1) one W q False p few] by blast
      have "w = 0" using w(1) by simp
      have sig': "len r ! 0 = len (ls_rx s) ! 0 + int j" "signals r = signals (ls_rx s)"
        using sig f(2) Cons.prems(3) rec \<open>w = 0\<close> by (simp_all split: if_splits)
      let ?s = "s\<lparr>ls_rx := r, ls_cons := ls_cons s\<rparr>"
      have step: "lt_sys_step lthread_cond enq deq 1 ready same_core counting a s = Inr ?s"
        using r(1) sig'(2) Receive by (simp add: lt_sys_step_def)
      have "\<exists>s'. run (lt_sys_step lthread_cond enq deq 1 ready same_core counting) as ?s = Inr s' \<and> ls_cons s' 0 = Asleep \<and>
          ls_mon s' = ls_mon ?s \<and> prefix (contents (the (lt_ring (ls_rx ?s) ! 0))) (contents (the (lt_ring (ls_rx s') ! 0)))"
        by (rule Cons.IH [of "k + 1"]) (use Cons.prems r(2) sig' f rec in simp_all)
      moreover have "prefix (contents (the (lt_ring (ls_rx s) ! 0))) (contents (the (lt_ring r ! 0)))"
        using w(2) \<open>w = 0\<close> by simp
      ultimately show ?thesis using step prefix_order.trans by fastforce
    qed
  qed
qed

text \<open>Two hundred and fifty-six packets of one flow, and the ring of one counting thread.\<close>

definition ex_burst :: "mbuf list" where
  "ex_burst = replicate 256 \<lparr>mb_id = 1, rss = 65543\<rparr>"

abbreviation ex_mon :: "u32 pkt_count_qt mon_state" where
  "ex_mon \<equiv> ex_state (init_table (lt_init_bucket ex_cfg) (\<lambda>_. lt_zero))"

lemma ex_one_start:
  "lt_ready_to_run (\<lambda>r. r) (unat (1 :: u16)) 1 ex_cfg [Some []] [True] (\<lambda>_. lt_zero) ex_mon"
  by (simp add: lt_ready_to_run_def lt_zero_zeroed)

lemma ex_burst_enq: "list_enq 300 ex_burst [] = (256, ex_burst)"
  by (simp add: list_enq_def ex_burst_def Let_def)

theorem same_core_progress_witness:
  "\<exists>s s' bufs. run (lt_sys_step lthread_cond (list_enq 300) list_deq 1 [True] (\<lambda>_. True) (lt_tx_per_ring ex_cfg 1))
      [Consume 0, Receive 0 ex_burst] (lt_sys_start [Some []] (replicate 1 0) ex_mon) = Inr s \<and>
    lt_sys_step lthread_cond (list_enq 300) list_deq 1 [True] (\<lambda>_. True) (lt_tx_per_ring ex_cfg 1) (Consume 0) s = Inr s' \<and>
    length bufs = 256 \<and> freed (ls_mon s') = freed (ls_mon s) @ bufs \<and>
    the (lt_ring (ls_rx s) ! 0) = bufs @ the (lt_ring (ls_rx s') ! 0)"
proof -
  have ne: "ex_burst \<noteq> []" "length ex_burst = 256" by (simp_all add: ex_burst_def)
  obtain s where s: "run (lt_sys_step lthread_cond (list_enq 300) list_deq 1 [True] (\<lambda>_. True) (lt_tx_per_ring ex_cfg 1))
      [Consume 0, Receive 0 ex_burst] (lt_sys_start [Some []] (replicate 1 0) ex_mon) = Inr s"
    "lt_ring (ls_rx s) ! 0 = Some ex_burst"
    using ne by (simp add: lt_sys_step_def lt_consume_def lt_sys_start_def lt_rx_start_def list_deq_def
        lthread_rx_burst_def c_int_add_def fits_int_def lt_rx_enqueue_def ex_burst_enq BURST_SIZE_def)
  have "acts_ok (unat (1 :: u16)) 1 ([Consume 0, Receive 0 ex_burst] @ [Consume 0])"
    by (simp add: acts_ok_def lt_received_def ne(2))
  from same_core_progress [OF fifo_list_ring [of 300] _ ex_one_start this s(1)] s show ?thesis
    by (simp add: ne(2) cond_contract_lthread_cond)
qed

text \<open>
  C27: On another core a wake-up can be lost: if 256 packets arrive after a counting thread has found
  its ring empty and before it waits, the signal finds nobody waiting and the thread sleeps on a ring
  of 256 packets. It does not wake and none of them is counted until 256 further packets have come.
\<close>

theorem lost_wakeup:
  assumes "fifo_ring contents enq deq" and "ring ! 0 = Some r0" and "0 < length ring" and "contents r0 = []"
    and "ready ! 0" and "\<not> same_core 0"
    and "length pkts = 256" and "q < L" and "\<And>r. contents r = [] \<Longrightarrow> fst (enq pkts r) = 256"
    and "length (lt_received as) < 256" and "length as + 1 < 2 ^ 31"
    and "\<forall>a \<in> set as. case a of Receive q pkts \<Rightarrow> q < L | Consume w \<Rightarrow> w = 0"
    and lib: "cond_contract lib"
  shows "\<exists>s. run (lt_sys_step lib enq deq 1 ready same_core counting) ([Consume 0, Receive q pkts, Consume 0] @ as)
      (lt_sys_start ring (replicate L 0) m) = Inr s \<and>
    ls_cons s 0 = Asleep \<and> ls_mon s = m \<and> prefix pkts (contents (the (lt_ring (ls_rx s) ! 0)))"
proof -
  note lib = cond_contract_unique [OF lib]
  obtain r1 where r1: "deq MAX_PKT_BURST r0 = ([], r1)" "contents r1 = []"
  proof (cases "deq MAX_PKT_BURST r0")
    case (Pair out r1)
    then have "length out = min 256 (length (contents r0))" "contents r0 = out @ contents r1"
      using assms(1) unfolding fifo_ring_def MAX_PKT_BURST_def by blast+
    then show thesis using that assms(4) Pair by simp
  qed
  let ?step = "lt_sys_step lthread_cond enq deq 1 ready same_core counting"
  let ?s0 = "lt_sys_start ring (replicate L 0) m"
  let ?s1 = "?s0\<lparr>ls_rx := (ls_rx ?s0)\<lparr>lt_ring := ring[0 := Some r1]\<rparr>, ls_cons := (ls_cons ?s0)(0 := Found_empty)\<rparr>"
  have s1: "?step (Consume 0) ?s0 = Inr ?s1"
    using assms(2,6) r1 by (simp add: lt_sys_step_def lt_consume_def lt_sys_start_def lt_rx_start_def)
  obtain r2 where r2: "enq pkts r1 = (256, r2)" using assms(9) [OF r1(2)] by (cases "enq pkts r1") simp
  then have "contents r2 = contents r1 @ take 256 pkts"
    using assms(1) unfolding fifo_ring_def by blast
  then have c2: "contents r2 = pkts" using r1(2) assms(7) by simp
  have ne: "pkts \<noteq> []" using assms(7) by auto
  let ?rx = "(ls_rx ?s1)\<lparr>batch_n := (replicate L 0)[q := 1], lt_ring := ring[0 := Some r2], signals := [(0, True)]\<rparr>"
  have s2: "?step (Receive q pkts) ?s1 = Inr (?s1\<lparr>ls_rx := ?rx\<rparr>)"
    using ne r2 assms(3,5,7,8)
    by (simp add: lt_sys_step_def lthread_rx_burst_def lt_sys_start_def lt_rx_start_def c_int_add_def fits_int_def
        lt_rx_enqueue_def BURST_SIZE_def list_update_same_conv)
  let ?s3 = "?s1\<lparr>ls_rx := ?rx, ls_cons := (ls_cons ?s1)(0 := Asleep)\<rparr>"
  have s3: "?step (Consume 0) (?s1\<lparr>ls_rx := ?rx\<rparr>) = Inr ?s3"
    using assms(5) by (simp add: lt_sys_step_def lt_consume_def)
  have ok: "rx_ok 1 (length ring) L 1 (ls_rx ?s3)"
  proof -
    have "0 \<le> (replicate L (0 :: int))[q := 1] ! v \<and> (replicate L (0 :: int))[q := 1] ! v \<le> 1" if "v < L" for v
      using that by (cases "v = q") simp_all
    then show ?thesis using assms(3) by (simp add: rx_ok_def lt_sys_start_def lt_rx_start_def BURST_SIZE_def)
  qed
  have "\<exists>s. run ?step as ?s3 = Inr s \<and> ls_cons s 0 = Asleep \<and> ls_mon s = ls_mon ?s3 \<and>
      prefix (contents (the (lt_ring (ls_rx ?s3) ! 0))) (contents (the (lt_ring (ls_rx s) ! 0)))"
    by (rule asleep_run [OF assms(1) _ ok])
      (use assms(3,10-12) in \<open>simp_all add: lt_sys_start_def lt_rx_start_def Suc_leI\<close>)
  moreover have "contents (the (lt_ring (ls_rx ?s3) ! 0)) = pkts" "ls_mon ?s3 = m"
    using assms(3) c2 by (simp_all add: lt_sys_start_def)
  ultimately show ?thesis unfolding lib using s1 s2 s3 by simp
qed

theorem lost_wakeup_witness:
  "\<exists>s. run (lt_sys_step lthread_cond (list_enq 300) list_deq 1 [True] (\<lambda>_. False) (lt_tx_per_ring ex_cfg 1))
      ([Consume 0, Receive 0 ex_burst, Consume 0] @ [Receive 0 (take 100 ex_burst), Consume 0])
      (lt_sys_start [Some []] (replicate 1 0) ex_mon) = Inr s \<and>
    ls_cons s 0 = Asleep \<and> ls_mon s = ex_mon \<and> prefix ex_burst (the (lt_ring (ls_rx s) ! 0))"
  by (rule lost_wakeup [OF fifo_list_ring [of 300]])
    (simp_all add: cond_contract_lthread_cond ex_burst_def lt_received_def list_enq_def Let_def)

end
