(* ===== verification/Lthread_Launch.thy ===== *)
theory Lthread_Launch
  imports Startup
begin

text \<open>
  How the threads of the L-thread version come to life: the first lthread creates the receiving
  threads, waits for them, and creates the counting threads, which create the lthreads that empty
  the rings. Every lthread moves to its core and prepares what its loop uses; the order in which the
  lthreads get the processor is arbitrary. The calls of the L-thread library are entries of a log.
\<close>

section \<open>The lthreads and their calls\<close>

text \<open>An lthread is known by its entry function and the configuration it is given.\<close>

datatype lt_fun = Spawner | Rx_thread nat | Tx_thread nat | Tx_per_ring nat

datatype lt_call = Lthread_create int lt_fun | Lthread_set_affinity u16 | Lthread_sleep nat

datatype spawner_pc = Make_rx nat | Wait_rx | Make_tx nat | Join_all

text \<open>
  \<^verbatim>\<open>rx_counter\<close> and \<^verbatim>\<open>tx_counter\<close>, the thread structures, the condition variables of every receiving
  thread (\<open>False\<close>: a null pointer), which lthreads have reached their loop, and the condition each
  counting lthread has read.
\<close>

record 'r launch =
  lp_pc :: spawner_pc
  lp_rx_counter :: int
  lp_tx_counter :: int
  lp_rx :: "nat \<Rightarrow> 'r rx_conf"
  lp_tx :: "nat \<Rightarrow> 'r tx_conf"
  lp_ready :: "nat \<Rightarrow> bool list"
  lp_entered :: "lt_fun \<Rightarrow> bool"
  lp_seen :: "nat \<Rightarrow> bool option"
  lp_log :: "(lt_fun \<times> lt_call) list"

fun creations :: "(lt_fun \<times> lt_call) list \<Rightarrow> lt_fun list" where
  "creations [] = []"
| "creations ((f, Lthread_create core g) # l) = g # creations l"
| "creations ((f, c) # l) = creations l"

lemma creations_append [simp]: "creations (xs @ ys) = creations xs @ creations ys"
  by (induction xs rule: creations.induct) auto

text \<open>
  \<^verbatim>\<open>lthread_spawner\<close>, a turn of which is one round of the loop it is in. Core -1 is the core of the
  caller. The final loop waits for threads that never end.
\<close>

definition spawner_turn :: "u16 \<Rightarrow> u16 \<Rightarrow> 'r launch \<Rightarrow> 'r launch" where
  "spawner_turn n_rx n_tx s =
     (case lp_pc s of
        Make_rx i \<Rightarrow>
          if i < unat n_rx then
            s\<lparr>lp_rx := (lp_rx s)(i := (lp_rx s i)\<lparr>rx_tc := (rx_tc (lp_rx s i))\<lparr>tc_thread := of_nat i\<rparr>\<rparr>),
              lp_log := lp_log s @ [(Spawner, Lthread_create (-1) (Rx_thread i))], lp_pc := Make_rx (i + 1)\<rparr>
          else s\<lparr>lp_pc := Wait_rx\<rparr>
      | Wait_rx \<Rightarrow>
          if lp_rx_counter s < int (unat n_rx) then s\<lparr>lp_log := lp_log s @ [(Spawner, Lthread_sleep 100000)]\<rparr>
          else s\<lparr>lp_pc := Make_tx 0\<rparr>
      | Make_tx i \<Rightarrow>
          if i < unat n_tx then
            s\<lparr>lp_tx := (lp_tx s)(i := (lp_tx s i)\<lparr>tx_tc := (tx_tc (lp_tx s i))\<lparr>tc_thread := of_nat i\<rparr>\<rparr>),
              lp_log := lp_log s @ [(Spawner, Lthread_create (-1) (Tx_thread i))], lp_pc := Make_tx (i + 1)\<rparr>
          else s\<lparr>lp_pc := Join_all\<rparr>
      | Join_all \<Rightarrow> s)"

text \<open>\<^verbatim>\<open>lthread_rx\<close> up to its loop.\<close>

definition rx_enter :: "nat \<Rightarrow> 'r launch \<Rightarrow> fw_error + 'r launch" where
  "rx_enter i s =
     (let s = s\<lparr>lp_log := lp_log s @ [(Rx_thread i, Lthread_set_affinity (tc_lcore (rx_tc (lp_rx s i))))]\<rparr>
      in sbind (lt_init_ready (n_rx_queue (lp_rx s i)) (lp_ready s i)) (\<lambda>r.
         Inr (s\<lparr>lp_ready := (lp_ready s)(i := r), lp_rx_counter := lp_rx_counter s + 1,
                lp_entered := (lp_entered s)(Rx_thread i := True)\<rparr>)))"

text \<open>\<^verbatim>\<open>lthread_tx\<close> up to its loop, in which it only sleeps.\<close>

definition tx_enter :: "nat \<Rightarrow> 'r launch \<Rightarrow> 'r launch" where
  "tx_enter j s =
     (let core = tc_lcore (tx_tc (lp_tx s j))
      in s\<lparr>lp_log := lp_log s @ [(Tx_thread j, Lthread_set_affinity core),
                                  (Tx_thread j, Lthread_create (int (unat core)) (Tx_per_ring j))],
           lp_entered := (lp_entered s)(Tx_thread j := True)\<rparr>)"

text \<open>
  \<^verbatim>\<open>lthread_tx_per_ring\<close> up to its loop. \<open>cond_of j\<close> is the place \<^verbatim>\<open>tx_conf->ready\<close> points to: a receiving
  thread and an index of its condition variables. The variable is read once, here.
\<close>

definition ring_enter :: "(nat \<Rightarrow> nat \<times> nat) \<Rightarrow> nat \<Rightarrow> 'r launch \<Rightarrow> fw_error + 'r launch" where
  "ring_enter cond_of j s =
     (let (rx, k) = cond_of j in
      if k < length (lp_ready s rx) then
        Inr (s\<lparr>lp_seen := (lp_seen s)(j := Some (lp_ready s rx ! k)),
               lp_log := lp_log s @ [(Tx_per_ring j, Lthread_set_affinity (tc_lcore (tx_tc (lp_tx s j))))],
               lp_tx_counter := lp_tx_counter s + 1, lp_entered := (lp_entered s)(Tx_per_ring j := True)\<rparr>)
      else Inl (Undefined ''ready index out of range''))"

text \<open>
  \<^verbatim>\<open>init_rx_rings\<close> sets \<^verbatim>\<open>tx_conf->ready\<close> to the condition with the number of rings its receiving thread
  has so far.
\<close>

definition lt_cond_of :: "(nat \<Rightarrow> 'r tx_conf) \<Rightarrow> nat \<Rightarrow> nat \<times> nat" where
  "lt_cond_of tx j = (let rx = unat (tc_thread (tx_tc (tx j)))
     in (rx, length (filter (\<lambda>k. unat (tc_thread (tx_tc (tx k))) = rx) [0..<j])))"

text \<open>A turn of an lthread that does not exist, or has reached its loop, changes nothing here.\<close>

definition lthread_turn :: "u16 \<Rightarrow> u16 \<Rightarrow> (nat \<Rightarrow> nat \<times> nat) \<Rightarrow> lt_fun \<Rightarrow> 'r launch \<Rightarrow> fw_error + 'r launch" where
  "lthread_turn n_rx n_tx cond_of f s =
     (if f = Spawner then Inr (spawner_turn n_rx n_tx s)
      else if f \<notin> set (creations (lp_log s)) \<or> lp_entered s f then Inr s
      else case f of
             Rx_thread i \<Rightarrow> rx_enter i s
           | Tx_thread j \<Rightarrow> Inr (tx_enter j s)
           | Tx_per_ring j \<Rightarrow> ring_enter cond_of j s)"

definition launch_start :: "nat \<Rightarrow> ('r, 't) lt_boot \<Rightarrow> 'r launch" where
  "launch_start max_lcore b = \<lparr>lp_pc = Make_rx 0, lp_rx_counter = 0, lp_tx_counter = 0, lp_rx = lb_rx b, lp_tx = lb_tx b,
     lp_ready = (\<lambda>_. replicate max_lcore False), lp_entered = (\<lambda>_. False), lp_seen = Map.empty, lp_log = []\<rparr>"

section \<open>The invariant\<close>

text \<open>The lthreads the spawner has created so far.\<close>

fun rx_made :: "nat \<Rightarrow> spawner_pc \<Rightarrow> nat" where
  "rx_made n (Make_rx i) = i"
| "rx_made n pc = n"

fun tx_made :: "nat \<Rightarrow> spawner_pc \<Rightarrow> nat" where
  "tx_made n (Make_tx j) = j"
| "tx_made n Join_all = n"
| "tx_made n pc = 0"

fun after_wait :: "spawner_pc \<Rightarrow> bool" where
  "after_wait (Make_tx j) = True"
| "after_wait Join_all = True"
| "after_wait pc = False"

definition made :: "nat \<Rightarrow> nat \<Rightarrow> 'r launch \<Rightarrow> lt_fun \<Rightarrow> bool" where
  "made N T s f = (case f of
     Spawner \<Rightarrow> False
   | Rx_thread i \<Rightarrow> i < rx_made N (lp_pc s)
   | Tx_thread j \<Rightarrow> j < tx_made T (lp_pc s)
   | Tx_per_ring j \<Rightarrow> lp_entered s (Tx_thread j))"

text \<open>The core an lthread is configured for.\<close>

definition core_of :: "(nat \<Rightarrow> 'r rx_conf) \<Rightarrow> (nat \<Rightarrow> 'r tx_conf) \<Rightarrow> lt_fun \<Rightarrow> u16" where
  "core_of rx tx f = (case f of
     Spawner \<Rightarrow> 0
   | Rx_thread i \<Rightarrow> tc_lcore (rx_tc (rx i))
   | Tx_thread j \<Rightarrow> tc_lcore (tx_tc (tx j))
   | Tx_per_ring j \<Rightarrow> tc_lcore (tx_tc (tx j)))"

text \<open>The condition variables of receiving thread \<open>i\<close>, of \<open>R\<close> in the array, once it has started.\<close>

definition conditions :: "nat \<Rightarrow> (nat \<Rightarrow> 'r rx_conf) \<Rightarrow> nat \<Rightarrow> bool list" where
  "conditions R rx i = map (\<lambda>k. k < unat (n_rx_queue (rx i))) [0..<R]"

definition launch_inv ::
  "nat \<Rightarrow> nat \<Rightarrow> (nat \<Rightarrow> nat \<times> nat) \<Rightarrow> nat \<Rightarrow> (nat \<Rightarrow> 'r rx_conf) \<Rightarrow> (nat \<Rightarrow> 'r tx_conf) \<Rightarrow> 'r launch \<Rightarrow> bool"
where
  "launch_inv N T cond_of R rx tx s \<longleftrightarrow>
     rx_made N (lp_pc s) \<le> N \<and> tx_made T (lp_pc s) \<le> T \<and>
     distinct (creations (lp_log s)) \<and> (\<forall>f. f \<in> set (creations (lp_log s)) \<longleftrightarrow> made N T s f) \<and>
     (\<forall>f. lp_entered s f \<longrightarrow> made N T s f) \<and>
     lp_rx_counter s = int (card {i. lp_entered s (Rx_thread i)}) \<and>
     (after_wait (lp_pc s) \<longrightarrow> (\<forall>i < N. lp_entered s (Rx_thread i))) \<and>
     (\<forall>i. n_rx_queue (lp_rx s i) = n_rx_queue (rx i)) \<and>
     (\<forall>f. core_of (lp_rx s) (lp_tx s) f = core_of rx tx f) \<and>
     (\<forall>i. lp_ready s i = (if lp_entered s (Rx_thread i) then conditions R rx i else replicate R False)) \<and>
     (\<forall>j. lp_seen s j = (if lp_entered s (Tx_per_ring j)
        then Some (conditions R rx (fst (cond_of j)) ! snd (cond_of j) \<and> fst (cond_of j) < N) else None)) \<and>
     (\<forall>f. lp_entered s f \<longrightarrow> (f, Lthread_set_affinity (core_of rx tx f)) \<in> set (lp_log s))"

lemma launch_inv_start:
  "launch_inv N T cond_of R (lb_rx b) (lb_tx b) (launch_start R b)"
  by (auto simp: launch_inv_def launch_start_def made_def split: lt_fun.split)

lemma spawner_inv:
  assumes inv: "launch_inv (unat n_rx) (unat n_tx) cond_of R rx tx s"
  shows "launch_inv (unat n_rx) (unat n_tx) cond_of R rx tx (spawner_turn n_rx n_tx s)"
proof (cases "lp_pc s")
  case (Make_rx i)
  show ?thesis
  proof (cases "i < unat n_rx")
    case True
    then have "spawner_turn n_rx n_tx s =
      s\<lparr>lp_rx := (lp_rx s)(i := (lp_rx s i)\<lparr>rx_tc := (rx_tc (lp_rx s i))\<lparr>tc_thread := of_nat i\<rparr>\<rparr>),
        lp_log := lp_log s @ [(Spawner, Lthread_create (-1) (Rx_thread i))], lp_pc := Make_rx (i + 1)\<rparr>"
      by (simp add: spawner_turn_def Make_rx)
    then show ?thesis using inv Make_rx True unfolding launch_inv_def
      by (auto simp: made_def core_of_def less_Suc_eq split: lt_fun.splits)
  next
    case False
    then show ?thesis using inv Make_rx unfolding launch_inv_def
      by (auto simp: spawner_turn_def made_def split: lt_fun.splits)
  qed
next
  case Wait_rx
  show ?thesis
  proof (cases "lp_rx_counter s < int (unat n_rx)")
    case True
    then show ?thesis using inv Wait_rx unfolding launch_inv_def
      by (auto simp: spawner_turn_def made_def split: lt_fun.splits)
  next
    case False
    have sub: "{i. lp_entered s (Rx_thread i)} \<subseteq> {..<unat n_rx}"
      using inv Wait_rx unfolding launch_inv_def made_def by fastforce
    have "lp_rx_counter s = int (card {i. lp_entered s (Rx_thread i)})"
      using inv by (simp only: launch_inv_def)
    with False have "unat n_rx \<le> card {i. lp_entered s (Rx_thread i)}" by linarith
    then have "{i. lp_entered s (Rx_thread i)} = {..<unat n_rx}"
      using sub by (intro card_subset_eq) (auto dest: card_mono [OF finite_lessThan])
    then have all: "\<forall>i < unat n_rx. lp_entered s (Rx_thread i)" by blast
    have "spawner_turn n_rx n_tx s = s\<lparr>lp_pc := Make_tx 0\<rparr>" using False Wait_rx by (simp add: spawner_turn_def)
    then show ?thesis using inv Wait_rx all unfolding launch_inv_def
      by (auto simp: made_def split: lt_fun.splits)
  qed
next
  case (Make_tx i)
  show ?thesis
  proof (cases "i < unat n_tx")
    case True
    then have "spawner_turn n_rx n_tx s =
      s\<lparr>lp_tx := (lp_tx s)(i := (lp_tx s i)\<lparr>tx_tc := (tx_tc (lp_tx s i))\<lparr>tc_thread := of_nat i\<rparr>\<rparr>),
        lp_log := lp_log s @ [(Spawner, Lthread_create (-1) (Tx_thread i))], lp_pc := Make_tx (i + 1)\<rparr>"
      by (simp add: spawner_turn_def Make_tx)
    then show ?thesis using inv Make_tx True unfolding launch_inv_def
      by (auto simp: made_def core_of_def less_Suc_eq split: lt_fun.splits)
  next
    case False
    then show ?thesis using inv Make_tx unfolding launch_inv_def
      by (auto simp: spawner_turn_def made_def split: lt_fun.splits)
  qed
next
  case Join_all
  then show ?thesis using inv by (simp add: spawner_turn_def)
qed

lemma init_ready_all:
  assumes "unat nq \<le> length r"
  shows "lt_init_ready nq r = Inr (map (\<lambda>k. k < unat nq \<or> r ! k) [0..<length r])"
proof -
  have "run (\<lambda>i r. if i < length r then Inr (r[i := True]) else Inl (Undefined ''ready index out of range'')) [0..<n] r
      = Inr (map (\<lambda>k. k < n \<or> r ! k) [0..<length r])" if "n \<le> length r" for n
    using that
  proof (induction n)
    case 0
    show ?case by (simp add: map_nth)
  next
    case (Suc n)
    then have "(map (\<lambda>k. k < n \<or> r ! k) [0..<length r])[n := True] = map (\<lambda>k. k < Suc n \<or> r ! k) [0..<length r]"
      by (intro nth_equalityI) (auto simp: nth_list_update less_Suc_eq)
    with Suc show ?case by (simp add: run_append)
  qed
  with assms show ?thesis by (simp add: lt_init_ready_def)
qed

text \<open>No counting lthread has read a condition while a receiving thread has not started.\<close>

lemma rx_before_rings:
  assumes "launch_inv N T cond_of R rx tx s" and "made N T s (Rx_thread i)" and "\<not> lp_entered s (Rx_thread i)"
  shows "\<not> lp_entered s (Tx_per_ring j)" "\<not> lp_entered s (Tx_thread j)"
proof -
  have "i < N" using assms(1,2) unfolding launch_inv_def made_def by auto
  then have "\<not> after_wait (lp_pc s)" using assms(1,3) unfolding launch_inv_def by blast
  then have "tx_made T (lp_pc s) = 0" by (cases "lp_pc s") simp_all
  then show "\<not> lp_entered s (Tx_thread j)" using assms(1) unfolding launch_inv_def made_def by fastforce
  then show "\<not> lp_entered s (Tx_per_ring j)" using assms(1) unfolding launch_inv_def made_def by fastforce
qed

lemma entered_below:
  assumes "launch_inv N T cond_of R rx tx s" and "lp_entered s (Rx_thread i)"
  shows "i < N"
proof -
  have "made N T s (Rx_thread i)" "rx_made N (lp_pc s) \<le> N" using assms unfolding launch_inv_def by blast+
  then show ?thesis by (simp add: made_def)
qed

lemma core_unchanged:
  assumes "launch_inv N T cond_of R rx tx s"
  shows "core_of (lp_rx s) (lp_tx s) f = core_of rx tx f"
  using assms unfolding launch_inv_def by blast

lemma rx_enter_inv:
  assumes inv: "launch_inv N T cond_of R rx tx s" and m: "made N T s (Rx_thread i)" "\<not> lp_entered s (Rx_thread i)"
    and room: "unat (n_rx_queue (rx i)) \<le> R"
  shows "\<exists>s'. rx_enter i s = Inr s' \<and> launch_inv N T cond_of R rx tx s' \<and> lp_pc s' = lp_pc s \<and>
    lp_entered s' = (lp_entered s)(Rx_thread i := True)"
proof -
  have r: "lp_ready s i = replicate R False" "n_rx_queue (lp_rx s i) = n_rx_queue (rx i)"
    using inv m(2) unfolding launch_inv_def by simp_all
  note core = core_unchanged [OF inv, of "Rx_thread i"]
  have fin: "finite {i. lp_entered s (Rx_thread i)}"
    by (rule finite_subset [of _ "{..<N}"]) (use entered_below [OF inv] in auto)
  have "lt_init_ready (n_rx_queue (rx i)) (replicate R False) = Inr (conditions R rx i)"
    using init_ready_all [of "n_rx_queue (rx i)" "replicate R False"] room by (simp add: conditions_def cong: map_cong)
  then obtain s' where s': "rx_enter i s = Inr s'"
    "s' = s\<lparr>lp_log := lp_log s @ [(Rx_thread i, Lthread_set_affinity (core_of rx tx (Rx_thread i)))],
        lp_ready := (lp_ready s)(i := conditions R rx i), lp_rx_counter := lp_rx_counter s + 1,
        lp_entered := (lp_entered s)(Rx_thread i := True)\<rparr>"
    using r core by (simp add: rx_enter_def Let_def core_of_def)
  have "{k. k \<noteq> i \<longrightarrow> lp_entered s (Rx_thread k)} = insert i {k. lp_entered s (Rx_thread k)}" by auto
  then have "card {k. k \<noteq> i \<longrightarrow> lp_entered s (Rx_thread k)} = card {k. lp_entered s (Rx_thread k)} + 1"
    using fin m(2) by simp
  then have "launch_inv N T cond_of R rx tx s'"
    using inv m rx_before_rings [OF inv m] unfolding launch_inv_def s'(2)
    by (auto simp: made_def split: lt_fun.splits)
  with s' show ?thesis by simp
qed

lemma tx_enter_inv:
  assumes inv: "launch_inv N T cond_of R rx tx s" and m: "made N T s (Tx_thread j)" "\<not> lp_entered s (Tx_thread j)"
  shows "launch_inv N T cond_of R rx tx (tx_enter j s) \<and> lp_pc (tx_enter j s) = lp_pc s \<and>
    lp_entered (tx_enter j s) = (lp_entered s)(Tx_thread j := True)"
proof -
  have core: "tc_lcore (tx_tc (lp_tx s j)) = core_of rx tx (Tx_thread j)"
    using core_unchanged [OF inv, of "Tx_thread j"] by (simp add: core_of_def)
  have new: "Tx_per_ring j \<notin> set (creations (lp_log s))" using inv m(2) unfolding launch_inv_def made_def by simp
  let ?s = "s\<lparr>lp_log := lp_log s @ [(Tx_thread j, Lthread_set_affinity (core_of rx tx (Tx_thread j))),
                  (Tx_thread j, Lthread_create (int (unat (core_of rx tx (Tx_thread j)))) (Tx_per_ring j))],
           lp_entered := (lp_entered s)(Tx_thread j := True)\<rparr>"
  have "tx_enter j s = ?s" using core by (simp add: tx_enter_def Let_def)
  moreover have "launch_inv N T cond_of R rx tx ?s"
    using inv m new unfolding launch_inv_def by (auto simp: made_def split: lt_fun.splits)
  ultimately show ?thesis by simp
qed

lemma ring_enter_inv:
  assumes inv: "launch_inv N T cond_of R rx tx s" and m: "made N T s (Tx_per_ring j)" "\<not> lp_entered s (Tx_per_ring j)"
    and k: "snd (cond_of j) < R"
  shows "\<exists>s'. ring_enter cond_of j s = Inr s' \<and> launch_inv N T cond_of R rx tx s' \<and> lp_pc s' = lp_pc s \<and>
    lp_entered s' = (lp_entered s)(Tx_per_ring j := True)"
proof -
  obtain x k where c: "cond_of j = (x, k)" by (cases "cond_of j")
  have "j < tx_made T (lp_pc s)" using inv m(1) unfolding launch_inv_def made_def by auto
  then have "after_wait (lp_pc s)" by (cases "lp_pc s") simp_all
  then have all: "\<forall>i < N. lp_entered s (Rx_thread i)" using inv unfolding launch_inv_def by blast
  moreover have "\<not> lp_entered s (Rx_thread i)" if "\<not> i < N" for i
    using entered_below [OF inv] that by blast
  ultimately have r: "lp_ready s x = (if x < N then conditions R rx x else replicate R False)"
    using inv unfolding launch_inv_def by metis
  have len: "k < length (lp_ready s x)" using k c by (simp add: r conditions_def)
  have val: "lp_ready s x ! k \<longleftrightarrow> conditions R rx x ! k \<and> x < N" using k c by (auto simp: r)
  have core: "tc_lcore (tx_tc (lp_tx s j)) = core_of rx tx (Tx_per_ring j)"
    using core_unchanged [OF inv, of "Tx_per_ring j"] by (simp add: core_of_def)
  let ?s = "s\<lparr>lp_seen := (lp_seen s)(j := Some (conditions R rx x ! k \<and> x < N)),
      lp_log := lp_log s @ [(Tx_per_ring j, Lthread_set_affinity (core_of rx tx (Tx_per_ring j)))],
      lp_tx_counter := lp_tx_counter s + 1, lp_entered := (lp_entered s)(Tx_per_ring j := True)\<rparr>"
  have "ring_enter cond_of j s = Inr ?s" using len core val by (simp add: ring_enter_def c)
  moreover have "launch_inv N T cond_of R rx tx ?s"
    using inv m unfolding launch_inv_def by (auto simp: made_def c split: lt_fun.splits)
  ultimately show ?thesis by auto
qed

section \<open>Any order of turns\<close>

text \<open>The configuration fits the arrays: \<open>R\<close> condition variables per receiving thread.\<close>

definition launch_fits :: "nat \<Rightarrow> nat \<Rightarrow> (nat \<Rightarrow> nat \<times> nat) \<Rightarrow> nat \<Rightarrow> (nat \<Rightarrow> 'r rx_conf) \<Rightarrow> bool" where
  "launch_fits N T cond_of R rx \<longleftrightarrow>
     (\<forall>i < N. unat (n_rx_queue (rx i)) \<le> R) \<and> (\<forall>j < T. snd (cond_of j) < R)"

fun pc_rank :: "nat \<Rightarrow> nat \<Rightarrow> spawner_pc \<Rightarrow> nat" where
  "pc_rank N T (Make_rx i) = i"
| "pc_rank N T Wait_rx = N + 1"
| "pc_rank N T (Make_tx j) = N + 3 + j"
| "pc_rank N T Join_all = N + T + 4"

lemma spawner_rank:
  assumes "rx_made (unat n_rx) (lp_pc s) \<le> unat n_rx" "tx_made (unat n_tx) (lp_pc s) \<le> unat n_tx"
  shows "lp_entered (spawner_turn n_rx n_tx s) = lp_entered s"
    and "lp_pc (spawner_turn n_rx n_tx s) = lp_pc s \<and>
        (lp_pc s = Join_all \<or> lp_pc s = Wait_rx \<and> lp_rx_counter s < int (unat n_rx)) \<or>
      pc_rank (unat n_rx) (unat n_tx) (lp_pc s) < pc_rank (unat n_rx) (unat n_tx) (lp_pc (spawner_turn n_rx n_tx s))"
  using assms by (auto simp: spawner_turn_def split: spawner_pc.splits)

lemma turn_effect:
  assumes inv: "launch_inv (unat n_rx) (unat n_tx) cond_of R rx tx s"
    and fits: "launch_fits (unat n_rx) (unat n_tx) cond_of R rx"
  shows "\<exists>s'. lthread_turn n_rx n_tx cond_of f s = Inr s' \<and> launch_inv (unat n_rx) (unat n_tx) cond_of R rx tx s' \<and>
    (\<forall>g. lp_entered s g \<longrightarrow> lp_entered s' g) \<and>
    (made (unat n_rx) (unat n_tx) s f \<longrightarrow> lp_entered s' f) \<and>
    (lp_pc s' = lp_pc s \<and> (f = Spawner \<longrightarrow>
        lp_pc s = Join_all \<or> lp_pc s = Wait_rx \<and> lp_rx_counter s < int (unat n_rx)) \<or>
      pc_rank (unat n_rx) (unat n_tx) (lp_pc s) < pc_rank (unat n_rx) (unat n_tx) (lp_pc s'))"
proof (cases "f = Spawner")
  case True
  have b: "rx_made (unat n_rx) (lp_pc s) \<le> unat n_rx" "tx_made (unat n_tx) (lp_pc s) \<le> unat n_tx"
    using inv unfolding launch_inv_def by blast+
  show ?thesis
    using spawner_inv [OF inv] spawner_rank [OF b] True
    by (intro exI [of _ "spawner_turn n_rx n_tx s"]) (simp add: lthread_turn_def made_def)
next
  case f: False
  have made: "f \<in> set (creations (lp_log s)) \<longleftrightarrow> made (unat n_rx) (unat n_tx) s f"
    using inv unfolding launch_inv_def by blast
  show ?thesis
  proof (cases "made (unat n_rx) (unat n_tx) s f \<and> \<not> lp_entered s f")
    case False
    then have "lthread_turn n_rx n_tx cond_of f s = Inr s" using f made by (auto simp: lthread_turn_def)
    then show ?thesis using inv f False by auto
  next
    case m: True
    show ?thesis
    proof (cases f)
      case Spawner
      then show ?thesis using f by simp
    next
      case (Rx_thread i)
      have "rx_made (unat n_rx) (lp_pc s) \<le> unat n_rx" using inv unfolding launch_inv_def by blast
      then have "i < unat n_rx" using m Rx_thread by (simp add: made_def)
      then have "unat (n_rx_queue (rx i)) \<le> R" using fits by (simp add: launch_fits_def)
      from rx_enter_inv [OF inv _ _ this] m Rx_thread made show ?thesis by (auto simp: lthread_turn_def)
    next
      case (Tx_thread j)
      then show ?thesis using tx_enter_inv [OF inv, of j] m made by (auto simp: lthread_turn_def)
    next
      case (Tx_per_ring j)
      have "lp_entered s (Tx_thread j)" using m Tx_per_ring by (simp add: made_def)
      then have "made (unat n_rx) (unat n_tx) s (Tx_thread j)" "tx_made (unat n_tx) (lp_pc s) \<le> unat n_tx"
        using inv unfolding launch_inv_def by blast+
      then have "snd (cond_of j) < R" using fits by (simp add: launch_fits_def made_def)
      from ring_enter_inv [OF inv _ _ this] m Tx_per_ring made show ?thesis by (auto simp: lthread_turn_def)
    qed
  qed
qed

text \<open>A sequence of turns: the lthreads of the start are entered at its end, and the spawner goes on.\<close>

lemma made_mono:
  assumes "launch_inv N T cond_of R rx tx s" "launch_inv N T cond_of R rx tx s'"
    and "\<forall>g. lp_entered s g \<longrightarrow> lp_entered s' g" "pc_rank N T (lp_pc s) \<le> pc_rank N T (lp_pc s')" "made N T s f"
  shows "made N T s' f"
proof -
  have "rx_made N (lp_pc s) \<le> N" "tx_made T (lp_pc s) \<le> T" "rx_made N (lp_pc s') \<le> N" "tx_made T (lp_pc s') \<le> T"
    using assms(1,2) unfolding launch_inv_def by blast+
  with assms(3-5) show ?thesis
    by (cases "lp_pc s"; cases "lp_pc s'"; cases f) (auto simp: made_def)
qed

lemma turns_effect:
  assumes fits: "launch_fits (unat n_rx) (unat n_tx) cond_of R rx"
    and "launch_inv (unat n_rx) (unat n_tx) cond_of R rx tx s"
  shows "\<exists>s'. run (lthread_turn n_rx n_tx cond_of) fs s = Inr s' \<and> launch_inv (unat n_rx) (unat n_tx) cond_of R rx tx s' \<and>
    (\<forall>g. lp_entered s g \<longrightarrow> lp_entered s' g) \<and>
    (\<forall>f \<in> set fs. made (unat n_rx) (unat n_tx) s f \<longrightarrow> lp_entered s' f) \<and>
    (lp_pc s' = lp_pc s \<and> (Spawner \<in> set fs \<longrightarrow>
        lp_pc s = Join_all \<or> lp_pc s = Wait_rx \<and> \<not> (\<forall>i < unat n_rx. lp_entered s (Rx_thread i))) \<or>
      pc_rank (unat n_rx) (unat n_tx) (lp_pc s) < pc_rank (unat n_rx) (unat n_tx) (lp_pc s'))"
  using assms(2)
proof (induction fs arbitrary: s)
  case Nil
  then show ?case by simp
next
  case (Cons f fs)
  obtain u where u: "lthread_turn n_rx n_tx cond_of f s = Inr u" "launch_inv (unat n_rx) (unat n_tx) cond_of R rx tx u"
    "\<forall>g. lp_entered s g \<longrightarrow> lp_entered u g" "made (unat n_rx) (unat n_tx) s f \<longrightarrow> lp_entered u f"
    "lp_pc u = lp_pc s \<and> (f = Spawner \<longrightarrow>
        lp_pc s = Join_all \<or> lp_pc s = Wait_rx \<and> lp_rx_counter s < int (unat n_rx)) \<or>
      pc_rank (unat n_rx) (unat n_tx) (lp_pc s) < pc_rank (unat n_rx) (unat n_tx) (lp_pc u)"
    using turn_effect [OF Cons.prems fits, of f] by blast
  obtain s' where s': "run (lthread_turn n_rx n_tx cond_of) fs u = Inr s'" "launch_inv (unat n_rx) (unat n_tx) cond_of R rx tx s'"
    "\<forall>g. lp_entered u g \<longrightarrow> lp_entered s' g" "\<forall>f \<in> set fs. made (unat n_rx) (unat n_tx) u f \<longrightarrow> lp_entered s' f"
    "lp_pc s' = lp_pc u \<and> (Spawner \<in> set fs \<longrightarrow>
        lp_pc u = Join_all \<or> lp_pc u = Wait_rx \<and> \<not> (\<forall>i < unat n_rx. lp_entered u (Rx_thread i))) \<or>
      pc_rank (unat n_rx) (unat n_tx) (lp_pc u) < pc_rank (unat n_rx) (unat n_tx) (lp_pc s')"
    using Cons.IH [OF u(2)] by blast
  have le: "pc_rank (unat n_rx) (unat n_tx) (lp_pc s) \<le> pc_rank (unat n_rx) (unat n_tx) (lp_pc u)" using u(5) by auto
  have m: "made (unat n_rx) (unat n_tx) u g" if "made (unat n_rx) (unat n_tx) s g" for g
    by (rule made_mono [OF Cons.prems u(2,3) le that])
  have not_all: "\<not> (\<forall>i < unat n_rx. lp_entered s (Rx_thread i))" if "lp_rx_counter s < int (unat n_rx)"
  proof
    assume "\<forall>i < unat n_rx. lp_entered s (Rx_thread i)"
    then have "{i. lp_entered s (Rx_thread i)} = {..<unat n_rx}" using entered_below [OF Cons.prems] by blast
    moreover have "lp_rx_counter s = int (card {i. lp_entered s (Rx_thread i)})"
      using Cons.prems by (simp only: launch_inv_def)
    ultimately show False using that by simp
  qed
  have "run (lthread_turn n_rx n_tx cond_of) (f # fs) s = Inr s'" using u(1) s'(1) by simp
  moreover have "\<forall>g \<in> set (f # fs). made (unat n_rx) (unat n_tx) s g \<longrightarrow> lp_entered s' g"
    using u(4) s'(3,4) m by auto
  moreover have "lp_pc s' = lp_pc s \<and> (Spawner \<in> set (f # fs) \<longrightarrow>
        lp_pc s = Join_all \<or> lp_pc s = Wait_rx \<and> \<not> (\<forall>i < unat n_rx. lp_entered s (Rx_thread i))) \<or>
      pc_rank (unat n_rx) (unat n_tx) (lp_pc s) < pc_rank (unat n_rx) (unat n_tx) (lp_pc s')"
    using u(3,5) s'(5) not_all by auto
  ultimately show ?case using s'(2,3) u(3) by blast
qed

section \<open>Rounds\<close>

text \<open>All lthreads, and how far a state is: a round of turns of all of them brings it further.\<close>

definition all_threads :: "nat \<Rightarrow> nat \<Rightarrow> lt_fun list" where
  "all_threads N T = map Rx_thread [0..<N] @ map Tx_thread [0..<T] @ map Tx_per_ring [0..<T]"

definition all_entered :: "(nat \<Rightarrow> lt_fun) \<Rightarrow> nat \<Rightarrow> 'r launch \<Rightarrow> bool" where
  "all_entered F n s \<longleftrightarrow> (\<forall>i < n. lp_entered s (F i))"

definition launch_rank :: "nat \<Rightarrow> nat \<Rightarrow> 'r launch \<Rightarrow> nat" where
  "launch_rank N T s = pc_rank N T (lp_pc s) +
     (case lp_pc s of
        Wait_rx \<Rightarrow> of_bool (all_entered Rx_thread N s)
      | Join_all \<Rightarrow> of_bool (all_entered Tx_thread T s)
          + of_bool (all_entered Tx_thread T s \<and> all_entered Tx_per_ring T s)
      | _ \<Rightarrow> 0)"

lemma rank_limit:
  assumes "launch_inv N T cond_of R rx tx s"
  shows "launch_rank N T s \<le> N + T + 6"
    and "launch_rank N T s = N + T + 6 \<Longrightarrow>
      lp_pc s = Join_all \<and> all_entered Tx_thread T s \<and> all_entered Tx_per_ring T s"
proof -
  have b: "rx_made N (lp_pc s) \<le> N" "tx_made T (lp_pc s) \<le> T" using assms unfolding launch_inv_def by blast+
  then show "launch_rank N T s \<le> N + T + 6" by (cases "lp_pc s") (simp_all add: launch_rank_def)
  show "lp_pc s = Join_all \<and> all_entered Tx_thread T s \<and> all_entered Tx_per_ring T s"
    if r: "launch_rank N T s = N + T + 6"
  proof (cases "lp_pc s")
    case Join_all
    with r show ?thesis
      by (cases "all_entered Tx_thread T s"; cases "all_entered Tx_per_ring T s") (simp_all add: launch_rank_def)
  next
    case Wait_rx
    with r show ?thesis by (cases "all_entered Rx_thread N s") (simp_all add: launch_rank_def)
  qed (use b r in \<open>simp_all add: launch_rank_def\<close>)
qed

lemma round_effect:
  assumes fits: "launch_fits (unat n_rx) (unat n_tx) cond_of R rx"
    and inv: "launch_inv (unat n_rx) (unat n_tx) cond_of R rx tx s"
    and round: "set (Spawner # all_threads (unat n_rx) (unat n_tx)) \<subseteq> set fs"
  shows "\<exists>s'. run (lthread_turn n_rx n_tx cond_of) fs s = Inr s' \<and> launch_inv (unat n_rx) (unat n_tx) cond_of R rx tx s' \<and>
    min (launch_rank (unat n_rx) (unat n_tx) s + 1) (unat n_rx + unat n_tx + 6) \<le> launch_rank (unat n_rx) (unat n_tx) s'"
proof -
  let ?N = "unat n_rx" and ?T = "unat n_tx"
  obtain s' where s': "run (lthread_turn n_rx n_tx cond_of) fs s = Inr s'" "launch_inv ?N ?T cond_of R rx tx s'"
    and mono: "\<forall>g. lp_entered s g \<longrightarrow> lp_entered s' g"
    and enter: "\<forall>f \<in> set fs. made ?N ?T s f \<longrightarrow> lp_entered s' f"
    and pc: "lp_pc s' = lp_pc s \<and> (Spawner \<in> set fs \<longrightarrow>
        lp_pc s = Join_all \<or> lp_pc s = Wait_rx \<and> \<not> (\<forall>i < ?N. lp_entered s (Rx_thread i))) \<or>
      pc_rank ?N ?T (lp_pc s) < pc_rank ?N ?T (lp_pc s')"
    using turns_effect [OF fits inv, of fs] by blast
  have fs: "Spawner \<in> set fs" "i < ?N \<Longrightarrow> Rx_thread i \<in> set fs" "i < ?T \<Longrightarrow> Tx_thread i \<in> set fs"
    "i < ?T \<Longrightarrow> Tx_per_ring i \<in> set fs" for i
    using round by (auto simp: all_threads_def)
  have b: "rx_made ?N (lp_pc s) \<le> ?N" "tx_made ?T (lp_pc s) \<le> ?T" "rx_made ?N (lp_pc s') \<le> ?N" "tx_made ?T (lp_pc s') \<le> ?T"
    using inv s'(2) unfolding launch_inv_def by blast+
  have "min (launch_rank ?N ?T s + 1) (?N + ?T + 6) \<le> launch_rank ?N ?T s'"
  proof (cases "pc_rank ?N ?T (lp_pc s) < pc_rank ?N ?T (lp_pc s')")
    case True
    with b show ?thesis by (cases "lp_pc s"; cases "lp_pc s'") (auto simp: launch_rank_def)
  next
    case False
    with pc fs(1) have same: "lp_pc s' = lp_pc s"
      and "lp_pc s = Join_all \<or> lp_pc s = Wait_rx \<and> \<not> all_entered Rx_thread ?N s"
      by (auto simp: all_entered_def)
    then show ?thesis
    proof (elim disjE conjE)
      assume wait: "lp_pc s = Wait_rx" "\<not> all_entered Rx_thread ?N s"
      have "made ?N ?T s (Rx_thread i)" if "i < ?N" for i using wait(1) that by (simp add: made_def)
      then have "all_entered Rx_thread ?N s'" using enter fs(2) by (simp add: all_entered_def)
      with wait same show ?thesis by (simp add: launch_rank_def)
    next
      assume join: "lp_pc s = Join_all"
      have "made ?N ?T s (Tx_thread j)" if "j < ?T" for j using join that by (simp add: made_def)
      then have tx: "all_entered Tx_thread ?T s'" using enter fs(3) by (simp add: all_entered_def)
      have ring: "all_entered Tx_per_ring ?T s'" if "all_entered Tx_thread ?T s"
        using that enter fs(4) by (simp add: all_entered_def made_def)
      show ?thesis
        using join same tx ring by (cases "all_entered Tx_thread ?T s") (simp_all add: launch_rank_def)
    qed
  qed
  with s' show ?thesis by blast
qed

lemma rounds_effect:
  assumes fits: "launch_fits (unat n_rx) (unat n_tx) cond_of R rx"
    and inv: "launch_inv (unat n_rx) (unat n_tx) cond_of R rx tx s"
    and rounds: "\<forall>fs \<in> set rs. set (Spawner # all_threads (unat n_rx) (unat n_tx)) \<subseteq> set fs"
  shows "\<exists>s'. run (lthread_turn n_rx n_tx cond_of) (concat rs) s = Inr s' \<and>
    launch_inv (unat n_rx) (unat n_tx) cond_of R rx tx s' \<and>
    min (launch_rank (unat n_rx) (unat n_tx) s + length rs) (unat n_rx + unat n_tx + 6) \<le> launch_rank (unat n_rx) (unat n_tx) s'"
  using inv rounds
proof (induction rs arbitrary: s)
  case Nil
  then show ?case by simp
next
  case (Cons fs rs)
  have fs: "set (Spawner # all_threads (unat n_rx) (unat n_tx)) \<subseteq> set fs" using Cons.prems(2) by simp
  obtain u where u: "run (lthread_turn n_rx n_tx cond_of) fs s = Inr u" "launch_inv (unat n_rx) (unat n_tx) cond_of R rx tx u"
    "min (launch_rank (unat n_rx) (unat n_tx) s + 1) (unat n_rx + unat n_tx + 6) \<le> launch_rank (unat n_rx) (unat n_tx) u"
    using round_effect [OF fits Cons.prems(1) fs] by blast
  obtain s' where s': "run (lthread_turn n_rx n_tx cond_of) (concat rs) u = Inr s'"
    "launch_inv (unat n_rx) (unat n_tx) cond_of R rx tx s'"
    "min (launch_rank (unat n_rx) (unat n_tx) u + length rs) (unat n_rx + unat n_tx + 6) \<le> launch_rank (unat n_rx) (unat n_tx) s'"
    using Cons.IH [OF u(2)] Cons.prems(2) by auto
  have "min (launch_rank (unat n_rx) (unat n_tx) s + length (fs # rs)) (unat n_rx + unat n_tx + 6)
      \<le> launch_rank (unat n_rx) (unat n_tx) s'"
    using u(3) s'(3) by (simp add: min_def split: if_splits)
  with u(1) s'(1,2) show ?case by (simp add: run_append)
qed

section \<open>Properties\<close>

text \<open>
  C9: In whatever order the lthreads of the L-thread version run while they are launched, no step fails,
  no lthread is created twice, a counting thread is only created when all receiving threads have
  set up their condition variables, and so every counting thread reads its condition after it got its final
  value: null exactly if the receiving thread does not exist or has too few queues.
\<close>

theorem launch_order:
  assumes "launch_fits (unat (lb_n_rx b)) (unat (lb_n_tx b)) (lt_cond_of (lb_tx b)) R (lb_rx b)"
  shows "\<exists>s. run (lthread_turn (lb_n_rx b) (lb_n_tx b) (lt_cond_of (lb_tx b))) fs (launch_start R b) = Inr s \<and>
    distinct (creations (lp_log s)) \<and>
    (\<forall>j. Tx_thread j \<in> set (creations (lp_log s)) \<longrightarrow> (\<forall>i < unat (lb_n_rx b). lp_entered s (Rx_thread i))) \<and>
    (\<forall>j < unat (lb_n_tx b). lp_seen s j \<noteq> None \<longrightarrow> lp_seen s j =
       Some (snd (lt_cond_of (lb_tx b) j) < unat (n_rx_queue (lb_rx b (fst (lt_cond_of (lb_tx b) j)))) \<and>
             fst (lt_cond_of (lb_tx b) j) < unat (lb_n_rx b)))"
proof -
  let ?N = "unat (lb_n_rx b)" and ?T = "unat (lb_n_tx b)" and ?c = "lt_cond_of (lb_tx b)"
  obtain s where s: "run (lthread_turn (lb_n_rx b) (lb_n_tx b) ?c) fs (launch_start R b) = Inr s"
    and inv: "launch_inv ?N ?T ?c R (lb_rx b) (lb_tx b) s"
    using turns_effect [OF assms launch_inv_start, of fs] by blast
  have made: "\<And>f. f \<in> set (creations (lp_log s)) \<longleftrightarrow> made ?N ?T s f"
    and wait: "after_wait (lp_pc s) \<Longrightarrow> \<forall>i < ?N. lp_entered s (Rx_thread i)"
    and seen: "\<And>j. lp_seen s j = (if lp_entered s (Tx_per_ring j)
        then Some (conditions R (lb_rx b) (fst (?c j)) ! snd (?c j) \<and> fst (?c j) < ?N) else None)"
    and dist: "distinct (creations (lp_log s))"
    using inv unfolding launch_inv_def by blast+
  have "lp_entered s (Rx_thread i)" if "Tx_thread j \<in> set (creations (lp_log s))" "i < ?N" for i j
  proof -
    have "j < tx_made ?T (lp_pc s)" using that(1) made by (simp add: made_def)
    then have "after_wait (lp_pc s)" by (cases "lp_pc s") simp_all
    with wait that(2) show ?thesis by blast
  qed
  moreover have "lp_seen s j = Some (snd (?c j) < unat (n_rx_queue (lb_rx b (fst (?c j)))) \<and> fst (?c j) < ?N)"
    if "j < ?T" "lp_seen s j \<noteq> None" for j
  proof -
    have "snd (?c j) < R" using assms that(1) by (simp add: launch_fits_def)
    then show ?thesis using seen [of j] that(2) by (auto simp: conditions_def split: if_splits)
  qed
  ultimately show ?thesis
    by (intro exI [of _ s] conjI allI impI s dist) blast+
qed

text \<open>An example: a receiving thread with one queue and two counting threads, all turns in one order.\<close>

definition ex_launch :: "(nat, unit) lt_boot" where
  "ex_launch = \<lparr>lb_app = lt_app_default, lb_n_rx = 1,
     lb_rx = (\<lambda>_. \<lparr>rx_tc = \<lparr>tc_lcore = 2, tc_cpu = 0, tc_thread = 0\<rparr>, n_rx_queue = 1,
        rx_queue_list = [(0, 0)], n_ring = 2, rx_ring = [Some 0, Some 1]\<rparr>),
     lb_n_tx = 2,
     lb_tx = (\<lambda>j. \<lparr>tx_tc = \<lparr>tc_lcore = of_nat (j + 3), tc_cpu = 0, tc_thread = 0\<rparr>, tx_ring = Some j\<rparr>),
     lb_log = [], lb_flows = ()\<rparr>"

definition ex_round :: "lt_fun list" where
  "ex_round = [Tx_per_ring 1, Tx_per_ring 0, Tx_thread 0, Tx_thread 1, Rx_thread 0, Spawner]"

lemma ex_launch_facts:
  "lb_n_rx ex_launch = 1" "lb_n_tx ex_launch = 2" "lt_cond_of (lb_tx ex_launch) j = (0, j)"
  "n_rx_queue (lb_rx ex_launch i) = 1"
  "launch_fits (unat (lb_n_rx ex_launch)) (unat (lb_n_tx ex_launch)) (lt_cond_of (lb_tx ex_launch)) 128 (lb_rx ex_launch)"
  by (simp_all add: ex_launch_def lt_cond_of_def launch_fits_def)

theorem launch_order_witness:
  "\<exists>s. run (lthread_turn 1 2 (lt_cond_of (lb_tx ex_launch))) (ex_round @ ex_round @ ex_round) (launch_start 128 ex_launch) = Inr s \<and>
    distinct (creations (lp_log s)) \<and>
    (\<forall>j. Tx_thread j \<in> set (creations (lp_log s)) \<longrightarrow> (\<forall>i < unat (1 :: u16). lp_entered s (Rx_thread i))) \<and>
    (\<forall>j < unat (2 :: u16). lp_seen s j \<noteq> None \<longrightarrow> lp_seen s j = Some (j < unat (1 :: u16) \<and> 0 < unat (1 :: u16)))"
  using launch_order [OF ex_launch_facts(5), of "ex_round @ ex_round @ ex_round"]
  unfolding ex_launch_facts fst_conv snd_conv .

text \<open>
  C30: The launch ends: after as many rounds as there are threads and six more, a round being any
  sequence of turns in which every lthread has one, the spawner waits for the end, exactly the
  configured lthreads have been created, each of them once, and each has moved to its core and reached
  its loop.
\<close>

theorem launch_completes:
  assumes "launch_fits (unat (lb_n_rx b)) (unat (lb_n_tx b)) (lt_cond_of (lb_tx b)) R (lb_rx b)"
    and "\<forall>fs \<in> set rs. set (Spawner # all_threads (unat (lb_n_rx b)) (unat (lb_n_tx b))) \<subseteq> set fs"
    and "unat (lb_n_rx b) + unat (lb_n_tx b) + 6 \<le> length rs"
  shows "\<exists>s. run (lthread_turn (lb_n_rx b) (lb_n_tx b) (lt_cond_of (lb_tx b))) (concat rs) (launch_start R b) = Inr s \<and>
    lp_pc s = Join_all \<and> lp_rx_counter s = int (unat (lb_n_rx b)) \<and>
    mset (creations (lp_log s)) = mset (all_threads (unat (lb_n_rx b)) (unat (lb_n_tx b))) \<and>
    (\<forall>f \<in> set (all_threads (unat (lb_n_rx b)) (unat (lb_n_tx b))). lp_entered s f \<and>
       (f, Lthread_set_affinity (core_of (lb_rx b) (lb_tx b) f)) \<in> set (lp_log s))"
proof -
  let ?N = "unat (lb_n_rx b)" and ?T = "unat (lb_n_tx b)" and ?c = "lt_cond_of (lb_tx b)"
  obtain s where s: "run (lthread_turn (lb_n_rx b) (lb_n_tx b) ?c) (concat rs) (launch_start R b) = Inr s"
    and inv: "launch_inv ?N ?T ?c R (lb_rx b) (lb_tx b) s"
    and rank: "min (launch_rank ?N ?T (launch_start R b) + length rs) (?N + ?T + 6) \<le> launch_rank ?N ?T s"
    using rounds_effect [OF assms(1) launch_inv_start assms(2)] by blast
  have "launch_rank ?N ?T s = ?N + ?T + 6"
    using rank assms(3) rank_limit(1) [OF inv] by (simp add: min_def split: if_splits)
  note fin = rank_limit(2) [OF inv this]
  have made: "\<And>f. f \<in> set (creations (lp_log s)) \<longleftrightarrow> made ?N ?T s f"
    and entered: "\<And>f. lp_entered s f \<Longrightarrow> made ?N ?T s f"
    and wait: "after_wait (lp_pc s) \<longrightarrow> (\<forall>i < ?N. lp_entered s (Rx_thread i))"
    and core: "\<And>f. lp_entered s f \<Longrightarrow> (f, Lthread_set_affinity (core_of (lb_rx b) (lb_tx b) f)) \<in> set (lp_log s)"
    and dist: "distinct (creations (lp_log s))"
    and ctr: "lp_rx_counter s = int (card {i. lp_entered s (Rx_thread i)})"
    using inv unfolding launch_inv_def by blast+
  have rx: "\<forall>i < ?N. lp_entered s (Rx_thread i)" using wait fin by simp
  then have all: "lp_entered s f" if "f \<in> set (all_threads ?N ?T)" for f
    using that fin by (auto simp: all_threads_def all_entered_def)
  have "made ?N ?T s f \<longleftrightarrow> f \<in> set (all_threads ?N ?T)" for f
  proof
    assume "made ?N ?T s f"
    moreover have "j < ?T" if "lp_entered s (Tx_thread j)" for j
      using entered [OF that] fin by (simp add: made_def)
    ultimately show "f \<in> set (all_threads ?N ?T)"
      using fin by (cases f) (auto simp: made_def all_threads_def)
  qed (rule entered, rule all)
  then have "set (creations (lp_log s)) = set (all_threads ?N ?T)" using made by blast
  moreover have "distinct (all_threads ?N ?T)" by (auto simp: all_threads_def distinct_map inj_on_def)
  ultimately have "mset (creations (lp_log s)) = mset (all_threads ?N ?T)"
    using dist by (simp add: set_eq_iff_mset_eq_distinct)
  moreover have "{i. lp_entered s (Rx_thread i)} = {..<?N}" using rx entered_below [OF inv] by blast
  ultimately show ?thesis using s ctr fin all core by simp
qed

theorem launch_completes_witness:
  "\<exists>s. run (lthread_turn 1 2 (lt_cond_of (lb_tx ex_launch))) (concat (replicate 9 ex_round)) (launch_start 128 ex_launch) = Inr s \<and>
    lp_pc s = Join_all \<and> lp_rx_counter s = int (unat (1 :: u16)) \<and>
    mset (creations (lp_log s)) = mset (all_threads (unat (1 :: u16)) (unat (2 :: u16))) \<and>
    (\<forall>f \<in> set (all_threads (unat (1 :: u16)) (unat (2 :: u16))). lp_entered s f \<and>
       (f, Lthread_set_affinity (core_of (lb_rx ex_launch) (lb_tx ex_launch) f)) \<in> set (lp_log s))"
proof -
  have "\<forall>fs \<in> set (replicate 9 ex_round). set (Spawner # all_threads (unat (lb_n_rx ex_launch)) (unat (lb_n_tx ex_launch))) \<subseteq> set fs"
    by (simp add: ex_launch_facts ex_round_def all_threads_def upt_rec)
  moreover have "unat (lb_n_rx ex_launch) + unat (lb_n_tx ex_launch) + 6 \<le> length (replicate 9 ex_round)"
    by (simp add: ex_launch_facts)
  ultimately show ?thesis
    using launch_completes [OF ex_launch_facts(5)] unfolding ex_launch_facts(1,2) by blast
qed

end
