(* ===== verification/Ipg_Mean.thy ===== *)
theory Ipg_Mean
  imports Double_Hash_Correct
begin

text \<open>
  The mean inter-packet gap the three \<^verbatim>\<open>DOUBLE_HASH\<close> builds keep for the flows of a bucket,
  compared with the gaps between the flow's packets. The comparison is made in exact arithmetic,
  where the running update of the mean loses nothing.
\<close>

section \<open>The gaps of a flow\<close>

text \<open>
  A flow is the list of the values \<^verbatim>\<open>global\<close> had when its packets were processed. The gaps are the
  numbers of packets of other flows between two of them. The mean the code keeps counts as a
  further gap the packets before the flow's first one, because the position of that packet is
  never stored; it is zero while there is only one packet.
\<close>

fun gap_list :: "nat list \<Rightarrow> int list" where
  "gap_list (g # h # gs) = (int h - 1 - int g) # gap_list (h # gs)"
| "gap_list gs = []"

definition flow_mean :: "nat list \<Rightarrow> real" where
  "flow_mean gs =
     (if length gs \<le> 1 then 0
      else real_of_int (int (hd gs) + sum_list (gap_list gs)) / real (length gs))"

lemma sum_gap_list: "gs \<noteq> [] \<Longrightarrow> sum_list (gap_list gs) = int (last gs) - int (hd gs) - (int (length gs) - 1)"
  by (induction gs rule: gap_list.induct) auto

lemma flow_mean_closed:
  "1 < length gs \<Longrightarrow> flow_mean gs = (real (last gs) - (real (length gs) - 1)) / real (length gs)"
  using sum_gap_list [of gs] by (cases gs) (simp_all add: flow_mean_def del: gap_list.simps)

section \<open>One slot\<close>

text \<open>The tag of a slot, its counter, the position of its last packet and its mean.\<close>

type_synonym 'w mslot = "u16 \<times> 'w word \<times> u64 \<times> real"

fun mean_hit :: "u64 \<Rightarrow> ('w::len) mslot \<Rightarrow> 'w mslot" where
  "mean_hit g (k, n, p, a) =
     (k, n + 1, g, (a * real (unat n) + real_of_int (sint (gap g p))) / real (unat (n + 1)))"

fun mean_step :: "u64 \<Rightarrow> u16 \<Rightarrow> ('w::len) mslot \<times> 'w mslot \<Rightarrow> 'w mslot \<times> 'w mslot" where
  "mean_step g k (s, t) =
     (if fst s = 0 then ((k, fst (snd s) + 1, 0, 0), t)
      else if fst t = 0 \<and> fst s \<noteq> k then (s, (k, fst (snd t) + 1, 0, 0))
      else if fst s = k then (mean_hit g s, t)
      else if fst t = k then (s, mean_hit g t)
      else (s, t))"

fun mean_ok :: "nat list \<Rightarrow> ('w::len) mslot \<Rightarrow> bool" where
  "mean_ok gs (k, n, p, a) \<longleftrightarrow> gs \<noteq> [] \<and> n = of_nat (length gs) \<and>
     p = (if length gs = 1 then 0 else of_nat (last gs)) \<and> a = flow_mean gs"

lemma mean_ok_hit:
  fixes s :: "('w::len) mslot"
  assumes "mean_ok gs s" and "length gs + 1 < 2 ^ LENGTH('w)" and "\<forall>x \<in> set gs. x < 2 ^ 62" and "unat g < 2 ^ 62"
  shows "mean_ok (gs @ [unat g]) (mean_hit g s)"
proof -
  obtain k n p a where s: "s = (k, n, p, a)" by (cases s)
  have ok: "gs \<noteq> []" "n = of_nat (length gs)" "p = (if length gs = 1 then 0 else of_nat (last gs))" "a = flow_mean gs"
    using assms(1) by (simp_all add: s)
  have l: "0 < length gs" using ok(1) by simp
  have n: "unat n = length gs" "unat (n + 1) = length gs + 1"
  proof -
    show "unat n = length gs" unfolding ok(2) by (rule unat_of_nat_small) (use assms(2) in simp)
    have "n + 1 = of_nat (length gs + 1)" by (simp add: ok(2))
    then show "unat (n + 1) = length gs + 1" by (simp only:) (rule unat_of_nat_small [OF assms(2)])
  qed
  have q: "unat p = (if length gs = 1 then 0 else last gs)"
  proof -
    have "last gs < 2 ^ 62" using assms(3) ok(1) by simp
    then have "unat (of_nat (last gs) :: u64) = last gs" by (intro unat_of_nat_small) simp
    then show ?thesis by (simp add: ok(3))
  qed
  have "unat p < 2 ^ 62" using q assms(3) ok(1) by simp
  then have cur: "sint (gap g p) = int (unat g) - 1 - int (unat p)" by (rule sint_gap [OF assms(4)])
  have "(a * real (length gs) + real_of_int (sint (gap g p))) / (real (length gs) + 1) = flow_mean (gs @ [unat g])"
  proof (cases "length gs = 1")
    case True
    then have "a = 0" "unat p = 0" by (simp_all add: ok(4) q flow_mean_def)
    with True show ?thesis by (simp add: cur flow_mean_closed)
  next
    case False
    with l have "1 < length gs" by linarith
    then have "flow_mean gs = (real (last gs) - (real (length gs) - 1)) / real (length gs)"
      "flow_mean (gs @ [unat g]) = (real (unat g) - real (length gs)) / (real (length gs) + 1)"
      by (simp add: flow_mean_closed) (use flow_mean_closed [of "gs @ [unat g]"] l in simp)
    then show ?thesis using False l by (simp add: ok(4) q cur)
  qed
  moreover have "mean_hit g s = (k, n + 1, g,
      (a * real (length gs) + real_of_int (sint (gap g p))) / (real (length gs) + 1))"
    unfolding s mean_hit.simps n by simp
  ultimately show ?thesis using ok(1) by (simp add: ok(2) add.commute)
qed

lemma fst_mean_hit [simp]: "fst (mean_hit g s) = fst s"
  by (cases s) simp

fun slot_free :: "('w::len) mslot \<Rightarrow> bool" where
  "slot_free (k, n, p, a) \<longleftrightarrow> k = 0 \<and> n = 0 \<and> p = 0"

lemma mean_ok_first: "slot_free s \<Longrightarrow> mean_ok [g] (k, fst (snd s) + 1, 0, 0)"
  by (cases s) (simp add: flow_mean_def)

lemma mean_ok_mean: "mean_ok gs s \<Longrightarrow> snd (snd (snd s)) = flow_mean gs"
  by (cases s) simp

lemma slot_free_tag: "slot_free s \<Longrightarrow> fst s = 0"
  by (cases s) simp

declare mean_ok.simps [simp del] mean_hit.simps [simp del] slot_free.simps [simp del]

section \<open>One bucket\<close>

text \<open>The values of \<^verbatim>\<open>global\<close> at the packets with tag \<open>k\<close>.\<close>

definition tag_stamps :: "u16 \<Rightarrow> event list \<Rightarrow> nat list" where
  "tag_stamps k es = map (\<lambda>e. unat (fst e)) (filter (\<lambda>e. tag e = k) es)"

lemma tag_stamps_simps [simp]:
  "tag_stamps k [] = []"
  "tag_stamps k [e] = (if tag e = k then [unat (fst e)] else [])"
  "tag_stamps k (es @ [e]) = (if tag e = k then tag_stamps k es @ [unat (fst e)] else tag_stamps k es)"
  by (simp_all add: tag_stamps_def)

lemma length_tag_stamps: "length (tag_stamps k es) \<le> length es"
  by (simp add: tag_stamps_def)

fun bucket_means :: "event list \<Rightarrow> ('w::len) mslot \<times> 'w mslot \<Rightarrow> bool" where
  "bucket_means es (s, t) \<longleftrightarrow>
     (if fst s = 0 then es = [] \<and> slot_free s \<and> slot_free t
      else mean_ok (tag_stamps (fst s) es) s \<and>
        (if fst t = 0 then slot_free t \<and> (\<forall>e \<in> set es. tag e = fst s)
         else fst t \<noteq> fst s \<and> mean_ok (tag_stamps (fst t) es) t))"

lemma fresh_stamps: "(\<And>e. e \<in> set es \<Longrightarrow> tag e \<noteq> k) \<Longrightarrow> tag_stamps k es = []"
  by (auto simp: tag_stamps_def filter_empty_conv)

lemma bucket_means_step:
  fixes s t :: "('w::len) mslot"
  assumes b: "bucket_means es (s, t)" and "length es + 1 < 2 ^ LENGTH('w)"
    and small: "\<forall>e \<in> set (es @ [e]). unat (fst e) < 2 ^ 62" and "tag e \<noteq> 0"
  shows "bucket_means (es @ [e]) (mean_step (fst e) (tag e) (s, t))"
proof -
  have hit: "mean_ok (tag_stamps k es @ [unat (fst e)]) (mean_hit (fst e) u)"
    if "mean_ok (tag_stamps k es) u" for k and u :: "'w mslot"
  proof (rule mean_ok_hit [OF that])
    show "length (tag_stamps k es) + 1 < 2 ^ LENGTH('w)" using length_tag_stamps [of k es] assms(2) by linarith
  qed (use small in \<open>auto simp: tag_stamps_def\<close>)
  consider "fst s = 0" | "fst s \<noteq> 0" "fst t = 0" "fst s \<noteq> tag e" | "fst s \<noteq> 0" "fst s = tag e"
    | "fst s \<noteq> 0" "fst t \<noteq> 0" "fst s \<noteq> tag e" by blast
  then show ?thesis
  proof cases
    case 1
    then show ?thesis using b assms(4) mean_ok_first [of s] slot_free_tag [of t] by simp
  next
    case 2
    then have "tag_stamps (tag e) es = []" using b by (intro fresh_stamps) auto
    then show ?thesis using b 2 assms(4) mean_ok_first [of t] by auto
  next
    case 3
    then show ?thesis using b hit [of "fst s" s] by auto
  next
    case 4
    then show ?thesis using b hit [of "fst t" t] by auto
  qed
qed

section \<open>The contract of the versions\<close>

text \<open>
  \<open>means\<close> reads the statistics of the two slots of a bucket, \<open>shaped\<close> says that its arrays have the
  declared lengths. A slot that has not been taken holds position zero.
\<close>

fun untouched :: "('w::len) mslot \<times> 'w mslot \<Rightarrow> bool" where
  "untouched (s, t) \<longleftrightarrow> (fst s = 0 \<longrightarrow> slot_free s) \<and> (fst t = 0 \<longrightarrow> slot_free t)"

lemma bucket_means_untouched: "bucket_means es s \<Longrightarrow> untouched s"
  by (cases s) (auto split: if_splits)

locale mean_slots =
  fixes upd :: "event \<Rightarrow> 'b \<Rightarrow> fw_error + 'b"
    and means :: "'b \<Rightarrow> ('w::len) mslot \<times> 'w mslot"
    and shaped :: "'b \<Rightarrow> bool"
  assumes step_means: "shaped b \<Longrightarrow> untouched (means b) \<Longrightarrow> upd e b = Inr b' \<Longrightarrow>
      means b' = mean_step (fst e) (tag e) (means b) \<and> shaped b'"
begin

lemma run_means:
  assumes "run upd es b = Inr b'" and "shaped b" and "bucket_means [] (means b)"
    and "length es < 2 ^ LENGTH('w)" and "\<forall>e \<in> set es. unat (fst e) < 2 ^ 62 \<and> tag e \<noteq> 0"
  shows "shaped b' \<and> bucket_means es (means b')"
  using assms(1,4,5)
proof (induction es arbitrary: b' rule: rev_induct)
  case Nil
  with assms(2,3) show ?case by simp
next
  case (snoc e es)
  from snoc.prems(1) obtain u where u: "run upd es b = Inr u" "run upd [e] u = Inr b'" by (rule run_appendE)
  then have e: "upd e u = Inr b'" by (simp split: sum.splits)
  have IH: "shaped u \<and> bucket_means es (means u)" using snoc.IH [OF u(1)] snoc.prems by simp
  then have "means b' = mean_step (fst e) (tag e) (means u) \<and> shaped b'"
    using step_means [OF _ bucket_means_untouched e] by blast
  moreover have "bucket_means (es @ [e]) (mean_step (fst e) (tag e) (means u))"
    by (cases "means u", simp only:, rule bucket_means_step) (use IH snoc.prems in auto)
  ultimately show ?case using IH by simp
qed

text \<open>Table-wide: the mean of a flow with an entry is the mean over the positions of its packets.\<close>

lemma table_means:
  assumes r: "run (table_upd bucket_of upd) es t = Inr t'"
    and z: "\<forall>i < FLOW_NUM. shaped (t i) \<and> bucket_means [] (means (t i))"
    and small: "length es < 2 ^ LENGTH('w)" "\<forall>e \<in> set es. unat (fst e) < 2 ^ 62 \<and> tag e \<noteq> 0"
    and m: "means (t' (h_slot h)) = (u, v)" and k: "h_tag h \<noteq> 0"
  shows "h_tag h = fst u \<Longrightarrow> snd (snd (snd u)) = flow_mean (map (\<lambda>e. unat (fst e)) (filter (\<lambda>e. rss (snd e) = h) es))"
    and "h_tag h = fst v \<Longrightarrow> snd (snd (snd v)) = flow_mean (map (\<lambda>e. unat (fst e)) (filter (\<lambda>e. rss (snd e) = h) es))"
proof -
  let ?es = "filter (\<lambda>e. bucket_of e = h_slot h) es"
  have "bucket_means ?es (means (t' (h_slot h)))"
  proof (rule conjunct2 [OF run_means [OF run_table [OF r]]])
    show "shaped (t (h_slot h))" "bucket_means [] (means (t (h_slot h)))" using z by simp_all
    show "length ?es < 2 ^ LENGTH('w)" by (rule le_less_trans [OF length_filter_le small(1)])
  qed (use small(2) in simp)
  then have b: "fst u \<noteq> 0 \<longrightarrow> snd (snd (snd u)) = flow_mean (tag_stamps (fst u) ?es)"
    "fst v \<noteq> 0 \<longrightarrow> snd (snd (snd v)) = flow_mean (tag_stamps (fst v) ?es)"
    by (auto simp: m mean_ok_mean slot_free_tag split: if_splits)
  have "tag_stamps (h_tag h) ?es = map (\<lambda>e. unat (fst e)) (filter (\<lambda>e. rss (snd e) = h) es)"
    unfolding tag_stamps_def filter_filter
    by (intro arg_cong [of _ _ "map _"] filter_cong) (auto simp: tag_def bucket_of_def dest: h_split_inj)
  with b k show "h_tag h = fst u \<Longrightarrow> snd (snd (snd u)) = flow_mean (map (\<lambda>e. unat (fst e)) (filter (\<lambda>e. rss (snd e) = h) es))"
    and "h_tag h = fst v \<Longrightarrow> snd (snd (snd v)) = flow_mean (map (\<lambda>e. unat (fst e)) (filter (\<lambda>e. rss (snd e) = h) es))"
    by auto
qed

end

section \<open>The versions\<close>

definition slot_means :: "(('w::len) word, 'z) pkt_count_scheme \<Rightarrow> 'w mslot \<times> 'w mslot" where
  "slot_means b = ((hi_f1 b, ctr b ! 0, ipg b ! 0, avg b ! 0), (hi_f2 b, ctr b ! 1, ipg b ! 1, avg b ! 1))"

definition shaped :: "(('w::len) word, 'z) pkt_count_scheme \<Rightarrow> bool" where
  "shaped b \<longleftrightarrow> length (ctr b) = 3 \<and> length (ipg b) = 2 \<and> length (avg b) = 2"

text \<open>The builds with \<^verbatim>\<open>IPG\<close>, in exact arithmetic.\<close>

definition gap_cfg :: "bool \<Rightarrow> real \<Rightarrow> cfg" where
  "gap_cfg quantile p = \<lparr>c_ipg = True, c_quantile = quantile, c_p = p, c_fpu = exact_fpu\<rparr>"

lemma gap_cfg_simps [simp]:
  "c_ipg (gap_cfg q p)" "c_quantile (gap_cfg q p) = q" "c_p (gap_cfg q p) = p" "c_fpu (gap_cfg q p) = exact_fpu"
  by (simp_all add: gap_cfg_def)

lemma rtc_packet_means:
  assumes "shaped b" "untouched (slot_means b)" "unat h < 65536"
  shows "slot_means (rtc_dh_packet (gap_cfg q p) g h b) = mean_step g (ucast h) (slot_means b) \<and>
    shaped (rtc_dh_packet (gap_cfg q p) g h b)"
  using assms
  by (auto simp: rtc_dh_packet_def slot_means_def shaped_def ucast_tag_eq slot_free.simps mean_hit.simps
      mean_double_def mean_float_def mean_num_def nth_bump)

lemma pth_packet_means:
  assumes "shaped b" "untouched (slot_means b)" "unat h < 65536"
  shows "slot_means (pth_dh_packet (gap_cfg q p) g h b) = mean_step g (ucast h) (slot_means b) \<and>
    shaped (pth_dh_packet (gap_cfg q p) g h b)"
  using assms
  by (auto simp: pth_dh_packet_def slot_means_def shaped_def ucast_tag_eq slot_free.simps mean_hit.simps
      mean_float_def mean_num_def nth_bump Let_def)

lemma slot_hit_means:
  assumes "slot_hit (gap_cfg q p) g i b = Inr b'"
  shows "hi_f1 b' = hi_f1 b \<and> hi_f2 b' = hi_f2 b \<and> ctr b' = bump i (ctr b) \<and> ipg b' = (ipg b)[i := g] \<and>
    avg b' = (avg b)[i := mean_float exact_fpu (avg b ! i) (bump i (ctr b) ! i) (gap g (ipg b ! i))]"
  using assms by (auto simp: slot_hit_def Let_def sbind_Inr_iff split: if_splits)

lemma lt_packet_means:
  assumes "shaped b" "untouched (slot_means b)" "lt_packet (gap_cfg q p) g k b = Inr b'"
  shows "slot_means b' = mean_step g k (slot_means b) \<and> shaped b'"
proof -
  have hit0: "slot_means b' = (mean_hit g (fst (slot_means b)), snd (slot_means b)) \<and> shaped b'"
    if "slot_hit (gap_cfg q p) g 0 b = Inr b'"
    using slot_hit_means [OF that] assms(1)
    by (simp add: slot_means_def shaped_def mean_hit.simps mean_float_def mean_num_def nth_bump)
  have hit1: "slot_means b' = (fst (slot_means b), mean_hit g (snd (slot_means b))) \<and> shaped b'"
    if "slot_hit (gap_cfg q p) g 1 b = Inr b'"
    using slot_hit_means [OF that] assms(1)
    by (simp add: slot_means_def shaped_def mean_hit.simps mean_float_def mean_num_def nth_bump)
  have k: "fst (fst (slot_means b)) = hi_f1 b" "fst (snd (slot_means b)) = hi_f2 b"
    by (simp_all add: slot_means_def)
  show ?thesis
  proof (cases "hi_f1 b = 0 \<or> hi_f2 b = 0 \<and> hi_f1 b \<noteq> k \<or> hi_f1 b \<noteq> k \<and> hi_f2 b \<noteq> k")
    case True
    then show ?thesis using assms
      by (auto simp: lt_packet_def slot_means_def shaped_def nth_bump Let_def)
  next
    case False
    obtain s t where st: "slot_means b = (s, t)" by (cases "slot_means b")
    show ?thesis
    proof (cases "hi_f1 b = k")
      case True
      then have "lt_packet (gap_cfg q p) g k b = slot_hit (gap_cfg q p) g 0 b"
        using False by (simp add: lt_packet_def)
      moreover have "mean_step g k (s, t) = (mean_hit g s, t)" using False True k by (simp add: st)
      ultimately show ?thesis using hit0 assms(3) st by simp
    next
      case f: False
      then have "k \<noteq> 0" "hi_f1 b \<noteq> 0" using False by auto
      with f have "lt_packet (gap_cfg q p) g k b = slot_hit (gap_cfg q p) g 1 b"
        using False by (simp add: lt_packet_def)
      moreover have "mean_step g k (s, t) = (s, mean_hit g t)"
        using False f k \<open>k \<noteq> 0\<close> by (simp add: st)
      ultimately show ?thesis using hit1 assms(3) st by simp
    qed
  qed
qed

declare mean_step.simps [simp del] untouched.simps [simp del] bucket_means.simps [simp del]

lemma rtc_upd_means:
  assumes "shaped b" "untouched (slot_means b)" "rtc_dh_upd (gap_cfg q p) e b = Inr b'"
  shows "slot_means b' = mean_step (fst e) (tag e) (slot_means b) \<and> shaped b'"
  using assms rtc_packet_means [OF assms(1,2), of "rss_index_h (rss (snd e))" q p "fst e"]
  by (simp add: rtc_dh_upd_def tag_def h_tag_def)

lemma pth_upd_means:
  assumes "shaped b" "untouched (slot_means b)" "pth_dh_upd (gap_cfg q p) 16 e b = Inr b'"
  shows "slot_means b' = mean_step (fst e) (tag e) (slot_means b) \<and> shaped b'"
  using assms pth_packet_means [OF assms(1,2), of "rss_index_h (rss (snd e))" q p "fst e"]
  by (simp add: pth_dh_upd_def tag_def h_tag_def pth_index_h_16)

lemma lt_upd_means:
  assumes "shaped b" "untouched (slot_means b)" "lt_upd (gap_cfg q p) e b = Inr b'"
  shows "slot_means b' = mean_step (fst e) (tag e) (slot_means b) \<and> shaped b'"
  using lt_packet_means [OF assms(1,2)] assms(3) by (simp only: lt_upd_def tag_def h_tag_def)

interpretation rtc_mean: mean_slots "rtc_dh_upd (gap_cfg q p)" slot_means shaped for q p
  by unfold_locales (rule rtc_upd_means)

interpretation pth_mean: mean_slots "pth_dh_upd (gap_cfg q p) 16" slot_means shaped for q p
  by unfold_locales (rule pth_upd_means)

interpretation lt_mean: mean_slots "lt_upd (gap_cfg q p)" slot_means shaped for q p
  by unfold_locales (rule lt_upd_means)

section \<open>The value of global\<close>

text \<open>
  The packets of a sequence of bursts with the value \<^verbatim>\<open>global\<close> has for them: the number of packets
  received so far, which includes the current burst in the pthread and L-thread versions (\<open>incl\<close>)
  and does not in the run-to-completion version.
\<close>

fun stamped :: "bool \<Rightarrow> nat \<Rightarrow> (nat \<times> mbuf list) list \<Rightarrow> event list" where
  "stamped incl n [] = []"
| "stamped incl n ((q, bufs) # bs) =
     map (Pair (of_nat (if incl then n + length bufs else n))) bufs @ stamped incl (n + length bufs) bs"

lemma stamped_packets [simp]: "map snd (stamped incl n bs) = packets bs"
  by (induction incl n bs rule: stamped.induct) (simp_all add: comp_def)

lemma length_stamped: "length (stamped incl n bs) = length (packets bs)"
  by (metis length_map stamped_packets)

lemma stamped_small:
  assumes "n + length (packets bs) < 2 ^ 62" "e \<in> set (stamped incl n bs)"
  shows "unat (fst e) < 2 ^ 62"
  using assms
proof (induction incl n bs rule: stamped.induct)
  case 1
  then show ?case by simp
next
  case (2 incl n q bufs bs)
  have "unat (of_nat k :: u64) < 2 ^ 62" if "k < 2 ^ 62" for k
    using that by (subst unat_of_nat_small) simp_all
  with 2 show ?case by auto
qed

text \<open>A burst loop whose events carry the stamp \<open>stamp\<close> of the packets so far.\<close>

lemma run_stamped:
  assumes "\<And>q bufs s n s'. burst q bufs s = Inr s' \<Longrightarrow> I n s \<Longrightarrow>
      run (table_upd bucket_of upd) (map (Pair (of_nat (if incl then n + length bufs else n))) bufs) (tbl s) = Inr (tbl s') \<and>
      I (n + length bufs) s'"
    and "run (\<lambda>(q, bufs). burst q bufs) bs s = Inr s'" and "I n s"
  shows "run (table_upd bucket_of upd) (stamped incl n bs) (tbl s) = Inr (tbl s')"
  using assms(2,3)
proof (induction bs arbitrary: s n)
  case Nil
  then show ?case by simp
next
  case (Cons b bs)
  obtain q bufs where b: "b = (q, bufs)" by (cases b)
  from Cons.prems(1) obtain u where u: "burst q bufs s = Inr u" "run (\<lambda>(q, bufs). burst q bufs) bs u = Inr s'"
    unfolding b by (elim run_ConsE) auto
  note step = assms(1) [OF u(1) Cons.prems(2)]
  from Cons.IH [OF u(2)] step show ?case by (simp add: b run_append)
qed

lemma rtc_stamped:
  assumes "run (\<lambda>(q, bufs). rtc_double_hash (gap_cfg qu p) True q bufs) bs s = Inr s'" and "rings s = [0]"
  shows "run (table_upd bucket_of (rtc_dh_upd (gap_cfg qu p))) (stamped False 0 bs) (tbl s) = Inr (tbl s')"
proof (rule run_stamped [where I = "\<lambda>n s. rings s = [of_nat n]", OF _ assms(1)])
  fix q bufs s n and s' :: "u32 pkt_count mon_state"
  assume "rtc_double_hash (gap_cfg qu p) True q bufs s = Inr s'" "rings s = [of_nat n]"
  then show "run (table_upd bucket_of (rtc_dh_upd (gap_cfg qu p)))
      (map (Pair (of_nat (if False then n + length bufs else n))) bufs) (tbl s) = Inr (tbl s') \<and>
      rings s' = [of_nat (n + length bufs)]"
    by (auto simp: rtc_double_hash_def sbind_Inr_iff ring_total_def RTC_RX_RINGS_def ring_add_def
        split: if_splits dest!: rtc_run_one)
qed (simp add: assms(2))

lemma lt_stamped:
  assumes "run (\<lambda>(q, bufs). lt_tx_per_ring (gap_cfg qu p) n_rx q bufs) bs s = Inr s'" and "rings s = replicate n_rx 0"
  shows "run (table_upd bucket_of (lt_upd (gap_cfg qu p))) (stamped True 0 bs) (tbl s) = Inr (tbl s')"
proof (rule run_stamped [where I = "\<lambda>n s. length (rings s) = n_rx \<and> sum_list (rings s) = of_nat n", OF _ assms(1)])
  fix q bufs s n and s' :: "u32 pkt_count_qt mon_state"
  assume r: "lt_tx_per_ring (gap_cfg qu p) n_rx q bufs s = Inr s'"
    and I: "length (rings s) = n_rx \<and> sum_list (rings s) = of_nat n"
  show "run (table_upd bucket_of (lt_upd (gap_cfg qu p)))
      (map (Pair (of_nat (if True then n + length bufs else n))) bufs) (tbl s) = Inr (tbl s') \<and>
      length (rings s') = n_rx \<and> sum_list (rings s') = of_nat (n + length bufs)"
  proof (cases "bufs = []")
    case True
    with r I show ?thesis by (simp add: lt_tx_per_ring_def)
  next
    case False
    from r False obtain re g where re: "ring_add q (length bufs) (rings s) = Inr re"
      and g: "ring_total n_rx re = Inr g"
      and one: "run (lt_one (gap_cfg qu p)) bufs (s\<lparr>rings := re, glob := g\<rparr>) = Inr s'"
      by (auto simp: lt_tx_per_ring_def sbind_Inr_iff)
    have "length re = n_rx" using ring_addE [OF re] I by simp
    then have "g = sum_list re" using g ring_total_all [of re] by simp
    moreover have "sum_list re = of_nat (n + length bufs)" using ring_add_sum [OF re] I by simp
    ultimately show ?thesis using lt_run_one [OF one] \<open>length re = n_rx\<close> by simp
  qed
qed (simp add: assms(2) sum_list_replicate)

section \<open>The means of a run\<close>

text \<open>Every flow with an entry has the mean over the positions of its packets.\<close>

definition positions :: "u32 \<Rightarrow> event list \<Rightarrow> nat list" where
  "positions h es = map (\<lambda>e. unat (fst e)) (filter (\<lambda>e. rss (snd e) = h) es)"

definition flow_means :: "(nat \<Rightarrow> (('w::len) word, 'z) pkt_count_scheme) \<Rightarrow> event list \<Rightarrow> bool" where
  "flow_means t es \<longleftrightarrow> (\<forall>h. h_tag h \<noteq> 0 \<longrightarrow>
     (hi_f1 (t (h_slot h)) = h_tag h \<longrightarrow> avg (t (h_slot h)) ! 0 = flow_mean (positions h es)) \<and>
     (hi_f2 (t (h_slot h)) = h_tag h \<longrightarrow> avg (t (h_slot h)) ! 1 = flow_mean (positions h es)))"

lemma start_means:
  assumes "\<forall>i < FLOW_NUM. shaped (t i)" and "i < FLOW_NUM"
  shows "shaped (init_table (dh_init_bucket (gap_cfg q p)) t i)"
    and "bucket_means [] (slot_means (init_table (dh_init_bucket (gap_cfg q p)) t i))"
  using assms
  by (simp_all add: init_table_def dh_init_bucket_def shaped_def slot_means_def bucket_means.simps slot_free.simps)

text \<open>What a run over stamped events leaves, whatever the version.\<close>

context mean_slots
begin

lemma stamped_means:
  assumes r: "run (table_upd bucket_of upd) (stamped incl 0 bs) t = Inr t'"
    and z: "\<forall>i < FLOW_NUM. shaped (t i) \<and> bucket_means [] (means (t i))"
    and small: "length (packets bs) < 2 ^ LENGTH('w)" "length (packets bs) < 2 ^ 62"
    and tags: "\<forall>m \<in> set (packets bs). h_tag (rss m) \<noteq> 0"
    and m: "means (t' (h_slot h)) = (u, v)" and k: "h_tag h \<noteq> 0"
  shows "h_tag h = fst u \<Longrightarrow> snd (snd (snd u)) = flow_mean (positions h (stamped incl 0 bs))"
    and "h_tag h = fst v \<Longrightarrow> snd (snd (snd v)) = flow_mean (positions h (stamped incl 0 bs))"
proof -
  have "tag e \<noteq> 0" if "e \<in> set (stamped incl 0 bs)" for e
    using tags_valid [OF stamped_packets tags] that by blast
  then have e: "\<forall>e \<in> set (stamped incl 0 bs). unat (fst e) < 2 ^ 62 \<and> tag e \<noteq> 0"
    using stamped_small [of 0 bs _ incl] small(2) by simp
  have l: "length (stamped incl 0 bs) < 2 ^ LENGTH('w)" using small(1) by (simp add: length_stamped)
  from table_means [OF r z l e m k]
  show "h_tag h = fst u \<Longrightarrow> snd (snd (snd u)) = flow_mean (positions h (stamped incl 0 bs))"
    and "h_tag h = fst v \<Longrightarrow> snd (snd (snd v)) = flow_mean (positions h (stamped incl 0 bs))"
    by (simp_all add: positions_def)
qed

end

lemma rtc_run_means:
  assumes r: "run (\<lambda>(q, bufs). rtc_double_hash (gap_cfg qu p) True q bufs) bs s = Inr s'"
    and "rings s = [0]" and "length (packets bs) < 2 ^ 32"
    and "\<forall>i < FLOW_NUM. shaped (t i)" and "tbl s = init_table (dh_init_bucket (gap_cfg qu p)) t"
    and "\<forall>m \<in> set (packets bs). h_tag (rss m) \<noteq> 0"
  shows "flow_means (tbl s') (stamped False 0 bs)"
proof -
  note z = start_means [OF assms(4), of _ qu p, folded assms(5)]
  have small: "length (packets bs) < 2 ^ LENGTH(32)" "length (packets bs) < 2 ^ 62" using assms(3) by simp_all
  show ?thesis
    unfolding flow_means_def
    using rtc_mean.stamped_means [OF rtc_stamped [OF r assms(2)] _ small assms(6) slot_means_def] z by simp
qed



text \<open>
  The L-thread version keeps the same mean, with the positions counted after the current burst
  has been added to the counters.
\<close>

theorem lt_flow_means:
  assumes "rings s = replicate n_rx 0" and "unat (glob s) < 2 ^ 31"
    and "\<forall>b \<in> set bs. fst b < n_rx" and "length (packets bs) < 2 ^ 31"
    and "\<forall>i < FLOW_NUM. lt_zeroed (t i)" and "tbl s = init_table (lt_init_bucket (gap_cfg qu p)) t"
    and "\<forall>m \<in> set (packets bs). h_tag (rss m) \<noteq> 0"
  shows "\<exists>s'. run (\<lambda>(q, bufs). lt_tx_per_ring (gap_cfg qu p) n_rx q bufs) bs s = Inr s' \<and>
    flow_means (tbl s') (stamped True 0 bs)"
proof -
  obtain s' es where r: "run (\<lambda>(q, bufs). lt_tx_per_ring (gap_cfg qu p) n_rx q bufs) bs s = Inr s'"
    by (rule lt_start [of "gap_cfg qu p", OF _ assms(1-6)]) simp
  have z: "shaped (tbl s i) \<and> bucket_means [] (slot_means (tbl s i))" if "i < FLOW_NUM" for i
    using assms(5) that
    by (simp add: assms(6) init_table_def lt_init_bucket_def dh_init_bucket_def Let_def shaped_def slot_means_def
        bucket_means.simps slot_free.simps lt_zeroed_def)
  have small: "length (packets bs) < 2 ^ LENGTH(32)" "length (packets bs) < 2 ^ 62" using assms(4) by simp_all
  have "flow_means (tbl s') (stamped True 0 bs)"
    unfolding flow_means_def
    using lt_mean.stamped_means [OF lt_stamped [OF r assms(1)] _ small assms(7) slot_means_def] z by simp
  with r show ?thesis by blast
qed

theorem lt_flow_means_witness:
  "\<exists>s'. run (\<lambda>(q, bufs). lt_tx_per_ring (gap_cfg True (99 / 100)) 1 q bufs) ex_bursts
      (ex_state (init_table (lt_init_bucket (gap_cfg True (99 / 100))) (\<lambda>_. lt_zero))) = Inr s' \<and>
    flow_means (tbl s') (stamped True 0 ex_bursts)"
  by (rule lt_flow_means [where t = "\<lambda>_. lt_zero"])
    (use ex_bursts_facts in \<open>simp_all add: lt_zero_zeroed\<close>)

end
