(* ===== verification/Sched_Deadline.thy ===== *)
theory Sched_Deadline
  imports Quantile
begin

text \<open>
  The deadline scheduling of the builds with \<^verbatim>\<open>SD\<close>: \<^verbatim>\<open>set_affinity\<close> of \<^verbatim>\<open>sched_deadline_init.h\<close>, which the
  receiving threads of the pthread version call, and the same code at the head of \<^verbatim>\<open>hash_list\<close> in the
  run-to-completion version. The two system calls are parameters, functions of their arguments.
\<close>

section \<open>The attributes\<close>

record sched_attr =
  sa_size :: u32
  sched_policy :: u32
  sched_flags :: u64
  sched_nice :: u32
  sched_priority :: u32
  sched_runtime :: u64
  sched_deadline :: u64
  sched_period :: u64

definition SCHED_DEADLINE :: u32 where
  "SCHED_DEADLINE = 6"

text \<open>\<^verbatim>\<open>sizeof(struct sched_attr)\<close>: four members of four bytes and four of eight, without padding.\<close>

definition SIZEOF_SCHED_ATTR :: u32 where
  "SIZEOF_SCHED_ATTR = 48"

text \<open>A product of C \<^verbatim>\<open>int\<close>s, which is undefined when it does not fit.\<close>

definition c_int_mult :: "int \<Rightarrow> int \<Rightarrow> fw_error + int" where
  "c_int_mult a b = (if fits_int (a * b) then Inr (a * b) else Inl (Undefined ''int overflow''))"

section \<open>The calls\<close>

text \<open>
  The affinity is set to the cores of \<open>cores\<close>; then the attributes are filled in, each product is an
  \<^verbatim>\<open>int\<close> converted to 64 bits, and the call is made. \<open>Inr\<close> is a return, with the attributes the thread
  then has.
\<close>

definition deadline_start ::
  "(u64 \<Rightarrow> int) \<Rightarrow> (sched_attr \<Rightarrow> int) \<Rightarrow> u64 \<Rightarrow> int \<Rightarrow> int \<Rightarrow> fw_error + sched_attr"
where
  "deadline_start setaffinity setattr cores runtime period =
     (if setaffinity cores \<noteq> 0 then Inl (Exit_failure ''cannot set affinity'')
      else
        sbind (c_int_mult runtime 1000) (\<lambda>r.
        sbind (c_int_mult period 1000) (\<lambda>p.
        let attr = \<lparr>sa_size = SIZEOF_SCHED_ATTR, sched_policy = SCHED_DEADLINE, sched_flags = 0, sched_nice = 0,
              sched_priority = 0, sched_runtime = of_int r, sched_deadline = of_int p, sched_period = of_int p\<rparr>
        in if setattr attr < 0 then Inl (Exit_failure ''sched_setattr'') else Inr attr)))"

definition set_affinity :: "(u64 \<Rightarrow> int) \<Rightarrow> (sched_attr \<Rightarrow> int) \<Rightarrow> int \<Rightarrow> int \<Rightarrow> fw_error + sched_attr" where
  "set_affinity setaffinity setattr = deadline_start setaffinity setattr 0xFFFFFFFFFFFF"

text \<open>The two uses: at the head of \<^verbatim>\<open>lcore_main_rx\<close> and of the run-to-completion \<^verbatim>\<open>hash_list\<close>.\<close>

definition pth_sd_start :: "(u64 \<Rightarrow> int) \<Rightarrow> (sched_attr \<Rightarrow> int) \<Rightarrow> fw_error + sched_attr" where
  "pth_sd_start setaffinity setattr = set_affinity setaffinity setattr 13 20"

definition rtc_sd_start :: "(u64 \<Rightarrow> int) \<Rightarrow> (sched_attr \<Rightarrow> int) \<Rightarrow> fw_error + sched_attr" where
  "rtc_sd_start setaffinity setattr = deadline_start setaffinity setattr 0xFFFFFFFFFF 50 100"

section \<open>What a thread gets\<close>

text \<open>The kernel's admission rule for deadline threads: runtime at most deadline at most period, none zero.\<close>

definition admissible :: "sched_attr \<Rightarrow> bool" where
  "admissible a \<longleftrightarrow> sched_policy a = SCHED_DEADLINE \<and> 0 < sched_runtime a \<and>
     sched_runtime a \<le> sched_deadline a \<and> sched_deadline a \<le> sched_period a"

lemma of_int_le_u64:
  assumes "0 \<le> a" "a \<le> b" "b < 2 ^ 63"
  shows "(of_int a :: u64) \<le> of_int b" "unat (of_int a :: u64) = nat a"
proof -
  have "uint (of_int c :: u64) = c" if "0 \<le> c" "c < 2 ^ 63" for c
    using that by (simp add: unsigned_of_int take_bit_int_eq_self)
  note u = this
  show "(of_int a :: u64) \<le> of_int b" using u assms by (simp add: word_le_def)
  have "unat (of_int a :: u64) = nat (uint (of_int a :: u64))" by (simp only: unat_eq_nat_uint)
  also have "\<dots> = nat a" using u assms by simp
  finally show "unat (of_int a :: u64) = nat a" .
qed



end
