(* ===== verification/Statistics.thy ===== *)
theory Statistics
  imports Flow_Records Thread_Config
begin

text \<open>
  What the running program reports: the timer callbacks of the three versions, which print the
  receive rate, and the signal handlers, which print and append the counters to a file. The device
  statistics are read from DPDK and are parameters. The flow reports of the handlers are with the
  flow tables (\<open>rtc_dh_report\<close>, \<open>pth_dh_report\<close>, \<open>lt_report\<close> and so on).
\<close>

section \<open>Device statistics and ports\<close>

record eth_stats =
  ipackets :: u64
  imissed :: u64
  ierrors :: u64

definition dpdk_total :: "eth_stats \<Rightarrow> u64" where
  "dpdk_total st = ipackets st + imissed st + ierrors st"

text \<open>The loop for the first enabled port: without one it ends at the number of ports.\<close>

definition first_enabled :: "u32 \<Rightarrow> nat \<Rightarrow> nat" where
  "first_enabled pmask nb_ports =
     (case find (\<lambda>portid. bit pmask portid) [0..<nb_ports] of Some portid \<Rightarrow> portid | None \<Rightarrow> nb_ports)"

section \<open>The timer callback\<close>

text \<open>\<open>j += re[i]\<close>: the counter is converted to \<open>double\<close> and added, each time with rounding.\<close>

definition sum_double :: "fpu \<Rightarrow> nat \<Rightarrow> u64 list \<Rightarrow> real" where
  "sum_double fp n re = fold (\<lambda>i j. rnd64 fp (j + rnd64 fp (real (unat (re ! i))))) [0..<n] 0"

text \<open>
  The callback with \<open>n\<close> counters and the total \<open>old\<close> of the previous call: the printed rate in
  million packets per second and the new total. The loop variable has 8 bits, so with more than 255
  counters the loop has no end: the result \<open>None\<close>. The other lines of the three callbacks are in
  \<open>Timer_Report\<close>.
\<close>

definition timer_cb :: "fpu \<Rightarrow> nat \<Rightarrow> u64 list \<Rightarrow> real \<Rightarrow> (fw_error + real \<times> real) option" where
  "timer_cb fp n re old =
     (if min n 256 > length re then Some (Inl (Undefined ''queue counter index out of range''))
      else if n > 255 then None
      else let j = sum_double fp n re
           in Some (Inr (rnd64 fp (rnd64 fp (j - old) / 1000000), j)))"

section \<open>The signal handlers\<close>

text \<open>
  Run-to-completion version, built with \<^verbatim>\<open>WRITE_FILE\<close>: the printed queue counters and the numbers
  of the line appended to the file.
\<close>

definition rtc_handler :: "eth_stats \<Rightarrow> u64 list \<Rightarrow> fw_error + u64 list \<times> u64 list" where
  "rtc_handler st re =
     (if length re < RTC_RX_RINGS then Inl (Undefined ''queue counter index out of range'')
      else let printed = take RTC_RX_RINGS re in
        if 1 < length re then Inr (printed, [dpdk_total st, imissed st, re ! 0, re ! 1])
        else Inl (Undefined ''queue counter index out of range''))"

text \<open>
  pthread version: the statistics of the first enabled port, the counters and their sum, and with
  \<^verbatim>\<open>--write-file\<close> the line with the number of flows.
\<close>

definition pth_handler ::
  "(nat \<Rightarrow> eth_stats) \<Rightarrow> u32 \<Rightarrow> nat \<Rightarrow> nat \<Rightarrow> bool \<Rightarrow> u64 \<Rightarrow> u64 list
     \<Rightarrow> fw_error + u64 list \<times> u64 \<times> u64 list"
where
  "pth_handler stats pmask nb_ports n_rx_thread wr flows gCtr =
     (let st = stats (first_enabled pmask nb_ports) in
      if n_rx_thread > length gCtr then Inl (Undefined ''gCtr index out of range'')
      else let printed = take n_rx_thread gCtr; total = fold (\<lambda>x s. s + x) printed 0 in
        if wr then
          (if 1 < length gCtr
           then Inr (printed, total, [dpdk_total st, imissed st, gCtr ! 0, gCtr ! 1, flows])
           else Inl (Undefined ''gCtr index out of range''))
        else Inr (printed, total, []))"

text \<open>
  L-thread version: the counters with their packets per batch, a quotient of doubles (\<open>None\<close> without
  a batch: infinity or not a number), and the file line.
\<close>

definition lt_handler ::
  "fpu \<Rightarrow> (nat \<Rightarrow> eth_stats) \<Rightarrow> u32 \<Rightarrow> nat \<Rightarrow> nat \<Rightarrow> bool \<Rightarrow> u64 \<Rightarrow> u64 list \<Rightarrow> int list
     \<Rightarrow> fw_error + (u64 \<times> real option) list \<times> u64 list"
where
  "lt_handler fp stats pmask nb_ports n_rx_thread wr flows re batch_n =
     (let st = stats (first_enabled pmask nb_ports) in
      if n_rx_thread > length re \<or> n_rx_thread > length batch_n
      then Inl (Undefined ''queue counter index out of range'')
      else Inr (map (\<lambda>i. (re ! i, if batch_n ! i = 0 then None
                  else Some (rnd64 fp (rnd64 fp (real (unat (re ! i))) / of_int (batch_n ! i))))) [0..<n_rx_thread],
                if wr then [dpdk_total st, imissed st] @ take n_rx_thread re @ [flows] else []))"

section \<open>Lemmas\<close>

lemma sum_double_exact:
  assumes exact: "\<And>k. k < 2 ^ 53 \<Longrightarrow> rnd64 fp (real k) = real k"
    and small: "sum_list (map unat (take n re)) < 2 ^ 53" and n: "n \<le> length re"
  shows "sum_double fp n re = real (sum_list (map unat (take n re)))"
  using small n
proof (induction n)
  case 0
  then show ?case by (simp add: sum_double_def)
next
  case (Suc n)
  then have t: "sum_list (map unat (take (Suc n) re))
      = sum_list (map unat (take n re)) + unat (re ! n)" by (simp add: take_Suc_conv_app_nth)
  then have "sum_double fp n re = real (sum_list (map unat (take n re)))" using Suc by simp
  then have "sum_double fp (Suc n) re
      = rnd64 fp (real (sum_list (map unat (take n re))) + rnd64 fp (real (unat (re ! n))))"
    by (simp add: sum_double_def)
  also have "\<dots> = rnd64 fp (real (sum_list (map unat (take (Suc n) re))))"
    using t Suc.prems exact [of "unat (re ! n)"] by simp
  also have "\<dots> = real (sum_list (map unat (take (Suc n) re)))"
    using Suc.prems exact by simp
  finally show ?case .
qed

section \<open>Properties\<close>

text \<open>
  The timer callback reports exactly: with at most 255 counters whose sum stays below 2^53, and
  double rounding that is the identity on integers below 2^53, the printed total is the sum of the
  counters and the printed rate is the rounded millionth of the increase since the previous call,
  whose total it was given.
\<close>

theorem timer_cb_exact:
  assumes "\<And>k. k < 2 ^ 53 \<Longrightarrow> rnd64 fp (real k) = real k"
    and "n \<le> 255" "n \<le> length re" "sum_list (map unat (take n re)) < 2 ^ 53"
    and "m \<le> sum_list (map unat (take n re))"
  shows "timer_cb fp n re (real m) = Some (Inr
     (rnd64 fp (real (sum_list (map unat (take n re)) - m) / 1000000),
      real (sum_list (map unat (take n re)))))"
proof -
  have "rnd64 fp (real (sum_list (map unat (take n re)) - m)) = real (sum_list (map unat (take n re)) - m)"
    by (rule assms(1)) (use assms(4) in linarith)
  then show ?thesis
    using assms(2,3,5) sum_double_exact [OF assms(1,4,3)] by (simp add: timer_cb_def Let_def of_nat_diff)
qed

theorem timer_cb_exact_witness:
  "timer_cb exact_fpu 2 [3000000, 4000000, 9] (real 5000000) = Some (Inr (2, 7000000))"
  using timer_cb_exact [of exact_fpu 2 "[3000000, 4000000, 9]" 5000000] by simp

text \<open>
  The handler of the run-to-completion version reads past its counters: the array has
  \<^verbatim>\<open>RX_RINGS\<close> = 1 entry, but the line appended to the file contains \<^verbatim>\<open>re[1]\<close>, whatever the statistics.
\<close>

theorem rtc_handler_out_of_bounds:
  "length re = RTC_RX_RINGS \<Longrightarrow> rtc_handler st re = Inl (Undefined ''queue counter index out of range'')"
  by (simp add: rtc_handler_def RTC_RX_RINGS_def)

theorem rtc_handler_out_of_bounds_witness:
  "rtc_handler \<lparr>ipackets = 5, imissed = 0, ierrors = 0\<rparr> [5]
   = Inl (Undefined ''queue counter index out of range'')"
  by (rule rtc_handler_out_of_bounds) (simp add: RTC_RX_RINGS_def)

end
