(* ===== verification/Timer_Report.thy ===== *)
theory Timer_Report
  imports Statistics Hash_List Ipg_Mean "HOL-Library.Sublist"
begin

text \<open>
  The lines the timer callbacks print once a second, and the callback running beside the threads
  that count: it adds up the counters of the queues one by one while the other cores go on
  increasing them, and prints the total, the rate since its previous run and the gap statistics of
  one fixed bucket. A run is any sequence of bursts and steps of the callback; its history tells for
  every printed report which bursts had been processed when the callback began and when it printed.
\<close>

section \<open>The lines of a report\<close>

text \<open>
  \<open>Rate\<close> has the rate, the total and the dropped packets; \<open>Gap\<close> and \<open>Gap_dev\<close> are the two forms of the
  line on the gaps, without and with \<^verbatim>\<open>stdDev\<close>.
\<close>

datatype report_line =
  Timestamp_detected | Rate real real u64 | Gap real | Gap_dev real real

text \<open>The bucket whose gaps are printed.\<close>

definition PROBED :: nat where
  "PROBED = 65246"

lemma PROBED_less [simp]: "PROBED < FLOW_NUM"
  by (simp add: PROBED_def FLOW_NUM_def)

text \<open>
  The line of the \<^verbatim>\<open>LINKED_LIST\<close> builds dereferences the first entry of the bucket; that of the
  \<^verbatim>\<open>DOUBLE_HASH\<close> build of the run-to-completion version has no deviation; all others do.
\<close>

definition ll_gap_line :: "cfg \<Rightarrow> (nat \<Rightarrow> ('c, 'z) flow_entry_scheme list) \<Rightarrow> fw_error + report_line list" where
  "ll_gap_line c flows =
     (if c_ipg c then
        (case flows PROBED of [] \<Rightarrow> Inl (Undefined ''null pointer dereference'') | f # fs \<Rightarrow> Inr [Gap (e_avg f)])
      else Inr [])"

definition rtc_dh_gap_line :: "cfg \<Rightarrow> (nat \<Rightarrow> ('c, 'z) pkt_count_scheme) \<Rightarrow> fw_error + report_line list" where
  "rtc_dh_gap_line c pkt_ctr = Inr (if c_ipg c then [Gap (avg (pkt_ctr PROBED) ! 0)] else [])"

definition dev_gap_line :: "cfg \<Rightarrow> (nat \<Rightarrow> ('c, 'z) pkt_count_sd_scheme) \<Rightarrow> fw_error + report_line list" where
  "dev_gap_line c pkt_ctr =
     Inr (if c_ipg c then [Gap_dev (avg (pkt_ctr PROBED) ! 0) (stdDev (pkt_ctr PROBED) ! 0)] else [])"

section \<open>The callbacks\<close>

text \<open>
  The callbacks of the three versions, on counters that do not change meanwhile. \<open>tsync\<close> is the answer of
  \<^verbatim>\<open>rte_eth_timesync_read_rx_timestamp\<close>, \<open>stats\<close> the statistics of the ports and \<open>gap_line\<close> the
  line of the build. The result is the lines and the total the next call finds in \<^verbatim>\<open>old\<close>.
\<close>

definition PORT_ID :: nat where
  "PORT_ID = 0"

definition timer_lines ::
  "bool \<Rightarrow> u64 \<Rightarrow> fw_error + report_line list \<Rightarrow> real \<times> real \<Rightarrow> fw_error + report_line list \<times> real"
where
  "timer_lines tstamp dropped gap_line r =
     sbind gap_line (\<lambda>g. Inr ((if tstamp then [Timestamp_detected] else []) @ [Rate (fst r) (snd r) dropped] @ g, snd r))"

definition rtc_timer_cb ::
  "fpu \<Rightarrow> (nat \<Rightarrow> eth_stats) \<Rightarrow> int \<Rightarrow> u64 list \<Rightarrow> fw_error + report_line list \<Rightarrow> real
     \<Rightarrow> (fw_error + report_line list \<times> real) option"
where
  "rtc_timer_cb fp stats tsync re gap_line old =
     map_option (\<lambda>r. sbind r (timer_lines (tsync = 0) (imissed (stats PORT_ID)) gap_line)) (timer_cb fp RTC_RX_RINGS re old)"

definition pth_timer_cb ::
  "fpu \<Rightarrow> (nat \<Rightarrow> eth_stats) \<Rightarrow> u32 \<Rightarrow> nat \<Rightarrow> int \<Rightarrow> nat \<Rightarrow> u64 list \<Rightarrow> fw_error + report_line list \<Rightarrow> real
     \<Rightarrow> (fw_error + report_line list \<times> real) option"
where
  "pth_timer_cb fp stats pmask nb_ports tsync n_rx_thread gCtr gap_line old =
     map_option (\<lambda>r. sbind r (timer_lines (tsync = 0) (imissed (stats (first_enabled pmask nb_ports))) gap_line))
       (timer_cb fp n_rx_thread gCtr old)"

text \<open>The L-thread version does not ask for a timestamp.\<close>

definition lt_timer_cb ::
  "fpu \<Rightarrow> (nat \<Rightarrow> eth_stats) \<Rightarrow> u32 \<Rightarrow> nat \<Rightarrow> nat \<Rightarrow> u64 list \<Rightarrow> fw_error + report_line list \<Rightarrow> real
     \<Rightarrow> (fw_error + report_line list \<times> real) option"
where
  "lt_timer_cb fp stats pmask nb_ports n_rx_thread re gap_line old =
     map_option (\<lambda>r. sbind r (timer_lines False (imissed (stats (first_enabled pmask nb_ports))) gap_line))
       (timer_cb fp n_rx_thread re old)"

text \<open>
  What is printed as \<^verbatim>\<open>stdDev\<close> is, without rounding, the distance of the last gap from the mean of the
  gaps before it, not a deviation over the gaps.
\<close>

lemma std_dev_exact: "std_dev exact_fpu a cur = \<bar>real_of_int (sint cur) - a\<bar>"
  by (simp add: std_dev_def)

section \<open>The callback beside the counting threads\<close>

text \<open>
  \<open>reading\<close> holds the loop variable \<open>i\<close>, a \<^verbatim>\<open>uint8_t\<close>, and the sum \<open>j\<close> of a callback that is running, \<open>old\<close> the
  total of the previous one. The fields \<open>bursts\<close>, \<open>began\<close>, \<open>r_from\<close> and \<open>r_upto\<close> are history: the bursts
  processed so far, when the callback began, and both for every report.
\<close>

record report =
  r_rate :: real
  r_total :: real
  r_gaps :: "report_line list"
  r_from :: "(nat \<times> mbuf list) list"
  r_upto :: "(nat \<times> mbuf list) list"

record 'b monitor =
  mon :: "'b mon_state"
  reading :: "(u8 \<times> real) option"
  old :: real
  bursts :: "(nat \<times> mbuf list) list"
  began :: "(nat \<times> mbuf list) list"
  reports :: "report list"

text \<open>
  A step of the program: a counting thread processes a burst, the callback is entered, it executes
  \<^verbatim>\<open>j += re[i]\<close>, or it leaves the loop and prints. \<open>None\<close> means that the step is not possible. The
  counter of a queue is written once for each burst and by one thread only, so a burst is one
  step for the reader of the counters.
\<close>

datatype act = Burst nat "mbuf list" | Enter | Read | Print

definition monitor_act ::
  "(nat \<Rightarrow> mbuf list \<Rightarrow> 'b mon_state \<Rightarrow> fw_error + 'b mon_state) \<Rightarrow> ((nat \<Rightarrow> 'b) \<Rightarrow> fw_error + report_line list)
     \<Rightarrow> fpu \<Rightarrow> nat \<Rightarrow> act \<Rightarrow> 'b monitor \<Rightarrow> 'b monitor option"
where
  "monitor_act burst gap_line fp n a s =
     (case a of
        Burst q bufs \<Rightarrow>
          (case burst q bufs (mon s) of
             Inr m \<Rightarrow> Some (s\<lparr>mon := m, bursts := bursts s @ [(q, bufs)]\<rparr>)
           | Inl _ \<Rightarrow> None)
      | Enter \<Rightarrow>
          (if reading s = None then Some (s\<lparr>reading := Some (0, 0), began := bursts s\<rparr>) else None)
      | Read \<Rightarrow>
          (case reading s of
             Some (i, j) \<Rightarrow>
               (if unat i < n \<and> unat i < length (rings (mon s))
                then Some (s\<lparr>reading := Some (i + 1, rnd64 fp (j + rnd64 fp (real (unat (rings (mon s) ! unat i)))))\<rparr>)
                else None)
           | None \<Rightarrow> None)
      | Print \<Rightarrow>
          (case reading s of
             Some (i, j) \<Rightarrow>
               (if n \<le> unat i then
                  (case gap_line (tbl (mon s)) of
                     Inr g \<Rightarrow> Some (s\<lparr>reading := None, old := j,
                       reports := reports s @ [\<lparr>r_rate = rnd64 fp (rnd64 fp (j - old s) / 1000000), r_total = j,
                         r_gaps = g, r_from = began s, r_upto = bursts s\<rparr>]\<rparr>)
                   | Inl _ \<Rightarrow> None)
                else None)
           | None \<Rightarrow> None))"

fun monitor_acts where
  "monitor_acts burst gap_line fp n [] s = Some s"
| "monitor_acts burst gap_line fp n (a # as) s =
     (case monitor_act burst gap_line fp n a s of None \<Rightarrow> None | Some s' \<Rightarrow> monitor_acts burst gap_line fp n as s')"

definition monitor_start :: "'b mon_state \<Rightarrow> 'b monitor" where
  "monitor_start m = \<lparr>mon = m, reading = None, old = 0, bursts = [], began = [], reports = []\<rparr>"

lemma monitor_start_simps [simp]:
  "mon (monitor_start m) = m" "reading (monitor_start m) = None" "old (monitor_start m) = 0"
  "bursts (monitor_start m) = []" "began (monitor_start m) = []" "reports (monitor_start m) = []"
  by (simp_all add: monitor_start_def)


section \<open>What every report says\<close>

text \<open>
  The total of a report lies between the packets processed before the callback began and those
  processed when it printed, no total is below the previous one, and the rate is the rounded
  millionth of the increase.
\<close>

abbreviation npkts :: "(nat \<times> mbuf list) list \<Rightarrow> nat" where
  "npkts bs \<equiv> length (packets bs)"

definition prev_total :: "report list \<Rightarrow> nat \<Rightarrow> real" where
  "prev_total rs i = (if i = 0 then 0 else r_total (rs ! (i - 1)))"

definition reports_ok :: "fpu \<Rightarrow> report list \<Rightarrow> bool" where
  "reports_ok fp rs \<longleftrightarrow> (\<forall>i < length rs.
     real (npkts (r_from (rs ! i))) \<le> r_total (rs ! i) \<and> r_total (rs ! i) \<le> real (npkts (r_upto (rs ! i))) \<and>
     prev_total rs i \<le> r_total (rs ! i) \<and>
     r_rate (rs ! i) = rnd64 fp ((r_total (rs ! i) - prev_total rs i) / 1000000))"

lemma reports_ok_Nil [simp]: "reports_ok fp []"
  by (simp add: reports_ok_def)

lemma prev_total_simps [simp]: "prev_total rs 0 = 0" "prev_total (rs @ [r]) (Suc (length rs)) = r_total r"
  by (simp_all add: prev_total_def)

lemma reports_ok_snoc:
  "reports_ok fp (rs @ [r]) \<longleftrightarrow> reports_ok fp rs \<and>
     real (npkts (r_from r)) \<le> r_total r \<and> r_total r \<le> real (npkts (r_upto r)) \<and>
     prev_total rs (length rs) \<le> r_total r \<and>
     r_rate r = rnd64 fp ((r_total r - prev_total rs (length rs)) / 1000000)"
proof -
  have "prev_total (rs @ [r]) i = prev_total rs i" if "i \<le> length rs" for i
    using that by (auto simp: prev_total_def nth_append)
  then show ?thesis by (simp add: reports_ok_def nth_append All_less_Suc conj_ac)
qed

text \<open>In exact arithmetic the rates add up to the last total: no packet is in two rates or in none.\<close>

lemma rates_add_up:
  "reports_ok exact_fpu rs \<Longrightarrow> 1000000 * sum_list (map r_rate rs) = prev_total rs (length rs)"
proof (induction rs rule: rev_induct)
  case (snoc r rs)
  then show ?case by (simp add: reports_ok_snoc algebra_simps)
qed simp

section \<open>The history is what happened\<close>

text \<open>
  Whatever the bursts do: the state of the threads is that of the processed bursts, and the gap
  line of a report is that of the table after the bursts processed when it was printed.
\<close>

definition history_ok where
  "history_ok burst gap_line m0 s \<longleftrightarrow>
     run (\<lambda>(q, bufs). burst q bufs) (bursts s) m0 = Inr (mon s) \<and> prefix (began s) (bursts s) \<and>
     (\<forall>r \<in> set (reports s). prefix (r_from r) (r_upto r) \<and> prefix (r_upto r) (bursts s) \<and>
       (\<exists>m. run (\<lambda>(q, bufs). burst q bufs) (r_upto r) m0 = Inr m \<and> gap_line (tbl m) = Inr (r_gaps r)))"

lemma monitor_actE [consumes 1, case_names Burst Enter Read Print]:
  assumes "monitor_act burst gap_line fp n a s = Some s'"
  obtains q bufs m where "a = Burst q bufs" "burst q bufs (mon s) = Inr m"
      "s' = s\<lparr>mon := m, bursts := bursts s @ [(q, bufs)]\<rparr>"
  | "a = Enter" "reading s = None" "s' = s\<lparr>reading := Some (0, 0), began := bursts s\<rparr>"
  | i j where "a = Read" "reading s = Some (i, j)" "unat i < n" "unat i < length (rings (mon s))"
      "s' = s\<lparr>reading := Some (i + 1, rnd64 fp (j + rnd64 fp (real (unat (rings (mon s) ! unat i)))))\<rparr>"
  | i j g where "a = Print" "reading s = Some (i, j)" "n \<le> unat i" "gap_line (tbl (mon s)) = Inr g"
      "s' = s\<lparr>reading := None, old := j,
         reports := reports s @ [\<lparr>r_rate = rnd64 fp (rnd64 fp (j - old s) / 1000000), r_total = j,
           r_gaps = g, r_from = began s, r_upto = bursts s\<rparr>]\<rparr>"
  using assms unfolding monitor_act_def by (auto split: act.splits option.splits sum.splits if_splits)

lemma history_ok_step:
  assumes "monitor_act burst gap_line fp n a s = Some s'" "history_ok burst gap_line m0 s"
  shows "history_ok burst gap_line m0 s'"
  using assms by (cases rule: monitor_actE) (auto simp: history_ok_def run_append prefix_snoc)

lemma history_ok_start: "history_ok burst gap_line m (monitor_start m)"
  by (simp add: history_ok_def)

text \<open>Invariants of the steps hold after every run.\<close>

lemma monitor_acts_invariant:
  assumes "monitor_acts burst gap_line fp n as s = Some s'" "I s"
    and "\<And>a s s'. monitor_act burst gap_line fp n a s = Some s' \<Longrightarrow> I s \<Longrightarrow> I s'"
  shows "I s'"
  using assms by (induction as arbitrary: s) (auto split: option.splits)

text \<open>With more than 255 counters the loop variable wraps before the loop ends: nothing is ever printed.\<close>

lemma never_printed:
  assumes "monitor_acts burst gap_line fp n as (monitor_start m) = Some s" "255 < n"
  shows "reports s = []"
  using assms(1)
proof (rule monitor_acts_invariant [where I = "\<lambda>s. reports s = []"])
  fix a s s'
  assume "monitor_act burst gap_line fp n a s = Some s'" "reports s = []"
  then show "reports s' = []"
  proof (cases rule: monitor_actE)
    case (Print i j g)
    then show ?thesis using unat_u8_less [of i] assms(2) by simp
  qed simp_all
qed simp

section \<open>The totals\<close>

lemma ring_add_grows:
  assumes r: "ring_add q k re = Inr re'" and small: "sum_list (map unat re) + k < 2 ^ 64"
  shows "length re' = length re \<and> (\<forall>i < length re. unat (re ! i) \<le> unat (re' ! i)) \<and>
    sum_list (map unat re') = sum_list (map unat re) + k"
proof -
  note e = ring_addE [OF r]
  let ?f = "\<lambda>i. unat (re ! i)"
  have q: "unat (re ! q) \<le> sum_list (map unat re)"
    using e by (intro member_le_sum_list) simp_all
  have "unat (of_nat k :: u64) = k" using small by (subst unat_of_nat_small) simp_all
  then have u: "unat (re ! q + of_nat k) = unat (re ! q) + k"
    using q small by (subst unat_plus_simple [THEN iffD1]) (simp_all add: no_olen_add_nat)
  have upd: "sum_list (map unat (re[q := x])) + unat (re ! q) = sum_list (map unat re) + unat x"
    if "q < length re" for x :: u64
    using that by (induction re arbitrary: q) (auto simp: nth_Cons split: nat.split)
  have "sum_list (map unat re') = sum_list (map unat re) + k"
    using upd [of "re ! q + of_nat k"] e u by simp
  then show ?thesis using e u by (simp add: nth_list_update)
qed

text \<open>
  A running sum \<open>j\<close> of the counters before \<open>i\<close>, for a callback that began after \<open>b\<close> packets: it is at
  most what those counters hold now, and with the counters still to be read it reaches \<open>b\<close>.
\<close>

definition running :: "u64 list \<Rightarrow> nat \<Rightarrow> nat \<Rightarrow> real \<Rightarrow> bool" where
  "running re b i j \<longleftrightarrow> i \<le> length re \<and>
     (\<exists>k. j = real k \<and> k \<le> sum_list (map unat (take i re)) \<and> b \<le> k + sum_list (map unat (drop i re)))"

lemma running_start: "b \<le> sum_list (map unat re) \<Longrightarrow> running re b 0 0"
  by (auto simp: running_def)

lemma sum_take_drop: "sum_list (map unat (take i re)) + sum_list (map unat (drop i re)) = sum_list (map unat re)"
  by (metis append_take_drop_id map_append sum_list.append)

lemma running_read:
  assumes r: "running re b i j" and i: "i < length re" and small: "sum_list (map unat re) < 2 ^ 53"
    and exact: "\<And>k. k < 2 ^ 53 \<Longrightarrow> rnd64 fp (real k) = real k"
  shows "running re b (i + 1) (rnd64 fp (j + rnd64 fp (real (unat (re ! i)))))"
proof -
  obtain k where k: "j = real k" "k \<le> sum_list (map unat (take i re))" "b \<le> k + sum_list (map unat (drop i re))"
    using r by (auto simp: running_def)
  have t: "take (i + 1) re = take i re @ [re ! i]" and d: "drop i re = re ! i # drop (i + 1) re"
    using i by (simp_all add: take_Suc_conv_app_nth Cons_nth_drop_Suc)
  have le: "k + unat (re ! i) < 2 ^ 53" "unat (re ! i) < 2 ^ 53"
    using k(2) small t sum_take_drop [of "i + 1" re] by simp_all
  have "rnd64 fp (j + rnd64 fp (real (unat (re ! i)))) = real (k + unat (re ! i))"
    using exact [OF le(1)] exact [OF le(2)] k(1) by simp
  moreover have "k + unat (re ! i) \<le> sum_list (map unat (take (i + 1) re))"
    "b \<le> k + unat (re ! i) + sum_list (map unat (drop (i + 1) re))"
    using k t d by simp_all
  ultimately show ?thesis unfolding running_def using i
    by (intro conjI exI [of _ "k + unat (re ! i)"]) (assumption | linarith)+
qed

lemma running_mono:
  assumes "running re b i j" and len: "length re' = length re" and le: "\<forall>i < length re. unat (re ! i) \<le> unat (re' ! i)"
  shows "running re' b i j"
proof -
  have "sum_list (map unat (take i re)) \<le> sum_list (map unat (take i re'))"
    "sum_list (map unat (drop i re)) \<le> sum_list (map unat (drop i re'))"
    by (rule sum_list_mono2; use le len in simp)+
  moreover obtain k where "j = real k" "k \<le> sum_list (map unat (take i re))"
    "b \<le> k + sum_list (map unat (drop i re))" "i \<le> length re"
    using assms(1) by (auto simp: running_def)
  ultimately show ?thesis unfolding running_def len
    by (intro conjI exI [of _ k]) (assumption | linarith)+
qed

lemma running_end:
  assumes "running re b i j" "length re \<le> i"
  obtains k where "j = real k" "b \<le> k" "k \<le> sum_list (map unat re)"
  using assms by (auto simp: running_def)

text \<open>The invariant of the callback.\<close>

definition counted :: "fpu \<Rightarrow> nat \<Rightarrow> 'b monitor \<Rightarrow> bool" where
  "counted fp n s \<longleftrightarrow>
     length (rings (mon s)) = n \<and> sum_list (map unat (rings (mon s))) = npkts (bursts s) \<and>
     npkts (began s) \<le> npkts (bursts s) \<and>
     (\<exists>k. old s = real k \<and> k \<le> npkts (if reading s = None then bursts s else began s)) \<and>
     prev_total (reports s) (length (reports s)) = old s \<and> reports_ok fp (reports s) \<and>
     (case reading s of None \<Rightarrow> True | Some (i, j) \<Rightarrow> running (rings (mon s)) (npkts (began s)) (unat i) j)"

lemma counted_start: "rings m = replicate n 0 \<Longrightarrow> counted fp n (monitor_start m)"
  by (simp add: counted_def sum_list_replicate)

lemma counted_enter:
  "counted fp n s \<Longrightarrow> reading s = None \<Longrightarrow> counted fp n (s\<lparr>reading := Some (0, 0), began := bursts s\<rparr>)"
  by (simp add: counted_def running_start)

lemma counted_read:
  assumes c: "counted fp n s" and r: "reading s = Some (i, j)" "unat i < n" and n: "n \<le> 255"
    and exact: "\<And>k. k < 2 ^ 53 \<Longrightarrow> rnd64 fp (real k) = real k" and small: "npkts (bursts s) < 2 ^ 53"
  shows "counted fp n (s\<lparr>reading := Some (i + 1, rnd64 fp (j + rnd64 fp (real (unat (rings (mon s) ! unat i)))))\<rparr>)"
proof -
  have "unat (i + 1) = unat i + 1"
    using r(2) n by (subst unat_plus_simple [THEN iffD1]) (simp_all add: no_olen_add_nat)
  then have "running (rings (mon s)) (npkts (began s)) (unat (i + 1))
      (rnd64 fp (j + rnd64 fp (real (unat (rings (mon s) ! unat i)))))"
    using running_read [OF _ _ _ exact, of "rings (mon s)" "npkts (began s)" "unat i" j] c r small
    by (simp add: counted_def)
  then show ?thesis using c r by (simp add: counted_def)
qed

lemma counted_print:
  assumes c: "counted fp n s" and r: "reading s = Some (i, j)" "n \<le> unat i"
    and exact: "\<And>k. k < 2 ^ 53 \<Longrightarrow> rnd64 fp (real k) = real k" and small: "npkts (bursts s) < 2 ^ 53"
  shows "counted fp n (s\<lparr>reading := None, old := j,
    reports := reports s @ [\<lparr>r_rate = rnd64 fp (rnd64 fp (j - old s) / 1000000), r_total = j,
      r_gaps = g, r_from = began s, r_upto = bursts s\<rparr>]\<rparr>)"
proof -
  have "running (rings (mon s)) (npkts (began s)) (unat i) j" "length (rings (mon s)) \<le> unat i"
    using c r by (simp_all add: counted_def)
  then obtain k where k: "j = real k" "npkts (began s) \<le> k" "k \<le> npkts (bursts s)"
    using c by (elim running_end) (auto simp: counted_def)
  obtain k0 where k0: "old s = real k0" "k0 \<le> npkts (began s)"
    using c r(1) by (force simp: counted_def)
  have "rnd64 fp (j - old s) = j - old s"
    using exact [of "k - k0"] k k0 small by (simp add: of_nat_diff)
  then show ?thesis using c k k0 by (simp add: counted_def reports_ok_snoc)
qed

lemma counted_burst:
  assumes c: "counted fp n s" and re: "ring_add q (length bufs) (rings (mon s)) = Inr (rings m)"
    and small: "npkts (bursts s) + length bufs < 2 ^ 53"
  shows "counted fp n (s\<lparr>mon := m, bursts := bursts s @ [(q, bufs)]\<rparr>)"
proof -
  let ?re = "rings (mon s)"
  have g: "length (rings m) = length ?re \<and> (\<forall>i < length ?re. unat (?re ! i) \<le> unat (rings m ! i)) \<and>
      sum_list (map unat (rings m)) = npkts (bursts s) + length bufs"
    using ring_add_grows [OF re] c small by (simp add: counted_def)
  then have "running ?re b i j \<Longrightarrow> running (rings m) b i j" for b i j
    using running_mono by blast
  then show ?thesis using c g by (cases "reading s") (auto simp: counted_def intro: trans_le_add1)
qed

context hashed_loop
begin

lemma counted_step:
  assumes a: "monitor_act burst gap_line fp n a s = Some s'" and c: "counted fp n s" and n: "n \<le> 255"
    and exact: "\<And>k. k < 2 ^ 53 \<Longrightarrow> rnd64 fp (real k) = real k" and small: "npkts (bursts s') < 2 ^ 53"
  shows "counted fp n s'"
  using a
proof (cases rule: monitor_actE)
  case (Burst q bufs m)
  show ?thesis
  proof (cases "bufs = []")
    case True
    with Burst burst_idle have "m = mon s" by simp
    with True Burst c show ?thesis by (cases "reading s") (auto simp: counted_def)
  next
    case False
    show ?thesis unfolding Burst(3)
      by (rule counted_burst [OF c burst_rings [OF Burst(2) False]]) (use small Burst in simp)
  qed
next
  case Enter
  then show ?thesis using counted_enter [OF c] by simp
next
  case (Read i j)
  then show ?thesis using counted_read [OF c Read(2,3) n exact] small by simp
next
  case (Print i j g)
  then show ?thesis using counted_print [OF c Print(2,3) exact] small by simp
qed

lemma counted_run:
  assumes a: "monitor_acts burst gap_line fp n as (monitor_start m0) = Some s"
    and "rings m0 = replicate n 0" "n \<le> 255"
    and exact: "\<And>k. k < 2 ^ 53 \<Longrightarrow> rnd64 fp (real k) = real k" and small: "npkts (bursts s) < 2 ^ 53"
  shows "counted fp n s"
proof -
  have "npkts (bursts s) < 2 ^ 53 \<longrightarrow> counted fp n s"
  proof (rule monitor_acts_invariant [OF a])
    show "npkts (bursts (monitor_start m0)) < 2 ^ 53 \<longrightarrow> counted fp n (monitor_start m0)"
      using counted_start [OF assms(2)] by simp
  next
    fix a and s s' :: "'b monitor"
    assume a: "monitor_act burst gap_line fp n a s = Some s'" and I: "npkts (bursts s) < 2 ^ 53 \<longrightarrow> counted fp n s"
    have "npkts (bursts s) \<le> npkts (bursts s')"
      using a by (cases rule: monitor_actE) simp_all
    then show "npkts (bursts s') < 2 ^ 53 \<longrightarrow> counted fp n s'"
      using counted_step [OF a _ assms(3) exact] I by simp
  qed
  with small show ?thesis by simp
qed

text \<open>What every run of a version with its callback satisfies.\<close>

lemma monitored:
  assumes a: "monitor_acts burst gap_line fp n as (monitor_start m0) = Some s"
    and "rings m0 = replicate n 0" "n \<le> 255"
    and "\<And>k. k < 2 ^ 53 \<Longrightarrow> rnd64 fp (real k) = real k" and "npkts (bursts s) < 2 ^ 53"
  shows "history_ok burst gap_line m0 s \<and> reports_ok fp (reports s)"
  using monitor_acts_invariant [where I = "history_ok burst gap_line m0", OF a history_ok_start history_ok_step]
    counted_run [OF assms] by (simp add: counted_def)

end


section \<open>The first flow of the probed bucket\<close>

text \<open>A bucket keeps the tag of its first packet in the first slot.\<close>

lemma run_first_tag:
  assumes "run (rtc_dh_upd c) es b = Inr b'" and "hi_f1 b = 0" "\<forall>e \<in> set es. tag e \<noteq> 0"
  shows "case es of [] \<Rightarrow> b' = b | e # es' \<Rightarrow> hi_f1 b' = tag e"
proof (cases es)
  case (Cons e es')
  obtain u where u: "rtc_dh_upd c e b = Inr u" "run (rtc_dh_upd c) es' u = Inr b'"
    using assms(1) unfolding Cons by (rule run_ConsE)
  have f1: "hi_f1 b' = (if hi_f1 b = 0 then tag e else hi_f1 b)" if "rtc_dh_upd c e b = Inr b'" for e and b b' :: "u32 pkt_count"
    using rtc_dh_upd_slots [OF that] by (auto simp: slots_def split: if_splits)
  have "hi_f1 b' = tag e"
    using u(2)
  proof (rule run_invariant [where I = "\<lambda>b. hi_f1 b = tag e"])
    show "hi_f1 u = tag e" using f1 [OF u(1)] assms(2) by simp
  qed (use f1 assms(3) Cons in auto)
  then show ?thesis by (simp add: Cons)
qed (use assms(1) in simp)

text \<open>The packets of a bucket in the order of processing.\<close>

definition bucket_packets :: "nat \<Rightarrow> (nat \<times> mbuf list) list \<Rightarrow> mbuf list" where
  "bucket_packets i bs = filter (\<lambda>m. h_slot (rss m) = i) (packets bs)"

text \<open>
  The number printed as the average gap after the bursts \<open>bs\<close>: zero if the probed bucket has had no packet, else the mean of
  the flow of its first packet.
\<close>

definition probed_mean :: "(nat \<times> mbuf list) list \<Rightarrow> real" where
  "probed_mean bs = (case bucket_packets PROBED bs of [] \<Rightarrow> 0
     | m # _ \<Rightarrow> flow_mean (positions (rss m) (stamped False 0 bs)))"

lemma rtc_probed_mean:
  assumes r: "run (\<lambda>(q, bufs). rtc_double_hash (gap_cfg qu p) True q bufs) bs s = Inr s'"
    and "rings s = [0]" and "npkts bs < 2 ^ 32"
    and sh: "\<forall>i < FLOW_NUM. shaped (t i)" and t: "tbl s = init_table (dh_init_bucket (gap_cfg qu p)) t"
    and tags: "\<forall>m \<in> set (packets bs). h_tag (rss m) \<noteq> 0"
  shows "avg (tbl s' PROBED) ! 0 = probed_mean bs"
proof -
  let ?es = "filter (\<lambda>e. bucket_of e = PROBED) (stamped False 0 bs)"
  have e: "run (rtc_dh_upd (gap_cfg qu p)) ?es (tbl s PROBED) = Inr (tbl s' PROBED)"
    by (rule run_table [OF rtc_stamped [OF r assms(2)]])
  have init: "hi_f1 (tbl s PROBED) = 0" "avg (tbl s PROBED) ! 0 = 0"
    using sh by (simp_all add: t init_table_def dh_init_bucket_def shaped_def)
  have nz: "\<forall>e \<in> set ?es. tag e \<noteq> 0"
    using tags_valid [OF stamped_packets tags] by auto
  note first = run_first_tag [OF e init(1) nz]
  have ms: "map snd ?es = bucket_packets PROBED bs"
    unfolding bucket_packets_def stamped_packets [of False 0 bs, symmetric] filter_map comp_def bucket_of_def ..
  show ?thesis
  proof (cases "?es")
    case Nil
    then have "bucket_packets PROBED bs = []" using ms by simp
    then show ?thesis using first Nil init by (simp add: probed_mean_def)
  next
    case (Cons e es)
    let ?h = "rss (snd e)"
    have b: "bucket_packets PROBED bs = snd e # map snd es" using ms Cons by simp
    have e: "e \<in> set ?es" using Cons by simp
    then have h: "h_slot ?h = PROBED" by (simp add: bucket_of_def)
    have k: "h_tag ?h \<noteq> 0"
      using bspec [OF nz e] unfolding tag_def .
    have "hi_f1 (tbl s' (h_slot ?h)) = h_tag ?h" using first Cons by (simp add: tag_def h)
    then have "avg (tbl s' (h_slot ?h)) ! 0 = flow_mean (positions ?h (stamped False 0 bs))"
      using rtc_run_means [OF r assms(2-6)] k unfolding flow_means_def by blast
    then show ?thesis using b by (simp add: probed_mean_def h)
  qed
qed


section \<open>A callback that is not disturbed\<close>

lemma monitor_acts_append:
  "monitor_acts burst gap_line fp n (as @ bs) s =
     (case monitor_acts burst gap_line fp n as s of None \<Rightarrow> None | Some s' \<Rightarrow> monitor_acts burst gap_line fp n bs s')"
  by (induction as arbitrary: s) (auto split: option.splits)

lemma sum_double_Suc:
  "sum_double fp (Suc i) re = rnd64 fp (sum_double fp i re + rnd64 fp (real (unat (re ! i))))"
  by (simp add: sum_double_def)

lemma undisturbed_reads:
  assumes "k \<le> n" "n \<le> 255" "n \<le> length (rings (mon s))"
  shows "monitor_acts burst gap_line fp n (replicate k Read) (s\<lparr>reading := Some (0, 0)\<rparr>)
    = Some (s\<lparr>reading := Some (of_nat k, sum_double fp k (rings (mon s)))\<rparr>)"
  using assms(1)
proof (induction k)
  case 0
  then show ?case by (simp add: sum_double_def)
next
  case (Suc k)
  have "unat (of_nat k :: u8) = k" using Suc.prems assms(2) by (subst unat_of_nat_small) simp_all
  then have "monitor_act burst gap_line fp n Read (s\<lparr>reading := Some (of_nat k, sum_double fp k (rings (mon s)))\<rparr>)
      = Some (s\<lparr>reading := Some (of_nat (Suc k), sum_double fp (Suc k) (rings (mon s)))\<rparr>)"
    using Suc.prems assms(3) by (simp add: monitor_act_def sum_double_Suc add.commute)
  with Suc show ?case by (simp add: monitor_acts_append replicate_append_same [symmetric])
qed

text \<open>
  When nothing happens between its steps the callback prints what \<open>timer_cb\<close>, and with it the
  callbacks of the three versions, computes from the counters.
\<close>

theorem undisturbed_callback:
  assumes "reading s = None" "n \<le> 255" "n \<le> length (rings (mon s))" "gap_line (tbl (mon s)) = Inr g"
  shows "\<exists>rate total. timer_cb fp n (rings (mon s)) (old s) = Some (Inr (rate, total)) \<and>
    monitor_acts burst gap_line fp n ([Enter] @ replicate n Read @ [Print]) s = Some (s\<lparr>old := total, began := bursts s,
      reports := reports s @ [\<lparr>r_rate = rate, r_total = total, r_gaps = g, r_from = bursts s, r_upto = bursts s\<rparr>]\<rparr>)"
proof -
  let ?s = "s\<lparr>began := bursts s\<rparr>" and ?j = "sum_double fp n (rings (mon s))"
  have reads: "monitor_acts burst gap_line fp n (replicate n Read) (?s\<lparr>reading := Some (0, 0)\<rparr>)
      = Some (?s\<lparr>reading := Some (of_nat n, ?j)\<rparr>)"
    using undisturbed_reads [of n n ?s] assms(2,3) by simp
  have n: "unat (of_nat n :: u8) = n" using assms(2) by (subst unat_of_nat_small) simp_all
  have enter: "monitor_act burst gap_line fp n Enter s = Some (?s\<lparr>reading := Some (0, 0)\<rparr>)"
    using assms(1) by (simp add: monitor_act_def)
  have print: "monitor_act burst gap_line fp n Print (?s\<lparr>reading := Some (of_nat n, ?j)\<rparr>)
      = Some (s\<lparr>old := ?j, began := bursts s, reports := reports s @ [\<lparr>r_rate = rnd64 fp (rnd64 fp (?j - old s) / 1000000),
          r_total = ?j, r_gaps = g, r_from = bursts s, r_upto = bursts s\<rparr>]\<rparr>)"
    using n assms(1,4) by (simp add: monitor_act_def)
  have "timer_cb fp n (rings (mon s)) (old s) = Some (Inr (rnd64 fp (rnd64 fp (?j - old s) / 1000000), ?j))"
    using assms(2,3) by (simp add: timer_cb_def Let_def)
  with enter reads print show ?thesis by (simp add: monitor_acts_append)
qed

theorem undisturbed_callback_witness:
  "monitor_acts (rtc_double_hash (gap_cfg False 0) True) (rtc_dh_gap_line (gap_cfg False 0)) exact_fpu 1
     ([Enter] @ replicate 1 Read @ [Print]) (monitor_start (ex_state (\<lambda>_. rtc_zero))) \<noteq> None"
  using undisturbed_callback [of "monitor_start (ex_state (\<lambda>_. rtc_zero))" 1 "rtc_dh_gap_line (gap_cfg False 0)"]
  by (fastforce simp: rtc_dh_gap_line_def)

section \<open>Properties\<close>




text \<open>Two counting threads, and a callback that reads the counter of the first before a burst of each.\<close>

definition ex_acts :: "act list" where
  "ex_acts = [Burst 0 [\<lparr>mb_id = 1, rss = 0x10007\<rparr>], Enter, Read,
     Burst 0 [\<lparr>mb_id = 2, rss = 0x10007\<rparr>], Burst 1 [\<lparr>mb_id = 3, rss = 0x20009\<rparr>], Read, Print]"

definition ex_mon :: "nat \<Rightarrow> (nat \<Rightarrow> 'b) \<Rightarrow> 'b mon_state" where
  "ex_mon n t = \<lparr>rings = replicate n 0, glob = 0, tbl = t, freed = []\<rparr>"


text \<open>A second burst of the probed bucket between the entry of the callback and its only read.\<close>

definition ex_probed_acts :: "act list" where
  "ex_probed_acts = [Burst 0 [\<lparr>mb_id = 1, rss = 0x1FEDE\<rparr>], Enter, Burst 0 [\<lparr>mb_id = 2, rss = 0x1FEDE\<rparr>], Read, Print]"


end
