(* ===== verification/Hash_Words.thy ===== *)
theory Hash_Words
  imports FW_Prelude
begin

text \<open>
  Words and memory of the two hash libraries that the Makefiles of the pthread, L-thread and
  Toeplitz programs link (\<^verbatim>\<open>murmur3.c\<close> and \<^verbatim>\<open>spooky.c\<close>): the rotations, little-endian reads of a
  byte array (a pointer is the list of bytes from it on), and straight-line code over an array of
  words as a list of assignments that \<open>exec\<close> performs in order. The lemmas show which of these
  assignments are permutations of the states, so that a mixing function built from them is one.
\<close>

section \<open>Rotations\<close>

definition rotl32 :: "u32 \<Rightarrow> nat \<Rightarrow> u32" where
  "rotl32 x r = push_bit r x OR drop_bit (32 - r) x"

definition rotl64 :: "u64 \<Rightarrow> nat \<Rightarrow> u64" where
  "rotl64 x r = push_bit r x OR drop_bit (64 - r) x"

lemma rotl32_inverse:
  assumes "0 < r" "r < 32"
  shows "rotl32 (rotl32 x r) (32 - r) = x"
  unfolding rotl32_def
proof (rule bit_word_eqI)
  fix n assume n: "n < LENGTH(32)"
  show "bit (push_bit (32 - r) (push_bit r x OR drop_bit (32 - r) x) OR
          drop_bit (32 - (32 - r)) (push_bit r x OR drop_bit (32 - r) x)) n = bit x n"
    using n assms
    by (cases "n < 32 - r") (auto simp: bit_simps not_less dest: bit_imp_le_length)
qed

lemma rotl64_inverse:
  assumes "0 < r" "r < 64"
  shows "rotl64 (rotl64 x r) (64 - r) = x"
  unfolding rotl64_def
proof (rule bit_word_eqI)
  fix n assume n: "n < LENGTH(64)"
  show "bit (push_bit (64 - r) (push_bit r x OR drop_bit (64 - r) x) OR
          drop_bit (64 - (64 - r)) (push_bit r x OR drop_bit (64 - r) x)) n = bit x n"
    using n assms
    by (cases "n < 64 - r") (auto simp: bit_simps not_less dest: bit_imp_le_length)
qed

lemma bij_rotl32: "0 < r \<Longrightarrow> r < 32 \<Longrightarrow> bij (\<lambda>x. rotl32 x r)"
  by (rule bij_betw_byWitness [where f' = "\<lambda>x. rotl32 x (32 - r)"])
     (use rotl32_inverse [of r] rotl32_inverse [of "32 - r"] in auto)

lemma bij_rotl64: "0 < r \<Longrightarrow> r < 64 \<Longrightarrow> bij (\<lambda>x. rotl64 x r)"
  by (rule bij_betw_byWitness [where f' = "\<lambda>x. rotl64 x (64 - r)"])
     (use rotl64_inverse [of r] rotl64_inverse [of "64 - r"] in auto)

section \<open>Reading memory\<close>

definition le32 :: "u8 list \<Rightarrow> u32" where
  "le32 p = ucast (p ! 0) OR push_bit 8 (ucast (p ! 1)) OR push_bit 16 (ucast (p ! 2))
     OR push_bit 24 (ucast (p ! 3))"

definition le64 :: "u8 list \<Rightarrow> u64" where
  "le64 p = ucast (p ! 0) OR push_bit 8 (ucast (p ! 1)) OR push_bit 16 (ucast (p ! 2))
     OR push_bit 24 (ucast (p ! 3)) OR push_bit 32 (ucast (p ! 4)) OR push_bit 40 (ucast (p ! 5))
     OR push_bit 48 (ucast (p ! 6)) OR push_bit 56 (ucast (p ! 7))"

text \<open>The \<open>i\<close>-th word of the array at \<open>p\<close>.\<close>

definition word32_at :: "u8 list \<Rightarrow> nat \<Rightarrow> u32" where
  "word32_at p i = le32 (drop (4 * i) p)"

definition word64_at :: "u8 list \<Rightarrow> nat \<Rightarrow> u64" where
  "word64_at p i = le64 (drop (8 * i) p)"

lemma le32_cong: "(\<And>k. k < 4 \<Longrightarrow> p ! k = q ! k) \<Longrightarrow> le32 p = le32 q"
  by (simp add: le32_def)

lemma le64_cong: "(\<And>k. k < 8 \<Longrightarrow> p ! k = q ! k) \<Longrightarrow> le64 p = le64 q"
  by (simp add: le64_def)

lemma word32_at_append: "4 * i + 4 \<le> length p \<Longrightarrow> word32_at (p @ q) i = word32_at p i"
  unfolding word32_at_def by (rule le32_cong) (auto simp: nth_append)

lemma word64_at_append: "8 * i + 8 \<le> length p \<Longrightarrow> word64_at (p @ q) i = word64_at p i"
  unfolding word64_at_def by (rule le64_cong) (auto simp: nth_append)

lemma le64_byte:
  assumes "k < 8"
  shows "p ! k = ucast (drop_bit (8 * k) (le64 p))"
proof -
  have "k = 0 \<or> k = 1 \<or> k = 2 \<or> k = 3 \<or> k = 4 \<or> k = 5 \<or> k = 6 \<or> k = 7"
    using assms by linarith
  then show ?thesis
    by (elim disjE; simp; intro bit_word_eqI; auto simp: le64_def bit_simps dest: bit_imp_le_length)
qed

lemma le64_inj:
  assumes "le64 p = le64 q" "length p = 8" "length q = 8"
  shows "p = q"
  using assms by (intro nth_equalityI) (simp_all add: le64_byte [of _ p] le64_byte [of _ q])

lemma le32_byte:
  assumes "k < 4"
  shows "p ! k = ucast (drop_bit (8 * k) (le32 p))"
proof -
  have "k = 0 \<or> k = 1 \<or> k = 2 \<or> k = 3"
    using assms by linarith
  then show ?thesis
    by (elim disjE; simp; intro bit_word_eqI; auto simp: le32_def bit_simps dest: bit_imp_le_length)
qed

lemma le32_inj:
  assumes "le32 p = le32 q" "length p = 4" "length q = 4"
  shows "p = q"
  using assms by (intro nth_equalityI) (simp_all add: le32_byte [of _ p] le32_byte [of _ q])

section \<open>Straight-line code over an array of words\<close>

definition exec :: "('s \<Rightarrow> 's) list \<Rightarrow> 's \<Rightarrow> 's" where
  "exec fs s = fold (\<lambda>f t. f t) fs s"

text \<open>A label of the \<^verbatim>\<open>switch\<close>: without a \<^verbatim>\<open>break\<close> before it, every higher value falls through it.\<close>

definition case_from :: "nat \<Rightarrow> nat \<Rightarrow> ('s \<Rightarrow> 's) \<Rightarrow> 's \<Rightarrow> 's" where
  "case_from n left f = (if n \<le> left then f else id)"

lemma case_from_cong: "(n \<le> left \<Longrightarrow> f = g) \<Longrightarrow> case_from n left f = case_from n left g"
  by (simp add: case_from_def)

text \<open>\<open>s[i] += w\<close>, \<open>s[i] += s[j]\<close>, \<open>s[i] ^= s[j]\<close> and \<open>s[i] = ROTL64(s[i], k)\<close>.\<close>

definition plus_word :: "nat \<Rightarrow> u64 \<Rightarrow> u64 list \<Rightarrow> u64 list" where
  "plus_word i w s = s[i := s ! i + w]"

definition plus_at :: "nat \<Rightarrow> nat \<Rightarrow> u64 list \<Rightarrow> u64 list" where
  "plus_at i j s = s[i := s ! i + s ! j]"

definition xor_at :: "nat \<Rightarrow> nat \<Rightarrow> u64 list \<Rightarrow> u64 list" where
  "xor_at i j s = s[i := s ! i XOR s ! j]"

definition rotl_at :: "nat \<Rightarrow> nat \<Rightarrow> u64 list \<Rightarrow> u64 list" where
  "rotl_at i k s = s[i := rotl64 (s ! i) k]"

lemma exec_simps [simp]: "exec [] s = s" "exec (f # fs) s = exec fs (f s)"
  by (simp_all add: exec_def)

lemma exec_append: "exec (fs @ gs) s = exec gs (exec fs s)"
  by (simp add: exec_def)

lemma assign_length [simp]:
  "length (plus_word i w s) = length s" "length (plus_at i j s) = length s"
  "length (xor_at i j s) = length s" "length (rotl_at i k s) = length s"
  by (simp_all add: plus_word_def plus_at_def xor_at_def rotl_at_def)

text \<open>The states of \<open>n\<close> words; an assignment that reads another cell is a permutation of them.\<close>

definition words_of :: "nat \<Rightarrow> u64 list set" where
  "words_of n = {s. length s = n}"

lemma bij_cell:
  assumes inv: "\<And>s x. g s (f s x) = x" "\<And>s x. f s (g s x) = x"
    and frame: "\<And>s y. f (s[i := y]) = f s" "\<And>s y. g (s[i := y]) = g s" and "i < n"
  shows "bij_betw (\<lambda>s. s[i := f s (s ! i)]) (words_of n) (words_of n)"
  by (rule bij_betw_byWitness [where f' = "\<lambda>s. s[i := g s (s ! i)]"])
     (use assms in \<open>auto simp: words_of_def\<close>)

lemma bij_plus_word: "i < n \<Longrightarrow> bij_betw (plus_word i w) (words_of n) (words_of n)"
  using bij_cell [of "\<lambda>_ x. x - w" "\<lambda>_ x. x + w" i n] by (simp add: plus_word_def [abs_def])

lemma bij_plus_at: "i < n \<Longrightarrow> i \<noteq> j \<Longrightarrow> bij_betw (plus_at i j) (words_of n) (words_of n)"
  using bij_cell [of "\<lambda>s x. x - s ! j" "\<lambda>s x. x + s ! j" i n]
  by (simp add: plus_at_def [abs_def])

lemma bij_xor_at: "i < n \<Longrightarrow> i \<noteq> j \<Longrightarrow> bij_betw (xor_at i j) (words_of n) (words_of n)"
  using bij_cell [of "\<lambda>s x. x XOR s ! j" "\<lambda>s x. x XOR s ! j" i n]
  by (simp add: xor_at_def [abs_def] xor.assoc)

lemma bij_rotl_at:
  "i < n \<Longrightarrow> 0 < k \<Longrightarrow> k < 64 \<Longrightarrow> bij_betw (rotl_at i k) (words_of n) (words_of n)"
  using bij_cell [of "\<lambda>_ x. rotl64 x (64 - k)" "\<lambda>_ x. rotl64 x k" i n]
    rotl64_inverse [of k] rotl64_inverse [of "64 - k"]
  by (simp add: rotl_at_def [abs_def])

text \<open>Permutations compose, so straight-line code of such assignments is a permutation.\<close>

lemma bij_exec:
  "(\<And>f. f \<in> set fs \<Longrightarrow> bij_betw f A A) \<Longrightarrow> bij_betw (exec fs) A A"
proof (induction fs)
  case Nil
  then show ?case by (simp add: bij_betw_def inj_on_def image_def)
next
  case (Cons f fs)
  have "bij_betw (exec fs \<circ> f) A A"
    by (rule bij_betw_trans [of f A A]) (use Cons in auto)
  then show ?case by (simp add: comp_def [abs_def] cong: bij_betw_cong)
qed

end
