(* ===== verification/Spooky.thy ===== *)
theory Spooky
  imports Hash_Words
begin

text \<open>
  SpookyHash (\<^verbatim>\<open>spooky.c\<close>, the same file in the \<^verbatim>\<open>toeplitz\<close>, \<^verbatim>\<open>pthread\<close> and \<^verbatim>\<open>lthread\<close> directories):
  the mixing functions as lists of assignments in the order of the source, the hash of short
  messages, the one-call hash, and the incremental interface over \<open>spooky_state\<close>. A message is the
  list of bytes from the pointer on together with the length argument of the C function. The C
  code reads words little-endian on every host (\<^verbatim>\<open>spooky_read_le64\<close>), and
  \<^verbatim>\<open>ALLOW_UNALIGNED_READS\<close> is 1, so the branches that copy unaligned blocks are not compiled in.
\<close>

section \<open>Constants and mixing\<close>

definition SC_CONST :: u64 where "SC_CONST = 0xDEADBEEFDEADBEEF"

definition SC_NUMVARS :: nat where "SC_NUMVARS = 12"

definition SC_BLOCKSIZE :: nat where "SC_BLOCKSIZE = 8 * SC_NUMVARS"

definition SC_BUFSIZE :: nat where "SC_BUFSIZE = 2 * SC_BLOCKSIZE"

definition spooky_read_le64 :: "u8 list \<Rightarrow> u64" where
  "spooky_read_le64 p = le64 p"

definition spooky_mix :: "u8 list \<Rightarrow> u64 list \<Rightarrow> u64 list" where
  "spooky_mix p =
    (let d = (\<lambda>i. spooky_read_le64 (drop (8 * i) p)) in exec
     [plus_word 0 (d 0), xor_at 2 10, xor_at 11 0, rotl_at 0 11, plus_at 11 1,
      plus_word 1 (d 1), xor_at 3 11, xor_at 0 1, rotl_at 1 32, plus_at 0 2,
      plus_word 2 (d 2), xor_at 4 0, xor_at 1 2, rotl_at 2 43, plus_at 1 3,
      plus_word 3 (d 3), xor_at 5 1, xor_at 2 3, rotl_at 3 31, plus_at 2 4,
      plus_word 4 (d 4), xor_at 6 2, xor_at 3 4, rotl_at 4 17, plus_at 3 5,
      plus_word 5 (d 5), xor_at 7 3, xor_at 4 5, rotl_at 5 28, plus_at 4 6,
      plus_word 6 (d 6), xor_at 8 4, xor_at 5 6, rotl_at 6 39, plus_at 5 7,
      plus_word 7 (d 7), xor_at 9 5, xor_at 6 7, rotl_at 7 57, plus_at 6 8,
      plus_word 8 (d 8), xor_at 10 6, xor_at 7 8, rotl_at 8 55, plus_at 7 9,
      plus_word 9 (d 9), xor_at 11 7, xor_at 8 9, rotl_at 9 54, plus_at 8 10,
      plus_word 10 (d 10), xor_at 0 8, xor_at 9 10, rotl_at 10 22, plus_at 9 11,
      plus_word 11 (d 11), xor_at 1 9, xor_at 10 11, rotl_at 11 46, plus_at 10 0])"

definition spooky_end_partial :: "u64 list \<Rightarrow> u64 list" where
  "spooky_end_partial = exec
     [plus_at 11 1, xor_at 2 11, rotl_at 1 44,
      plus_at 0 2, xor_at 3 0, rotl_at 2 15,
      plus_at 1 3, xor_at 4 1, rotl_at 3 34,
      plus_at 2 4, xor_at 5 2, rotl_at 4 21,
      plus_at 3 5, xor_at 6 3, rotl_at 5 38,
      plus_at 4 6, xor_at 7 4, rotl_at 6 33,
      plus_at 5 7, xor_at 8 5, rotl_at 7 10,
      plus_at 6 8, xor_at 9 6, rotl_at 8 13,
      plus_at 7 9, xor_at 10 7, rotl_at 9 38,
      plus_at 8 10, xor_at 11 8, rotl_at 10 53,
      plus_at 9 11, xor_at 0 9, rotl_at 11 42,
      plus_at 10 0, xor_at 1 10, rotl_at 0 54]"

definition spooky_end :: "u8 list \<Rightarrow> u64 list \<Rightarrow> u64 list" where
  "spooky_end p =
    (let d = (\<lambda>i. spooky_read_le64 (drop (8 * i) p)) in exec
     [plus_word 0 (d 0), plus_word 1 (d 1), plus_word 2 (d 2), plus_word 3 (d 3),
      plus_word 4 (d 4), plus_word 5 (d 5), plus_word 6 (d 6), plus_word 7 (d 7),
      plus_word 8 (d 8), plus_word 9 (d 9), plus_word 10 (d 10), plus_word 11 (d 11),
      spooky_end_partial, spooky_end_partial, spooky_end_partial])"

definition spooky_short_mix :: "u64 list \<Rightarrow> u64 list" where
  "spooky_short_mix = exec
     [rotl_at 2 50, plus_at 2 3, xor_at 0 2,
      rotl_at 3 52, plus_at 3 0, xor_at 1 3,
      rotl_at 0 30, plus_at 0 1, xor_at 2 0,
      rotl_at 1 41, plus_at 1 2, xor_at 3 1,
      rotl_at 2 54, plus_at 2 3, xor_at 0 2,
      rotl_at 3 48, plus_at 3 0, xor_at 1 3,
      rotl_at 0 38, plus_at 0 1, xor_at 2 0,
      rotl_at 1 37, plus_at 1 2, xor_at 3 1,
      rotl_at 2 62, plus_at 2 3, xor_at 0 2,
      rotl_at 3 34, plus_at 3 0, xor_at 1 3,
      rotl_at 0 5, plus_at 0 1, xor_at 2 0,
      rotl_at 1 36, plus_at 1 2, xor_at 3 1]"

definition spooky_short_end :: "u64 list \<Rightarrow> u64 list" where
  "spooky_short_end = exec
     [xor_at 3 2, rotl_at 2 15, plus_at 3 2,
      xor_at 0 3, rotl_at 3 52, plus_at 0 3,
      xor_at 1 0, rotl_at 0 26, plus_at 1 0,
      xor_at 2 1, rotl_at 1 51, plus_at 2 1,
      xor_at 3 2, rotl_at 2 28, plus_at 3 2,
      xor_at 0 3, rotl_at 3 9, plus_at 0 3,
      xor_at 1 0, rotl_at 0 47, plus_at 1 0,
      xor_at 2 1, rotl_at 1 54, plus_at 2 1,
      xor_at 3 2, rotl_at 2 32, plus_at 3 2,
      xor_at 0 3, rotl_at 3 25, plus_at 0 3,
      xor_at 1 0, rotl_at 0 63, plus_at 1 0]"

section \<open>Short messages\<close>

text \<open>One iteration of the loop over sets of 32 bytes, and the loop with its moving pointer.\<close>

definition short_block :: "u8 list \<Rightarrow> u64 list \<Rightarrow> u64 list" where
  "short_block p = exec
     [plus_word 2 (spooky_read_le64 p), plus_word 3 (spooky_read_le64 (drop 8 p)),
      spooky_short_mix,
      plus_word 0 (spooky_read_le64 (drop 16 p)), plus_word 1 (spooky_read_le64 (drop 24 p))]"

fun short_loop :: "nat \<Rightarrow> u8 list \<Rightarrow> u64 list \<Rightarrow> u8 list \<times> u64 list" where
  "short_loop 0 p h = (p, h)"
| "short_loop (Suc n) p h = short_loop n (drop 32 p) (short_block p h)"

text \<open>\<open>s[i] += (uint64_t) p[j] << k\<close>.\<close>

definition plus_byte :: "nat \<Rightarrow> nat \<Rightarrow> u8 list \<Rightarrow> nat \<Rightarrow> u64 list \<Rightarrow> u64 list" where
  "plus_byte i k p j s = s[i := s ! i + push_bit k (ucast (p ! j))]"

definition short_tail :: "nat \<Rightarrow> u8 list \<Rightarrow> u64 list \<Rightarrow> u64 list" where
  "short_tail left p =
    (if 8 \<le> left then exec
       [case_from 15 left (plus_byte 3 48 p 14),
        case_from 14 left (plus_byte 3 40 p 13),
        case_from 13 left (plus_byte 3 32 p 12),
        case_from 12 left (plus_byte 3 24 p 11),
        case_from 11 left (plus_byte 3 16 p 10),
        case_from 10 left (plus_byte 3 8 p 9),
        case_from 9 left (plus_byte 3 0 p 8),
        plus_word 2 (spooky_read_le64 p)]
     else if 1 \<le> left then exec
       [case_from 7 left (plus_byte 2 48 p 6),
        case_from 6 left (plus_byte 2 40 p 5),
        case_from 5 left (plus_byte 2 32 p 4),
        case_from 4 left (plus_byte 2 24 p 3),
        case_from 3 left (plus_byte 2 16 p 2),
        case_from 2 left (plus_byte 2 8 p 1),
        plus_byte 2 0 p 0]
     else exec [plus_word 2 SC_CONST, plus_word 3 SC_CONST])"

definition spooky_short :: "u8 list \<Rightarrow> u64 \<Rightarrow> u64 \<Rightarrow> u64 \<Rightarrow> u64 \<times> u64" where
  "spooky_short message len hash1 hash2 =
    (let left = unat (len mod 32);
         h = [hash1, hash2, SC_CONST, SC_CONST];
         (p, h, left) =
           (if 15 < len then
              let (p, h) = short_loop (unat (len div 32)) message h in
              if 16 \<le> left then
                (drop 16 p,
                 exec [plus_word 2 (spooky_read_le64 p), plus_word 3 (spooky_read_le64 (drop 8 p)),
                       spooky_short_mix] h, left - 16)
              else (p, h, left)
            else (message, h, left));
         h = plus_word 3 (push_bit 56 len) h;
         h = spooky_short_end (short_tail left p h)
     in (h ! 0, h ! 1))"

section \<open>The hash in one call\<close>

text \<open>The initial variables, the loop over whole blocks and the final partial block.\<close>

definition spooky_vars :: "u64 \<Rightarrow> u64 \<Rightarrow> u64 list" where
  "spooky_vars hash1 hash2 =
     [hash1, hash2, SC_CONST, hash1, hash2, SC_CONST, hash1, hash2, SC_CONST, hash1, hash2, SC_CONST]"

fun mix_loop :: "nat \<Rightarrow> u8 list \<Rightarrow> u64 list \<Rightarrow> u64 list" where
  "mix_loop 0 p h = h"
| "mix_loop (Suc n) p h = mix_loop n (drop SC_BLOCKSIZE p) (spooky_mix p h)"

text \<open>\<open>do { mix } while (p < end)\<close> where \<open>end\<close> is \<open>n\<close> blocks ahead: the body runs at least once.\<close>

definition do_mix_loop :: "nat \<Rightarrow> u8 list \<Rightarrow> u64 list \<Rightarrow> u64 list" where
  "do_mix_loop n p h = mix_loop (n - 1) (drop SC_BLOCKSIZE p) (spooky_mix p h)"

definition last_block :: "u8 list \<Rightarrow> nat \<Rightarrow> u8 list" where
  "last_block p left =
     (take left p @ replicate (SC_BLOCKSIZE - left) 0)[SC_BLOCKSIZE - 1 := of_nat left]"

definition spooky_hash128 :: "u8 list \<Rightarrow> u64 \<Rightarrow> u64 \<Rightarrow> u64 \<Rightarrow> u64 \<times> u64" where
  "spooky_hash128 message len hash1 hash2 =
    (if len < of_nat SC_BUFSIZE then spooky_short message len hash1 hash2
     else
       let n = unat (len div of_nat SC_BLOCKSIZE);
           h = do_mix_loop n message (spooky_vars hash1 hash2);
           left = unat len - n * SC_BLOCKSIZE;
           h = spooky_end (last_block (drop (n * SC_BLOCKSIZE) message) left) h
       in (h ! 0, h ! 1))"

definition spooky_hash64 :: "u8 list \<Rightarrow> u64 \<Rightarrow> u64 \<Rightarrow> u64" where
  "spooky_hash64 message len seed = fst (spooky_hash128 message len seed seed)"

definition spooky_hash32 :: "u8 list \<Rightarrow> u64 \<Rightarrow> u32 \<Rightarrow> u32" where
  "spooky_hash32 message len seed = ucast (fst (spooky_hash128 message len (ucast seed) (ucast seed)))"

section \<open>The incremental interface\<close>

record spooky_state =
  sp_data :: "u8 list"
  sp_state :: "u64 list"
  sp_length :: u64
  sp_left :: u8

definition spooky_init :: "spooky_state \<Rightarrow> u64 \<Rightarrow> u64 \<Rightarrow> spooky_state" where
  "spooky_init st seed1 seed2 =
     st\<lparr>sp_length := 0, sp_left := 0, sp_state := (sp_state st)[0 := seed1, 1 := seed2]\<rparr>"

text \<open>\<^verbatim>\<open>memcpy(&buf[i], src, n)\<close> with \<open>n\<close> the length of \<open>src\<close>.\<close>

definition memcpy_at :: "nat \<Rightarrow> 'a list \<Rightarrow> 'a list \<Rightarrow> 'a list" where
  "memcpy_at i src buf = take i buf @ src @ drop (i + length src) buf"

definition spooky_update :: "spooky_state \<Rightarrow> u8 list \<Rightarrow> u64 \<Rightarrow> spooky_state" where
  "spooky_update st message len =
    (let newLength = len + ucast (sp_left st) in
     if newLength < of_nat SC_BUFSIZE then
       st\<lparr>sp_data := memcpy_at (unat (sp_left st)) (take (unat len) message) (sp_data st),
          sp_length := len + sp_length st,
          sp_left := ucast newLength\<rparr>
     else
       let h = (if sp_length st < of_nat SC_BUFSIZE
                then spooky_vars (sp_state st ! 0) (sp_state st ! 1) else sp_state st);
           (buf, h, p, len') =
             (if sp_left st \<noteq> 0 then
                let prefix = of_nat SC_BUFSIZE - sp_left st;
                    buf = memcpy_at (unat (sp_left st)) (take (unat prefix) message) (sp_data st);
                    h = spooky_mix buf h;
                    h = spooky_mix (drop SC_BLOCKSIZE buf) h
                in (buf, h, drop (unat prefix) message, len - ucast prefix)
              else (sp_data st, h, message, len));
           n = unat (len' div of_nat SC_BLOCKSIZE);
           left = ucast (len' - of_nat (n * SC_BLOCKSIZE));
           h = mix_loop n p h
       in st\<lparr>sp_data := memcpy_at 0 (take (unat left) (drop (n * SC_BLOCKSIZE) p)) buf,
             sp_state := h,
             sp_length := len + sp_length st,
             sp_left := left\<rparr>)"

definition spooky_final :: "spooky_state \<Rightarrow> spooky_state \<times> u64 \<times> u64" where
  "spooky_final st =
    (if sp_length st < of_nat SC_BUFSIZE then
       (st, spooky_short (sp_data st) (sp_length st) (sp_state st ! 0) (sp_state st ! 1))
     else
       let left = unat (sp_left st);
           (off, left, h) =
             (if SC_BLOCKSIZE \<le> left
              then (SC_BLOCKSIZE, left - SC_BLOCKSIZE, spooky_mix (sp_data st) (sp_state st))
              else (0, left, sp_state st));
           buf = memcpy_at (off + left) (replicate (SC_BLOCKSIZE - left) 0) (sp_data st);
           buf = buf[off + SC_BLOCKSIZE - 1 := of_nat left];
           h = spooky_end (drop off buf) h
       in (st\<lparr>sp_data := buf\<rparr>, h ! 0, h ! 1))"

end
