(* ===== verification/Spooky_Correct.thy ===== *)
theory Spooky_Correct
  imports Spooky
begin

text \<open>
  SpookyHash: the mixing functions are permutations of their state, no function reads past the
  length it is given, and the incremental interface computes the one-call hash of the concatenated
  fragments (a simulation: a \<open>spooky_state\<close> stands for the message absorbed so far).
\<close>

section \<open>Mixing is a permutation of the state\<close>

lemmas bij_assign = bij_plus_word bij_plus_at bij_xor_at bij_rotl_at

lemma bij_spooky_mix: "bij_betw (spooky_mix p) (words_of 12) (words_of 12)"
  unfolding spooky_mix_def Let_def
  by (intro bij_exec) (auto intro!: bij_assign)

lemma bij_spooky_end_partial: "bij_betw spooky_end_partial (words_of 12) (words_of 12)"
  unfolding spooky_end_partial_def
  by (intro bij_exec) (auto intro!: bij_assign)

lemma bij_spooky_end: "bij_betw (spooky_end p) (words_of 12) (words_of 12)"
  unfolding spooky_end_def Let_def
  by (intro bij_exec) (auto intro!: bij_assign bij_spooky_end_partial)

lemma bij_spooky_short_mix: "bij_betw spooky_short_mix (words_of 4) (words_of 4)"
  unfolding spooky_short_mix_def
  by (intro bij_exec) (auto intro!: bij_assign)

lemma bij_spooky_short_end: "bij_betw spooky_short_end (words_of 4) (words_of 4)"
  unfolding spooky_short_end_def
  by (intro bij_exec) (auto intro!: bij_assign)

lemma spooky_mix_length [simp]: "length h = 12 \<Longrightarrow> length (spooky_mix p h) = 12"
  using bij_spooky_mix [of p] by (auto simp: bij_betw_def words_of_def)

lemma mix_loop_length [simp]: "length h = 12 \<Longrightarrow> length (mix_loop n p h) = 12"
  by (induction n arbitrary: p h) auto

lemma spooky_vars_length [simp]: "length (spooky_vars a b) = 12"
  by (simp add: spooky_vars_def)

lemma bij_mix_loop: "bij_betw (mix_loop n p) (words_of 12) (words_of 12)"
proof (induction n arbitrary: p)
  case 0
  then show ?case by (simp add: bij_betw_def inj_on_def image_def)
next
  case (Suc n)
  have "bij_betw (mix_loop n (drop SC_BLOCKSIZE p) \<circ> spooky_mix p) (words_of 12) (words_of 12)"
    by (rule bij_betw_trans [OF bij_spooky_mix Suc.IH])
  then show ?case by (simp add: comp_def cong: bij_betw_cong)
qed

section \<open>Reading inside the message\<close>

lemmas sc_sizes = SC_NUMVARS_def SC_BLOCKSIZE_def SC_BUFSIZE_def

lemma read_append:
  "8 * i + 8 \<le> length p \<Longrightarrow> spooky_read_le64 (drop (8 * i) (p @ q)) = spooky_read_le64 (drop (8 * i) p)"
  using word64_at_append [of i p q] by (simp only: spooky_read_le64_def word64_at_def)

lemma read_append':
  "j + 8 \<le> length p \<Longrightarrow> spooky_read_le64 (drop j (p @ q)) = spooky_read_le64 (drop j p)"
  unfolding spooky_read_le64_def by (rule le64_cong) (auto simp: nth_append)

lemma spooky_mix_append: "96 \<le> length p \<Longrightarrow> spooky_mix (p @ q) = spooky_mix p"
  unfolding spooky_mix_def Let_def by (simp only: read_append)

lemma spooky_end_append: "96 \<le> length p \<Longrightarrow> spooky_end (p @ q) = spooky_end p"
  unfolding spooky_end_def Let_def by (simp only: read_append)

lemma mix_loop_append: "96 * n \<le> length p \<Longrightarrow> mix_loop n (p @ q) h = mix_loop n p h"
  by (induction n arbitrary: p h) (auto simp: spooky_mix_append sc_sizes)

lemma mix_loop_add: "mix_loop (n + k) p h = mix_loop k (drop (96 * n) p) (mix_loop n p h)"
  by (induction n arbitrary: p h) (auto simp: sc_sizes add.commute)

lemma do_mix_loop: "0 < n \<Longrightarrow> do_mix_loop n = mix_loop n"
  by (cases n) (auto simp: do_mix_loop_def fun_eq_iff)

lemma short_block_append: "32 \<le> length p \<Longrightarrow> short_block (p @ q) = short_block p"
  unfolding short_block_def
  using read_append' [of 0 p q] read_append' [of 8 p q] read_append' [of 16 p q]
    read_append' [of 24 p q]
  by simp

lemma short_loop_append:
  "32 * n \<le> length p \<Longrightarrow>
   short_loop n (p @ q) h = (fst (short_loop n p h) @ q, snd (short_loop n p h))"
  by (induction n arbitrary: p h) (auto simp: short_block_append)

lemma short_loop_rest: "fst (short_loop n p h) = drop (32 * n) p"
  by (induction n arbitrary: p h) (auto simp: add.commute)

lemma plus_byte_append: "j < length p \<Longrightarrow> plus_byte i k (p @ q) j = plus_byte i k p j"
  by (auto simp: plus_byte_def nth_append)

lemma short_tail_append:
  assumes "left \<le> length p"
  shows "short_tail left (p @ q) = short_tail left p"
proof -
  have b: "case_from n left (plus_byte i k (p @ q) j) = case_from n left (plus_byte i k p j)"
    if "j < n" for n i k j
    by (rule case_from_cong, rule plus_byte_append) (use that assms in auto)
  have r: "8 \<le> left \<Longrightarrow> spooky_read_le64 (p @ q) = spooky_read_le64 p"
    using read_append' [of 0 p q] assms by simp
  have z: "1 \<le> left \<Longrightarrow> plus_byte i k (p @ q) 0 = plus_byte i k p 0" for i k
    by (rule plus_byte_append) (use assms in auto)
  show ?thesis
    unfolding short_tail_def by (simp add: b r z fun_eq_iff)
qed

lemma unat_le_of_nat: "n < 2 ^ 64 \<Longrightarrow> unat (of_nat n :: u64) = n"
  by (rule unat_of_nat_small) simp

lemma ucast_u8_of_nat: "ucast (of_nat n :: u64) = (of_nat n :: u8)"
  by (simp add: unsigned_of_nat word_of_nat_eq_iff)

lemma u64_of_nat:
  assumes "n < 2 ^ 64"
  shows "unat (of_nat n div 32 :: u64) = n div 32" "unat (of_nat n mod 32 :: u64) = n mod 32"
    "unat (of_nat n div 96 :: u64) = n div 96"
    "(15 :: u64) < of_nat n \<longleftrightarrow> 15 < n" "(of_nat n :: u64) < 192 \<longleftrightarrow> n < 192"
  using unat_le_of_nat [OF assms] by (simp_all add: unat_div unat_mod word_less_nat_alt)

text \<open>The pointer and the count of remaining bytes when the \<^verbatim>\<open>switch\<close> is reached.\<close>

definition short_body :: "u8 list \<Rightarrow> nat \<Rightarrow> u64 list \<Rightarrow> u8 list \<times> u64 list \<times> nat" where
  "short_body message n h =
    (if 15 < n then
       let (p, h) = short_loop (n div 32) message h in
       if 16 \<le> n mod 32 then
         (drop 16 p,
          exec [plus_word 2 (spooky_read_le64 p), plus_word 3 (spooky_read_le64 (drop 8 p)),
                spooky_short_mix] h, n mod 32 - 16)
       else (p, h, n mod 32)
     else (message, h, n mod 32))"

lemma spooky_short_body:
  assumes "n < 2 ^ 64"
  shows "spooky_short message (of_nat n) hash1 hash2 =
    (let (p, h, left) = short_body message n [hash1, hash2, SC_CONST, SC_CONST];
         h = spooky_short_end (short_tail left p (plus_word 3 (push_bit 56 (of_nat n)) h))
     in (h ! 0, h ! 1))"
  unfolding spooky_short_def short_body_def Let_def u64_of_nat [OF assms] by simp

lemma short_body_append:
  assumes "length m = n"
  shows "short_body (m @ r) n h =
    (fst (short_body m n h) @ r, snd (short_body m n h))"
    and "snd (snd (short_body m n h)) \<le> length (fst (short_body m n h))"
proof -
  have d: "32 * (n div 32) + n mod 32 = n" by simp
  have l: "32 * (n div 32) \<le> length m" using d assms by linarith
  have p: "length (fst (short_loop (n div 32) m h)) = n mod 32"
    by (simp add: short_loop_rest assms minus_mult_div_eq_mod)
  have r: "16 \<le> length p \<Longrightarrow> spooky_read_le64 (p @ r) = spooky_read_le64 p"
    "16 \<le> length p \<Longrightarrow> spooky_read_le64 (drop 8 p @ r) = spooky_read_le64 (drop 8 p)" for p
    using read_append' [of 0 p r] read_append' [of 8 p r] by simp_all
  show "short_body (m @ r) n h = (fst (short_body m n h) @ r, snd (short_body m n h))"
    using p unfolding short_body_def
    by (simp add: short_loop_append [OF l] r split: prod.split)
  show "snd (snd (short_body m n h)) \<le> length (fst (short_body m n h))"
    using p assms unfolding short_body_def by (auto split: prod.split)
qed

lemma spooky_short_append:
  assumes "length m = n" "n < 2 ^ 64"
  shows "spooky_short (m @ r) (of_nat n) = spooky_short m (of_nat n)"
proof (intro ext)
  fix a b
  obtain p h left where b: "short_body m n [a, b, SC_CONST, SC_CONST] = (p, h, left)"
    by (cases "short_body m n [a, b, SC_CONST, SC_CONST]") auto
  show "spooky_short (m @ r) (of_nat n) a b = spooky_short m (of_nat n) a b"
    using short_body_append [OF assms(1), where h = "[a, b, SC_CONST, SC_CONST]"]
    by (simp add: spooky_short_body [OF assms(2)] b short_tail_append Let_def)
qed

section \<open>The incremental interface absorbs the message\<close>

text \<open>
  \<open>absorbed st m seed1 seed2\<close>: the state stands for the message \<open>m\<close>. Its whole blocks up to block \<open>n\<close>
  are mixed into the variables (none as long as the message is short: the variables then still hold
  the seeds), and the rest is stashed in the data buffer.
\<close>

definition absorbed :: "spooky_state \<Rightarrow> u8 list \<Rightarrow> u64 \<Rightarrow> u64 \<Rightarrow> bool" where
  "absorbed st m seed1 seed2 \<longleftrightarrow>
     length (sp_data st) = 192 \<and> length (sp_state st) = 12 \<and> length m < 2 ^ 64 \<and>
     sp_length st = of_nat (length m) \<and> unat (sp_left st) < 192 \<and>
     (let n = (length m - unat (sp_left st)) div 96 in
      length m = 96 * n + unat (sp_left st) \<and>
      take (unat (sp_left st)) (sp_data st) = drop (96 * n) m \<and>
      (if length m < 192 then n = 0 \<and> sp_state st ! 0 = seed1 \<and> sp_state st ! 1 = seed2
       else sp_state st = mix_loop n m (spooky_vars seed1 seed2)))"

lemma absorbedI:
  assumes "length (sp_data st) = 192" "length (sp_state st) = 12" "length m < 2 ^ 64"
    and "sp_length st = of_nat (length m)" "unat (sp_left st) < 192"
    and "length m = 96 * n + unat (sp_left st)"
    and "take (unat (sp_left st)) (sp_data st) = drop (96 * n) m"
    and "if length m < 192 then n = 0 \<and> sp_state st ! 0 = seed1 \<and> sp_state st ! 1 = seed2
         else sp_state st = mix_loop n m (spooky_vars seed1 seed2)"
  shows "absorbed st m seed1 seed2"
proof -
  have "(length m - unat (sp_left st)) div 96 = n" using assms(6) by simp
  then show ?thesis using assms unfolding absorbed_def by simp
qed

lemma absorbedE:
  assumes "absorbed st m seed1 seed2"
  obtains n where "length (sp_data st) = 192" "length (sp_state st) = 12" "length m < 2 ^ 64"
    "sp_length st = of_nat (length m)" "unat (sp_left st) < 192"
    "length m = 96 * n + unat (sp_left st)"
    "take (unat (sp_left st)) (sp_data st) = drop (96 * n) m"
    "if length m < 192 then n = 0 \<and> sp_state st ! 0 = seed1 \<and> sp_state st ! 1 = seed2
     else sp_state st = mix_loop n m (spooky_vars seed1 seed2)"
  using assms unfolding absorbed_def Let_def by blast

lemma absorbed_init:
  assumes "length (sp_data st) = 192" "length (sp_state st) = 12"
  shows "absorbed (spooky_init st seed1 seed2) [] seed1 seed2"
  by (rule absorbedI [where n = 0]) (use assms in \<open>auto simp: spooky_init_def\<close>)

lemma memcpy_at_length:
  "i + length src \<le> length buf \<Longrightarrow> length (memcpy_at i src buf) = length buf"
  by (simp add: memcpy_at_def)

lemma memcpy_at_take:
  "i \<le> length buf \<Longrightarrow> take (i + length src) (memcpy_at i src buf) = take i buf @ src"
  by (simp add: memcpy_at_def)

text \<open>A fragment that still fits the buffer is stashed.\<close>

lemma absorbed_stash:
  assumes abs: "absorbed st m seed1 seed2"
    and fits: "unat (sp_left st) + length p < 192" "length m + length p < 2 ^ 64"
  shows "absorbed (spooky_update st p (of_nat (length p))) (m @ p) seed1 seed2"
proof -
  obtain n where st: "length (sp_data st) = 192" "length (sp_state st) = 12" "length m < 2 ^ 64"
    "sp_length st = of_nat (length m)" "unat (sp_left st) < 192"
    "length m = 96 * n + unat (sp_left st)"
    "take (unat (sp_left st)) (sp_data st) = drop (96 * n) m"
    and vars: "if length m < 192 then n = 0 \<and> sp_state st ! 0 = seed1 \<and> sp_state st ! 1 = seed2
     else sp_state st = mix_loop n m (spooky_vars seed1 seed2)"
    using abs by (rule absorbedE)
  define l where "l = unat (sp_left st)"
  have left: "sp_left st = of_nat l" by (simp add: l_def)
  have nl: "of_nat (length p) + ucast (sp_left st) = (of_nat (l + length p) :: u64)"
    by (simp add: l_def)
  have lt: "(of_nat (l + length p) :: u64) < of_nat SC_BUFSIZE"
    using u64_of_nat(5) [of "l + length p"] fits by (simp add: sc_sizes l_def)
  have len: "of_nat (length p) + sp_length st = of_nat (length (m @ p))"
    using st(4) by simp
  have upd: "spooky_update st p (of_nat (length p)) =
    st\<lparr>sp_data := memcpy_at l p (sp_data st), sp_length := of_nat (length (m @ p)),
       sp_left := of_nat (l + length p)\<rparr>"
    using lt fits unat_le_of_nat [of "length p"]
    unfolding spooky_update_def Let_def nl len l_def [symmetric]
    by (simp add: ucast_u8_of_nat del: of_nat_add)
  have l': "unat (of_nat (l + length p) :: u8) = l + length p"
    by (rule unat_of_nat_small) (use fits in \<open>simp add: l_def\<close>)
  show ?thesis
    unfolding upd
    by (rule absorbedI [where n = n])
       (use st vars fits in \<open>auto simp: l' memcpy_at_length memcpy_at_take mix_loop_append
          l_def [symmetric] simp del: of_nat_add split: if_splits\<close>)
qed

text \<open>
  Once everything up to a block boundary is mixed, the loop over whole blocks and the stashing of
  the last bytes leave a state that stands for the whole message.
\<close>

lemma absorbed_blocks:
  assumes split: "m = m' @ p'" "length m' = 96 * n'" and long: "192 \<le> length m" "length m < 2 ^ 64"
    and buf: "length buf = 192"
  shows "absorbed (st\<lparr>
      sp_data := memcpy_at 0 (take (length p' mod 96) (drop (length p' div 96 * 96) p')) buf,
      sp_state := mix_loop (length p' div 96) p' (mix_loop n' m' (spooky_vars seed1 seed2)),
      sp_length := of_nat (length m),
      sp_left := of_nat (length p' mod 96)\<rparr>) m seed1 seed2"
proof -
  define k where "k = length p' div 96"
  define l where "l = length p' mod 96"
  have p': "length p' = 96 * k + l" "l < 96" by (simp_all add: k_def l_def)
  have l: "unat (of_nat l :: u8) = l"
    by (rule unat_of_nat_small) (use p'(2) in simp)
  have rest: "length (drop (k * 96) p') = l" using p'(1) by simp
  have mix: "mix_loop k p' (mix_loop n' m' v) = mix_loop (n' + k) m v" for v
    using split by (simp add: mix_loop_add mix_loop_append)
  have tail: "drop (96 * (n' + k)) m = drop (k * 96) p'"
    using split by (simp add: algebra_simps)
  have cpy: "take l (memcpy_at 0 (drop (k * 96) p') buf) = drop (k * 96) p'"
    using memcpy_at_take [of 0 buf "drop (k * 96) p'"] by (simp add: rest del: length_drop)
  have "length (memcpy_at 0 (drop (k * 96) p') buf) = 192"
    using memcpy_at_length [of 0 "drop (k * 96) p'" buf] buf p'(2) by (simp add: rest del: length_drop)
  then show ?thesis
    unfolding k_def [symmetric] l_def [symmetric] mix
    by (intro absorbedI [where n = "n' + k"])
       (use split long p' l rest tail cpy in \<open>simp_all add: take_all\<close>)
qed

lemma spooky_update_blocks:
  assumes big: "192 \<le> unat (sp_left st) + length p" and small: "unat (sp_left st) < 192"
    and total: "length p + 192 < 2 ^ 64"
    and data: "length (sp_data st) = 192"
  defines "h0 \<equiv> (if sp_length st < 192 then spooky_vars (sp_state st ! 0) (sp_state st ! 1)
                 else sp_state st)"
    and "l \<equiv> unat (sp_left st)"
  defines "buf \<equiv> take l (sp_data st) @ take (192 - l) p"
  defines "p' \<equiv> (if l = 0 then p else drop (192 - l) p)"
  shows "spooky_update st p (of_nat (length p)) = st\<lparr>
      sp_data := memcpy_at 0 (take (length p' mod 96) (drop (length p' div 96 * 96) p'))
                   (if l = 0 then sp_data st else buf),
      sp_state := mix_loop (length p' div 96) p' (if l = 0 then h0 else mix_loop 2 buf h0),
      sp_length := of_nat (length p) + sp_length st,
      sp_left := of_nat (length p' mod 96)\<rparr>"
proof -
  have nl: "of_nat (length p) + ucast (sp_left st) = (of_nat (l + length p) :: u64)"
    by (simp add: l_def)
  have big': "\<not> (of_nat (l + length p) :: u64) < 192"
    using u64_of_nat(5) [of "l + length p"] big small total by (simp add: l_def)
  have prefix: "unat (192 - sp_left st) = 192 - l" if "l \<noteq> 0"
    using small by (simp add: l_def unat_sub word_le_nat_alt)
  have len: "(of_nat (length p) - ucast (192 - sp_left st) :: u64) = of_nat (length p')" if "l \<noteq> 0"
  proof -
    have "(ucast (192 - sp_left st) :: u64) = of_nat (192 - l)"
      using prefix [OF that] by (metis of_nat_unat)
    moreover have "192 - l \<le> length p" using big by (simp add: l_def)
    ultimately show ?thesis using that by (simp add: p'_def of_nat_diff)
  qed
  have pl: "length p' < 2 ^ 64" using total by (simp add: p'_def) linarith
  have left: "(ucast (of_nat (length p') - of_nat (length p' div 96 * 96) :: u64) :: u8)
      = of_nat (length p' mod 96)"
    using ucast_u8_of_nat [of "length p' - length p' div 96 * 96"]
    by (simp add: of_nat_diff modulo_nat_def)
  have leftn: "unat (of_nat (length p' mod 96) :: u8) = length p' mod 96"
    by (rule unat_of_nat_small) simp
  have n: "unat (of_nat (length p') div of_nat SC_BLOCKSIZE :: u64) = length p' div 96"
    using u64_of_nat(3) [OF pl] by (simp add: sc_sizes)
  have sz: "SC_BLOCKSIZE = 96" "of_nat SC_BUFSIZE = (192 :: u64)" "of_nat SC_BUFSIZE = (192 :: u8)"
    by (simp_all add: sc_sizes)
  show ?thesis
  proof (cases "l = 0")
    case True
    then have z: "sp_left st = 0" by (simp add: l_def unat_eq_zero)
    have p': "p' = p" using True by (simp add: p'_def)
    show ?thesis
      unfolding spooky_update_def Let_def nl sz h0_def [symmetric]
      using big' z True n [unfolded p' sz] left [unfolded p'] leftn [unfolded p']
      by (simp add: p' del: of_nat_add of_nat_mult of_nat_unat)
  next
    case False
    then have z: "sp_left st \<noteq> 0" by (auto simp: l_def)
    have p': "drop (192 - l) p = p'" using False by (simp add: p'_def)
    have cpy: "memcpy_at l (take (192 - l) p) (sp_data st) = buf"
      using big small data by (simp add: memcpy_at_def buf_def l_def)
    show ?thesis
      unfolding spooky_update_def Let_def nl sz h0_def [symmetric]
      using big' z False n [unfolded sz] left leftn len [OF False] prefix [OF False]
      by (simp add: p' cpy l_def [symmetric] numeral_2_eq_2 sz del: of_nat_add of_nat_mult of_nat_unat)
  qed
qed

text \<open>Every fragment is absorbed.\<close>

lemma absorbed_update:
  assumes abs: "absorbed st m seed1 seed2" and total: "length m + length p + 192 < 2 ^ 64"
  shows "absorbed (spooky_update st p (of_nat (length p))) (m @ p) seed1 seed2"
proof (cases "unat (sp_left st) + length p < 192")
  case True
  then show ?thesis by (rule absorbed_stash [OF abs]) (use total in simp)
next
  case False
  define l where "l = unat (sp_left st)"
  obtain n where st: "length (sp_data st) = 192" "sp_length st = of_nat (length m)" "l < 192"
    "length m = 96 * n + l" "take l (sp_data st) = drop (96 * n) m"
    and vars: "if length m < 192 then n = 0 \<and> sp_state st ! 0 = seed1 \<and> sp_state st ! 1 = seed2
     else sp_state st = mix_loop n m (spooky_vars seed1 seed2)"
    using abs unfolding l_def by (rule absorbedE)
  have "sp_length st < 192 \<longleftrightarrow> length m < 192"
    using u64_of_nat(5) [of "length m"] total st(2) by simp
  then have h0: "(if sp_length st < 192 then spooky_vars (sp_state st ! 0) (sp_state st ! 1)
      else sp_state st) = mix_loop n m (spooky_vars seed1 seed2)"
    using vars by (auto split: if_splits)
  define m' where "m' = (if l = 0 then m else m @ take (192 - l) p)"
  define p' where "p' = (if l = 0 then p else drop (192 - l) p)"
  define n' where "n' = (if l = 0 then n else n + 2)"
  define buf where "buf = (if l = 0 then sp_data st else take l (sp_data st) @ take (192 - l) p)"
  have long: "192 \<le> l + length p" using False by (simp add: l_def)
  have buf: "length buf = 192" using st(1,3) long by (simp add: buf_def)
  have m': "m @ p = m' @ p'" "length m' = 96 * n'"
    using st(3,4) long by (simp_all add: m'_def p'_def n'_def)
  have mix: "(if l = 0 then mix_loop n m v else
      mix_loop 2 (take l (sp_data st) @ take (192 - l) p) (mix_loop n m v)) = mix_loop n' m' v" for v
    using st(4,5) mix_loop_add [of n 2 "m @ take (192 - l) p" v]
    by (simp add: n'_def m'_def mix_loop_append del: add_2_eq_Suc')
  have upd: "spooky_update st p (of_nat (length p)) = st\<lparr>
      sp_data := memcpy_at 0 (take (length p' mod 96) (drop (length p' div 96 * 96) p')) buf,
      sp_state := mix_loop (length p' div 96) p' (mix_loop n' m' (spooky_vars seed1 seed2)),
      sp_length := of_nat (length (m @ p)),
      sp_left := of_nat (length p' mod 96)\<rparr>"
    using spooky_update_blocks [of st p, folded l_def, unfolded h0 mix, folded p'_def buf_def]
      long st(1,2,3) total
    by (simp add: add.commute)
  show ?thesis
    unfolding upd
    by (rule absorbed_blocks [OF m']) (use st(4) long total buf in simp_all)
qed

text \<open>Finishing reads the state without disturbing it.\<close>

lemma spooky_hash128_nat:
  assumes "n < 2 ^ 64"
  shows "spooky_hash128 m (of_nat n) a b =
    (if n < 192 then spooky_short m (of_nat n) a b
     else let h = spooky_end (last_block (drop (96 * (n div 96)) m) (n mod 96))
                    (mix_loop (n div 96) m (spooky_vars a b)) in (h ! 0, h ! 1))"
proof -
  have "n - n div 96 * 96 = n mod 96" by (simp add: modulo_nat_def)
  then show ?thesis
    unfolding spooky_hash128_def Let_def
    using u64_of_nat(3,5) [OF assms] unat_le_of_nat [OF assms]
    by (simp add: sc_sizes do_mix_loop mult.commute)
qed

lemma final_block:
  assumes buf: "length buf = 192" and off: "off = 0 \<or> off = 96" and left: "left < 96"
    and tail: "take left (drop off buf) = t" "length t = left"
  defines "buf' \<equiv> (memcpy_at (off + left) (replicate (96 - left) 0) buf)[off + 95 := of_nat left]"
  shows "drop off buf' = last_block t left @ drop (off + 96) buf"
    and "take (off + left) buf' = take (off + left) buf" and "length buf' = 192"
proof -
  have "take (off + left) buf = take off buf @ t"
    using tail by (simp add: take_add)
  then have b: "memcpy_at (off + left) (replicate (96 - left) 0) buf =
      take off buf @ (t @ replicate (96 - left) 0) @ drop (off + 96) buf"
    using left by (simp add: memcpy_at_def)
  have o: "length (take off buf) = off" using buf off by auto
  show "drop off buf' = last_block t left @ drop (off + 96) buf"
    using o left tail(2)
    by (simp add: buf'_def b list_update_append last_block_def sc_sizes)
  show "take (off + left) buf' = take (off + left) buf"
    using left off buf by (auto simp: buf'_def memcpy_at_def)
  show "length buf' = 192"
    using left off buf by (auto simp: buf'_def memcpy_at_def)
qed

lemma absorbed_final:
  assumes abs: "absorbed st m seed1 seed2"
  shows "snd (spooky_final st) = spooky_hash128 m (of_nat (length m)) seed1 seed2"
    and "absorbed (fst (spooky_final st)) m seed1 seed2"
proof -
  define l where "l = unat (sp_left st)"
  obtain n where st: "length (sp_data st) = 192" "length (sp_state st) = 12" "length m < 2 ^ 64"
    "sp_length st = of_nat (length m)" "l < 192"
    "length m = 96 * n + l" "take l (sp_data st) = drop (96 * n) m"
    and vars: "if length m < 192 then n = 0 \<and> sp_state st ! 0 = seed1 \<and> sp_state st ! 1 = seed2
     else sp_state st = mix_loop n m (spooky_vars seed1 seed2)"
    using abs unfolding l_def by (rule absorbedE)
  have short: "sp_length st < of_nat SC_BUFSIZE \<longleftrightarrow> length m < 192"
    using u64_of_nat(5) [OF st(3)] st(4) by (simp add: sc_sizes)
  have "snd (spooky_final st) = spooky_hash128 m (of_nat (length m)) seed1 seed2 \<and> absorbed (fst (spooky_final st)) m seed1 seed2"
  proof (cases "length m < 192")
    case True
    then have "sp_data st = m @ drop l (sp_data st)"
      using st(6,7) vars append_take_drop_id [of l "sp_data st"] by simp
    then have "spooky_short (sp_data st) (of_nat (length m)) = spooky_short m (of_nat (length m))"
      using spooky_short_append [of m "length m" "drop l (sp_data st)"] st(3) by simp
    then show ?thesis
      using True short vars st(4) abs unfolding spooky_final_def
      by (simp add: spooky_hash128_nat [OF st(3)])
  next
    case False
    define off where "off = (if 96 \<le> l then 96 else 0 :: nat)"
    define left where "left = l - off"
    define buf' where
      "buf' = (memcpy_at (off + left) (replicate (96 - left) 0) (sp_data st))[off + 95 := of_nat left]"
    have lt: "left < 96" "off + left = l" "off = 0 \<or> off = 96" "left \<le> l"
      using st(5) by (auto simp: off_def left_def)
    have nm: "n + off div 96 = length m div 96" "left = length m mod 96"
      using st(5,6) by (auto simp: off_def left_def le_mod_geq)
    have t: "take left (drop off (sp_data st)) = drop (96 * (length m div 96)) m"
    proof -
      have "96 * (length m div 96) = off + 96 * n" using nm(1) lt(3) by auto
      then show ?thesis
        using arg_cong [OF st(7), of "drop off"] by (simp add: drop_take left_def)
    qed
    have tl: "length (drop (96 * (length m div 96)) m) = left"
      by (simp add: nm(2) minus_mult_div_eq_mod)
    note blk = final_block [OF st(1) lt(3) lt(1) t tl, folded buf'_def]
    have vars': "sp_state st = mix_loop n m (spooky_vars seed1 seed2)" using vars False by simp
    have mixed: "(if 96 \<le> l then spooky_mix (sp_data st) (sp_state st) else sp_state st)
        = mix_loop (length m div 96) m (spooky_vars seed1 seed2)"
    proof (cases "96 \<le> l")
      case True
      have "sp_data st = drop (96 * n) m @ drop l (sp_data st)"
        using st(7) append_take_drop_id [of l "sp_data st"] by simp
      moreover have "96 \<le> length (drop (96 * n) m)" using True st(6) by simp
      ultimately have "spooky_mix (sp_data st) = spooky_mix (drop (96 * n) m)"
        by (metis spooky_mix_append)
      then show ?thesis
        using True vars' nm(1) mix_loop_add [of n 1 m] by (simp add: off_def)
    next
      case False
      then show ?thesis using vars' nm(1) by (simp add: off_def)
    qed
    have lb: "spooky_end (last_block (drop (96 * (length m div 96)) m) left @ r)
        = spooky_end (last_block (drop (96 * (length m div 96)) m) left)" for r
      by (rule spooky_end_append) (use lt(1) tl in \<open>simp add: last_block_def sc_sizes\<close>)
    have fin: "spooky_final st = (st\<lparr>sp_data := buf'\<rparr>,
       let h = spooky_end (last_block (drop (96 * (length m div 96)) m) left)
                 (mix_loop (length m div 96) m (spooky_vars seed1 seed2)) in (h ! 0, h ! 1))"
      using False short blk(1) lt(4) mixed lb
      unfolding spooky_final_def Let_def l_def [symmetric]
      by (auto simp: sc_sizes off_def left_def buf'_def split: if_splits)
    show ?thesis
    proof
      show "snd (spooky_final st) = spooky_hash128 m (of_nat (length m)) seed1 seed2"
        using False nm(2) by (simp add: fin spooky_hash128_nat [OF st(3)] Let_def)
      show "absorbed (fst (spooky_final st)) m seed1 seed2"
        unfolding fin fst_conv
        by (rule absorbedI [where n = n])
           (use st blk(2,3) vars' False lt(2) in \<open>simp_all add: l_def [symmetric]\<close>)
    qed
  qed
  then show "snd (spooky_final st) = spooky_hash128 m (of_nat (length m)) seed1 seed2"
    and "absorbed (fst (spooky_final st)) m seed1 seed2" by simp_all
qed

section \<open>Properties\<close>

text \<open>A client's calls on one state: a fragment, or a request for the hash so far.\<close>

datatype spooky_call = Feed "u8 list" | Report

primrec spooky_session :: "spooky_call list \<Rightarrow> spooky_state \<Rightarrow> (u64 \<times> u64) list" where
  "spooky_session [] st = []"
| "spooky_session (c # cs) st = (case c of
     Feed p \<Rightarrow> spooky_session cs (spooky_update st p (of_nat (length p)))
   | Report \<Rightarrow> snd (spooky_final st) # spooky_session cs (fst (spooky_final st)))"

text \<open>What it promises: every report is the one-call hash of all bytes fed before it.\<close>

primrec spooky_spec :: "u64 \<Rightarrow> u64 \<Rightarrow> spooky_call list \<Rightarrow> u8 list \<Rightarrow> (u64 \<times> u64) list" where
  "spooky_spec seed1 seed2 [] m = []"
| "spooky_spec seed1 seed2 (c # cs) m = (case c of
     Feed p \<Rightarrow> spooky_spec seed1 seed2 cs (m @ p)
   | Report \<Rightarrow> spooky_hash128 m (of_nat (length m)) seed1 seed2 # spooky_spec seed1 seed2 cs m)"

primrec fed :: "spooky_call list \<Rightarrow> nat" where
  "fed [] = 0"
| "fed (c # cs) = (case c of Feed p \<Rightarrow> length p | Report \<Rightarrow> 0) + fed cs"

lemma session_absorbed:
  "absorbed st m seed1 seed2 \<Longrightarrow> length m + fed cs + 192 < 2 ^ 64 \<Longrightarrow>
   spooky_session cs st = spooky_spec seed1 seed2 cs m"
proof (induction cs arbitrary: st m)
  case Nil
  then show ?case by simp
next
  case (Cons c cs)
  show ?case
  proof (cases c)
    case (Feed p)
    have "absorbed (spooky_update st p (of_nat (length p))) (m @ p) seed1 seed2"
      by (rule absorbed_update [OF Cons.prems(1)]) (use Cons.prems(2) Feed in simp)
    then show ?thesis using Cons.IH Cons.prems(2) Feed by simp
  next
    case Report
    then show ?thesis
      using absorbed_final [OF Cons.prems(1)] Cons.IH Cons.prems(2) by simp
  qed
qed

text \<open>
  C12: SpookyHash's incremental interface refines the one-call hash. After \<^verbatim>\<open>spooky_init\<close>, for every
  sequence of \<^verbatim>\<open>spooky_update\<close> calls on fragments of any size and \<^verbatim>\<open>spooky_final\<close> calls in between
  (less than 2^64 - 192 bytes in all, the buffers of the state having the sizes its type gives
  them), each \<^verbatim>\<open>spooky_final\<close> returns what \<^verbatim>\<open>spooky_hash128\<close> returns for the concatenation of the
  fragments so far with the same seeds, and does not disturb the stream.
\<close>

theorem spooky_session_refines:
  assumes "length (sp_data st) = 2 * SC_NUMVARS * 8" "length (sp_state st) = SC_NUMVARS"
    and "fed cs + SC_BUFSIZE < 2 ^ 64"
  shows "spooky_session cs (spooky_init st seed1 seed2) = spooky_spec seed1 seed2 cs []"
  by (rule session_absorbed [OF absorbed_init]) (use assms in \<open>simp_all add: sc_sizes\<close>)

theorem spooky_session_refines_witness:
  "spooky_session [Feed [1, 2], Report, Feed (replicate 300 7), Feed [], Report]
     (spooky_init \<lparr>sp_data = replicate 192 0, sp_state = replicate 12 5, sp_length = 9, sp_left = 3\<rparr> 42 43)
   = spooky_spec 42 43 [Feed [1, 2], Report, Feed (replicate 300 7), Feed [], Report] []"
  by (rule spooky_session_refines) (simp_all add: sc_sizes)

text \<open>
  C32: The one-call hash is a function of the message alone: whatever bytes follow the message in
  memory, for every length from 0 on and on both the short and the long path, the result is the
  same, so no path reads past the length it is given.
\<close>

theorem spooky_hash128_in_bounds:
  assumes "length m < 2 ^ 64"
  shows "spooky_hash128 (m @ rest) (of_nat (length m)) hash1 hash2
       = spooky_hash128 m (of_nat (length m)) hash1 hash2"
proof -
  have d: "96 * (length m div 96) + length m mod 96 = length m" by simp
  then have "mix_loop (length m div 96) (m @ rest) v = mix_loop (length m div 96) m v" for v
    by (intro mix_loop_append) linarith
  moreover have "last_block (drop (96 * (length m div 96)) (m @ rest)) (length m mod 96)
      = last_block (drop (96 * (length m div 96)) m) (length m mod 96)"
    by (simp add: last_block_def minus_mult_div_eq_mod)
  ultimately show ?thesis
    by (simp only: spooky_hash128_nat [OF assms] spooky_short_append [OF refl assms])
qed

theorem spooky_hash128_in_bounds_witness:
  "spooky_hash128 ([1, 2, 3] @ [9, 9]) (of_nat (length [1, 2, 3 :: u8])) 42 43
   = spooky_hash128 [1, 2, 3] (of_nat (length [1, 2, 3 :: u8])) 42 43"
  by (rule spooky_hash128_in_bounds) simp

text \<open>
  Mixing loses nothing: for every message, the loop of \<^verbatim>\<open>spooky_mix\<close> over any number of blocks
  followed by \<^verbatim>\<open>spooky_end\<close> is a permutation of the states of twelve 64-bit words, so two different
  states of the hash variables are never merged by the data mixed into them.
\<close>

theorem spooky_mixing_permutes:
  "bij_betw (\<lambda>h. spooky_end q (mix_loop n p h)) (words_of SC_NUMVARS) (words_of SC_NUMVARS)"
  using bij_betw_trans [OF bij_mix_loop bij_spooky_end] by (simp add: comp_def SC_NUMVARS_def)

end
