(* ===== verification/Murmur3.thy ===== *)
theory Murmur3
  imports Hash_Words
begin

text \<open>
  MurmurHash3 (\<^verbatim>\<open>murmur3.c\<close>, the same file in the \<^verbatim>\<open>toeplitz\<close>, \<^verbatim>\<open>pthread\<close> and \<^verbatim>\<open>lthread\<close>
  directories) on a little-endian host: the finalisers, the per-block bodies, the tails and the
  three hash functions. A key is the list of bytes from the pointer on together with the length
  argument (a non-negative C \<open>int\<close>); what the C code stores through \<open>out\<close> is returned.
\<close>

section \<open>Finalisation mixes\<close>

definition fmix32 :: "u32 \<Rightarrow> u32" where
  "fmix32 h =
    (let h = h XOR drop_bit 16 h;
         h = h * 0x85ebca6b;
         h = h XOR drop_bit 13 h;
         h = h * 0xc2b2ae35;
         h = h XOR drop_bit 16 h
     in h)"

definition fmix64 :: "u64 \<Rightarrow> u64" where
  "fmix64 k =
    (let k = k XOR drop_bit 33 k;
         k = k * 0xff51afd7ed558ccd;
         k = k XOR drop_bit 33 k;
         k = k * 0xc4ceb9fe1a85ec53;
         k = k XOR drop_bit 33 k
     in k)"

text \<open>\<open>k ^= tail[j] << s\<close> in the labels of the tail \<^verbatim>\<open>switch\<close>es.\<close>

definition xor_byte :: "nat \<Rightarrow> u8 list \<Rightarrow> nat \<Rightarrow> 'w::len word \<Rightarrow> 'w word" where
  "xor_byte s p j k = k XOR push_bit s (ucast (p ! j))"

section \<open>The 32-bit hash\<close>

definition x86_32_k :: "u32 \<Rightarrow> u32" where
  "x86_32_k k1 = (let k1 = k1 * 0xcc9e2d51; k1 = rotl32 k1 15 in k1 * 0x1b873593)"

definition x86_32_body :: "u32 \<Rightarrow> u32 \<Rightarrow> u32" where
  "x86_32_body k1 h1 =
    (let h1 = h1 XOR x86_32_k k1;
         h1 = rotl32 h1 13
     in h1 * 5 + 0xe6546b64)"

definition x86_32_tail :: "nat \<Rightarrow> u8 list \<Rightarrow> u32 \<Rightarrow> u32" where
  "x86_32_tail left tail h1 =
    (let k1 = exec [case_from 3 left (xor_byte 16 tail 2), case_from 2 left (xor_byte 8 tail 1),
                    case_from 1 left (xor_byte 0 tail 0)] 0
     in if 1 \<le> left then h1 XOR x86_32_k k1 else h1)"

definition MurmurHash3_x86_32 :: "u8 list \<Rightarrow> nat \<Rightarrow> u32 \<Rightarrow> u32" where
  "MurmurHash3_x86_32 key len seed =
    (let nblocks = len div 4;
         h1 = fold (\<lambda>i. x86_32_body (word32_at key i)) [0..<nblocks] seed;
         h1 = x86_32_tail (len mod 4) (drop (4 * nblocks) key) h1;
         h1 = h1 XOR of_nat len
     in fmix32 h1)"

section \<open>The 128-bit hash for 32-bit machines\<close>

type_synonym h4 = "u32 \<times> u32 \<times> u32 \<times> u32"

definition k128_1 :: "u32 \<Rightarrow> u32" where
  "k128_1 k1 = (let k1 = k1 * 0x239b961b; k1 = rotl32 k1 15 in k1 * 0xab0e9789)"

definition k128_2 :: "u32 \<Rightarrow> u32" where
  "k128_2 k2 = (let k2 = k2 * 0xab0e9789; k2 = rotl32 k2 16 in k2 * 0x38b34ae5)"

definition k128_3 :: "u32 \<Rightarrow> u32" where
  "k128_3 k3 = (let k3 = k3 * 0x38b34ae5; k3 = rotl32 k3 17 in k3 * 0xa1e38b93)"

definition k128_4 :: "u32 \<Rightarrow> u32" where
  "k128_4 k4 = (let k4 = k4 * 0xa1e38b93; k4 = rotl32 k4 18 in k4 * 0x239b961b)"

definition x86_128_body :: "u8 list \<Rightarrow> nat \<Rightarrow> h4 \<Rightarrow> h4" where
  "x86_128_body key i = (\<lambda>(h1, h2, h3, h4).
    (let h1 = h1 XOR k128_1 (word32_at key (i * 4 + 0));
         h1 = rotl32 h1 19; h1 = h1 + h2; h1 = h1 * 5 + 0x561ccd1b;
         h2 = h2 XOR k128_2 (word32_at key (i * 4 + 1));
         h2 = rotl32 h2 17; h2 = h2 + h3; h2 = h2 * 5 + 0x0bcaa747;
         h3 = h3 XOR k128_3 (word32_at key (i * 4 + 2));
         h3 = rotl32 h3 15; h3 = h3 + h4; h3 = h3 * 5 + 0x96cd1c35;
         h4 = h4 XOR k128_4 (word32_at key (i * 4 + 3));
         h4 = rotl32 h4 13; h4 = h4 + h1; h4 = h4 * 5 + 0x32ac3b17
     in (h1, h2, h3, h4)))"

definition x86_128_tail :: "nat \<Rightarrow> u8 list \<Rightarrow> h4 \<Rightarrow> h4" where
  "x86_128_tail left tail = (\<lambda>(h1, h2, h3, h4).
    (let k4 = exec [case_from 15 left (xor_byte 16 tail 14), case_from 14 left (xor_byte 8 tail 13),
                    case_from 13 left (xor_byte 0 tail 12)] 0;
         h4 = (if 13 \<le> left then h4 XOR k128_4 k4 else h4);
         k3 = exec [case_from 12 left (xor_byte 24 tail 11), case_from 11 left (xor_byte 16 tail 10),
                    case_from 10 left (xor_byte 8 tail 9), case_from 9 left (xor_byte 0 tail 8)] 0;
         h3 = (if 9 \<le> left then h3 XOR k128_3 k3 else h3);
         k2 = exec [case_from 8 left (xor_byte 24 tail 7), case_from 7 left (xor_byte 16 tail 6),
                    case_from 6 left (xor_byte 8 tail 5), case_from 5 left (xor_byte 0 tail 4)] 0;
         h2 = (if 5 \<le> left then h2 XOR k128_2 k2 else h2);
         k1 = exec [case_from 4 left (xor_byte 24 tail 3), case_from 3 left (xor_byte 16 tail 2),
                    case_from 2 left (xor_byte 8 tail 1), case_from 1 left (xor_byte 0 tail 0)] 0;
         h1 = (if 1 \<le> left then h1 XOR k128_1 k1 else h1)
     in (h1, h2, h3, h4)))"

text \<open>\<open>h1 += h2; h1 += h3; h1 += h4; h2 += h1; h3 += h1; h4 += h1\<close>, and the finalisation around it.\<close>

definition x86_128_sum :: "h4 \<Rightarrow> h4" where
  "x86_128_sum = (\<lambda>(h1, h2, h3, h4).
    (let h1 = h1 + h2; h1 = h1 + h3; h1 = h1 + h4 in (h1, h2 + h1, h3 + h1, h4 + h1)))"

definition x86_128_final :: "nat \<Rightarrow> h4 \<Rightarrow> h4" where
  "x86_128_final len = (\<lambda>(h1, h2, h3, h4).
    (let n = of_nat len;
         (h1, h2, h3, h4) = x86_128_sum (h1 XOR n, h2 XOR n, h3 XOR n, h4 XOR n)
     in x86_128_sum (fmix32 h1, fmix32 h2, fmix32 h3, fmix32 h4)))"

definition MurmurHash3_x86_128 :: "u8 list \<Rightarrow> nat \<Rightarrow> u32 \<Rightarrow> h4" where
  "MurmurHash3_x86_128 key len seed =
    (let nblocks = len div 16;
         h = fold (x86_128_body key) [0..<nblocks] (seed, seed, seed, seed);
         h = x86_128_tail (len mod 16) (drop (16 * nblocks) key) h
     in x86_128_final len h)"

section \<open>The 128-bit hash for 64-bit machines\<close>

definition k64_1 :: "u64 \<Rightarrow> u64" where
  "k64_1 k1 = (let k1 = k1 * 0x87c37b91114253d5; k1 = rotl64 k1 31 in k1 * 0x4cf5ad432745937f)"

definition k64_2 :: "u64 \<Rightarrow> u64" where
  "k64_2 k2 = (let k2 = k2 * 0x4cf5ad432745937f; k2 = rotl64 k2 33 in k2 * 0x87c37b91114253d5)"

definition x64_128_body :: "u8 list \<Rightarrow> nat \<Rightarrow> u64 \<times> u64 \<Rightarrow> u64 \<times> u64" where
  "x64_128_body key i = (\<lambda>(h1, h2).
    (let h1 = h1 XOR k64_1 (word64_at key (i * 2 + 0));
         h1 = rotl64 h1 27; h1 = h1 + h2; h1 = h1 * 5 + 0x52dce729;
         h2 = h2 XOR k64_2 (word64_at key (i * 2 + 1));
         h2 = rotl64 h2 31; h2 = h2 + h1; h2 = h2 * 5 + 0x38495ab5
     in (h1, h2)))"

definition x64_128_tail :: "nat \<Rightarrow> u8 list \<Rightarrow> u64 \<times> u64 \<Rightarrow> u64 \<times> u64" where
  "x64_128_tail left tail = (\<lambda>(h1, h2).
    (let k2 = exec [case_from 15 left (xor_byte 48 tail 14), case_from 14 left (xor_byte 40 tail 13),
                    case_from 13 left (xor_byte 32 tail 12), case_from 12 left (xor_byte 24 tail 11),
                    case_from 11 left (xor_byte 16 tail 10), case_from 10 left (xor_byte 8 tail 9),
                    case_from 9 left (xor_byte 0 tail 8)] 0;
         h2 = (if 9 \<le> left then h2 XOR k64_2 k2 else h2);
         k1 = exec [case_from 8 left (xor_byte 56 tail 7), case_from 7 left (xor_byte 48 tail 6),
                    case_from 6 left (xor_byte 40 tail 5), case_from 5 left (xor_byte 32 tail 4),
                    case_from 4 left (xor_byte 24 tail 3), case_from 3 left (xor_byte 16 tail 2),
                    case_from 2 left (xor_byte 8 tail 1), case_from 1 left (xor_byte 0 tail 0)] 0;
         h1 = (if 1 \<le> left then h1 XOR k64_1 k1 else h1)
     in (h1, h2)))"

definition x64_128_final :: "nat \<Rightarrow> u64 \<times> u64 \<Rightarrow> u64 \<times> u64" where
  "x64_128_final len = (\<lambda>(h1, h2).
    (let h1 = h1 XOR of_nat len; h2 = h2 XOR of_nat len;
         h1 = h1 + h2; h2 = h2 + h1;
         h1 = fmix64 h1; h2 = fmix64 h2;
         h1 = h1 + h2; h2 = h2 + h1
     in (h1, h2)))"

definition MurmurHash3_x64_128 :: "u8 list \<Rightarrow> nat \<Rightarrow> u32 \<Rightarrow> u64 \<times> u64" where
  "MurmurHash3_x64_128 key len seed =
    (let nblocks = len div 16;
         h = fold (x64_128_body key) [0..<nblocks] (ucast seed, ucast seed);
         h = x64_128_tail (len mod 16) (drop (16 * nblocks) key) h
     in x64_128_final len h)"

end
