(* ===== verification/Murmur3_Correct.thy ===== *)
theory Murmur3_Correct
  imports Murmur3
begin

text \<open>
  MurmurHash3: the finalisers and the mixing of one block are invertible, keys of one block are
  hashed without collisions, and no function reads past the length it is given.
\<close>

section \<open>Inverting the finalisers\<close>

lemma xor_shift_inverse:
  fixes x :: "'w::len word"
  assumes "LENGTH('w) \<le> 4 * s"
  shows "(x XOR drop_bit s x) XOR drop_bit s (x XOR drop_bit s x)
      XOR drop_bit (2 * s) (x XOR drop_bit s x) XOR drop_bit (3 * s) (x XOR drop_bit s x) = x"
proof (rule bit_word_eqI)
  fix n assume "n < LENGTH('w)"
  moreover have "\<not> bit x (n + 4 * s)" using assms bit_imp_le_length [of x "n + 4 * s"] by auto
  ultimately show "bit ((x XOR drop_bit s x) XOR drop_bit s (x XOR drop_bit s x)
      XOR drop_bit (2 * s) (x XOR drop_bit s x) XOR drop_bit (3 * s) (x XOR drop_bit s x)) n = bit x n"
    by (simp add: bit_simps algebra_simps numeral_eq_Suc) (auto simp: add.assoc)
qed

text \<open>The inverse of \<open>x ^= x >> s\<close> (for a shift of at least a quarter of the width).\<close>

definition unshift :: "nat \<Rightarrow> 'w::len word \<Rightarrow> 'w word" where
  "unshift s y = y XOR drop_bit s y XOR drop_bit (2 * s) y XOR drop_bit (3 * s) y"

lemma unshift: "LENGTH('w) \<le> 4 * s \<Longrightarrow> unshift s (x XOR drop_bit s x) = (x :: 'w::len word)"
  unfolding unshift_def by (rule xor_shift_inverse)

definition unfmix32 :: "u32 \<Rightarrow> u32" where
  "unfmix32 h = unshift 16 (unshift 13 (unshift 16 h * 0x7ed1b41d) * 0xa5cb9243)"

definition unfmix64 :: "u64 \<Rightarrow> u64" where
  "unfmix64 k = unshift 33 (unshift 33 (unshift 33 k * 0x9cb4b2f8129337db) * 0x4f74430c22a54005)"

lemma mult_unit:
  fixes a c d :: "'w::len word"
  assumes "c * d = 1"
  shows "a * c * d = a"
  using assms by (simp add: mult.assoc)

lemma fmix32_units:
  "(a :: u32) * 0x85ebca6b * 0xa5cb9243 = a" "(a :: u32) * 0xc2b2ae35 * 0x7ed1b41d = a"
  by (rule mult_unit, simp)+

lemma fmix64_units:
  "(a :: u64) * 0xff51afd7ed558ccd * 0x4f74430c22a54005 = a"
  "(a :: u64) * 0xc4ceb9fe1a85ec53 * 0x9cb4b2f8129337db = a"
  by (rule mult_unit, simp)+

lemma unshift_at:
  "unshift 16 (x XOR drop_bit 16 x) = (x :: u32)" "unshift 13 (x XOR drop_bit 13 x) = (x :: u32)"
  "unshift 33 (y XOR drop_bit 33 y) = (y :: u64)"
  by (rule unshift, simp)+

lemma unfmix32: "unfmix32 (fmix32 h) = h"
  by (simp only: unfmix32_def fmix32_def unshift_at Let_def fmix32_units)

lemma unfmix64: "unfmix64 (fmix64 k) = k"
  by (simp only: unfmix64_def fmix64_def unshift_at Let_def fmix64_units)

section \<open>Cancelling the mixing steps\<close>

lemma mult_cancel_unit:
  fixes a b c d :: "'w::len word"
  assumes "c * d = 1"
  shows "a * c = b * c \<longleftrightarrow> a = b"
proof
  assume "a * c = b * c"
  then have "a * c * d = b * c * d" by simp
  then show "a = b" using assms by (simp add: mult.assoc)
qed simp

lemma rotl32_cancel: "0 < r \<Longrightarrow> r < 32 \<Longrightarrow> rotl32 x r = rotl32 y r \<longleftrightarrow> x = y"
  by (metis rotl32_inverse)

lemma rotl64_cancel: "0 < r \<Longrightarrow> r < 64 \<Longrightarrow> rotl64 x r = rotl64 y r \<longleftrightarrow> x = y"
  by (metis rotl64_inverse)

lemma xor_cancel_left: "h XOR a = h XOR b \<longleftrightarrow> a = (b :: 'w::len word)"
  by (metis xor.left_commute xor_self_eq xor.right_neutral)

lemma xor_cancel_right: "a XOR h = b XOR h \<longleftrightarrow> a = (b :: 'w::len word)"
  by (metis xor_cancel_left xor.commute)

lemma times5_cancel32: "a * 5 = b * 5 \<longleftrightarrow> a = (b :: u32)"
  by (rule mult_cancel_unit [where d = "0xcccccccd"]) simp

lemma times5_cancel64: "a * 5 = b * 5 \<longleftrightarrow> a = (b :: u64)"
  by (rule mult_cancel_unit [where d = "0xcccccccccccccccd"]) simp

lemmas mix_cancel = rotl32_cancel rotl64_cancel xor_cancel_left xor_cancel_right
  times5_cancel32 times5_cancel64

lemma x86_32_k_cancel: "x86_32_k a = x86_32_k b \<longleftrightarrow> a = b"
  using mult_cancel_unit [of "0xcc9e2d51 :: u32" "0xdee13bb1"]
    mult_cancel_unit [of "0x1b873593 :: u32" "0x56ed309b"]
  by (simp add: x86_32_k_def Let_def mix_cancel)

lemma k64_1_cancel: "k64_1 a = k64_1 b \<longleftrightarrow> a = b"
  using mult_cancel_unit [of "0x87c37b91114253d5 :: u64" "0xa98409e882ce4d7d"]
    mult_cancel_unit [of "0x4cf5ad432745937f :: u64" "0xa81e14edd9de2c7f"]
  by (simp add: k64_1_def Let_def mix_cancel)

lemma k64_2_cancel: "k64_2 a = k64_2 b \<longleftrightarrow> a = b"
  using mult_cancel_unit [of "0x87c37b91114253d5 :: u64" "0xa98409e882ce4d7d"]
    mult_cancel_unit [of "0x4cf5ad432745937f :: u64" "0xa81e14edd9de2c7f"]
  by (simp add: k64_2_def Let_def mix_cancel)

lemma fmix64_cancel: "fmix64 a = fmix64 b \<longleftrightarrow> a = b"
  by (metis unfmix64)

lemma sum_pair_cancel:
  "a + b = c + d \<and> b + (a + b) = d + (c + d) \<longleftrightarrow> a = c \<and> b = (d :: 'w::len word)"
  by (metis add_right_cancel)

lemma x64_128_final_cancel: "x64_128_final len h = x64_128_final len g \<longleftrightarrow> h = g"
  by (cases h; cases g)
     (simp only: x64_128_final_def Let_def case_prod_conv prod.inject sum_pair_cancel fmix64_cancel
        xor_cancel_right)

lemma x86_32_body_cancel:
  "x86_32_body k a = x86_32_body k b \<longleftrightarrow> a = b" "x86_32_body k a = x86_32_body l a \<longleftrightarrow> k = l"
  by (simp_all add: x86_32_body_def Let_def mix_cancel x86_32_k_cancel)

lemma x86_32_tail_cancel: "x86_32_tail left t a = x86_32_tail left t b \<longleftrightarrow> a = b"
  by (simp add: x86_32_tail_def Let_def mix_cancel)

lemma fmix32_cancel: "fmix32 a = fmix32 b \<longleftrightarrow> a = b"
  by (metis unfmix32)

lemma fold_cancel:
  "(\<And>x a b. x \<in> set xs \<Longrightarrow> f x a = f x b \<longleftrightarrow> a = b) \<Longrightarrow> fold f xs a = fold f xs b \<longleftrightarrow> a = b"
  by (induction xs arbitrary: a b) auto

lemma x64_128_body_cancel:
  "x64_128_body p i h = x64_128_body q i h \<longleftrightarrow>
   word64_at p (i * 2) = word64_at q (i * 2) \<and> word64_at p (i * 2 + 1) = word64_at q (i * 2 + 1)"
  by (cases h) (auto simp: x64_128_body_def Let_def mix_cancel k64_1_cancel k64_2_cancel)

text \<open>On keys of 16 bytes the 64-bit variant is injective, for any seed.\<close>

lemma MurmurHash3_x64_128_16_inj:
  assumes "length p = 16" "length q = 16"
  shows "MurmurHash3_x64_128 p 16 seed = MurmurHash3_x64_128 q 16 seed \<longleftrightarrow> p = q"
proof
  assume eq: "MurmurHash3_x64_128 p 16 seed = MurmurHash3_x64_128 q 16 seed"
  have tail0: "x64_128_tail 0 t h = h" for t h
    by (cases h) (simp add: x64_128_tail_def)
  have "word64_at p 0 = word64_at q 0" "word64_at p 1 = word64_at q 1"
    using eq by (simp_all add: MurmurHash3_x64_128_def Let_def tail0 x64_128_final_cancel
        x64_128_body_cancel)
  moreover have "word64_at r 0 = le64 (take 8 r)" "word64_at r 1 = le64 (drop 8 r)"
    if "length r = 16" for r
    using that by (auto simp: word64_at_def intro: le64_cong)
  ultimately have "take 8 p = take 8 q" "drop 8 p = drop 8 q"
    using assms by (auto intro: le64_inj)
  then show "p = q" by (metis append_take_drop_id)
qed simp

section \<open>Properties\<close>

text \<open>
  C31: The finalisation mixes of MurmurHash3 are invertible: \<open>unfmix32\<close> and \<open>unfmix64\<close> undo
  \<^verbatim>\<open>fmix32\<close> and \<^verbatim>\<open>fmix64\<close> and are undone by them, for every word.
\<close>

theorem fmix_roundtrip:
  "unfmix32 (fmix32 h) = h \<and> fmix32 (unfmix32 h) = h \<and>
   unfmix64 (fmix64 k) = k \<and> fmix64 (unfmix64 k) = k"
proof -
  have "surj fmix32" by (rule finite_UNIV_inj_surj) (simp_all add: inj_def fmix32_cancel)
  moreover have "surj fmix64" by (rule finite_UNIV_inj_surj) (simp_all add: inj_def fmix64_cancel)
  ultimately show ?thesis by (metis unfmix32 unfmix64 surjD)
qed

text \<open>
  MurmurHash3_x86_32 detects every change inside one aligned block of four bytes: keys of the
  same length that differ only in one such block have different hashes under every seed, whatever
  comes before and after the block.
\<close>

theorem MurmurHash3_x86_32_block_change:
  assumes "length pre = 4 * i" "length b = 4" "length c = 4" "b \<noteq> c"
  shows "MurmurHash3_x86_32 (pre @ b @ post) (length (pre @ b @ post)) seed
       \<noteq> MurmurHash3_x86_32 (pre @ c @ post) (length (pre @ c @ post)) seed"
proof -
  define n where "n = (length (pre @ b @ post)) div 4"
  have n: "i < n" "n = i + 1 + length post div 4" using assms by (simp_all add: n_def)
  have before: "word32_at (pre @ d @ post) j = word32_at pre j" if "j < i" for j d
    using that assms(1) by (simp add: word32_at_append)
  have at: "word32_at (pre @ d @ post) i = le32 d" if "length d = 4" for d
    using that assms(1) by (auto simp: word32_at_def nth_append intro: le32_cong)
  have after: "word32_at (pre @ d @ post) j = word32_at post (j - (i + 1))"
    if "i < j" "length d = 4" for j d
    using that assms(1) by (simp add: word32_at_def algebra_simps)
  have rest: "drop (4 * n) (pre @ d @ post) = drop (4 * n - 4 * (i + 1)) post"
    if "length d = 4" for d
    using that assms(1) n(2) by simp
  have upt: "[0..<n] = [0..<i] @ i # [i + 1..<n]"
    using upt_add_eq_append [of 0 i "n - i"] upt_conv_Cons [of i n] n(1) by simp
  define f where "f d = (\<lambda>j. x86_32_body (word32_at (pre @ d @ post) j))" for d
  define h where "h = fold (\<lambda>j. x86_32_body (word32_at pre j)) [0..<i] seed"
  define g where "g = fold (\<lambda>j. x86_32_body (word32_at post (j - (i + 1)))) [i + 1..<n]"
  have body: "fold (f d) [0..<n] seed = g (x86_32_body (le32 d) h)" if "length d = 4" for d
  proof -
    have "fold (f d) [0..<i] seed = h"
      unfolding h_def f_def by (rule fold_cong) (auto simp: before)
    moreover have "fold (f d) [i + 1..<n] = g"
      unfolding g_def f_def by (rule ext, rule fold_cong) (auto simp: after that)
    ultimately show ?thesis by (simp add: upt f_def at that)
  qed
  have "x86_32_body (le32 b) h \<noteq> x86_32_body (le32 c) h"
    using le32_inj [of b c] assms by (auto simp: x86_32_body_cancel)
  then have "g (x86_32_body (le32 b) h) \<noteq> g (x86_32_body (le32 c) h)"
    by (simp add: g_def fold_cancel x86_32_body_cancel)
  then show ?thesis
    using assms body n_def
    by (simp add: MurmurHash3_x86_32_def Let_def fmix32_cancel xor_cancel_right x86_32_tail_cancel
        f_def rest)
qed

theorem MurmurHash3_x86_32_block_change_witness:
  "MurmurHash3_x86_32 ([0, 1, 2, 3] @ [4, 5, 6, 7] @ [8]) (length [0, 1, 2, 3, 4, 5, 6, 7, 8 :: u8]) 1
   \<noteq> MurmurHash3_x86_32 ([0, 1, 2, 3] @ [4, 5, 6, 8] @ [8]) (length [0, 1, 2, 3, 4, 5, 6, 7, 8 :: u8]) 1"
  using MurmurHash3_x86_32_block_change [of "[0, 1, 2, 3]" 1 "[4, 5, 6, 7]" "[4, 5, 6, 8]" "[8]" 1]
  by simp

lemma xor_byte_append: "j < length p \<Longrightarrow> xor_byte s (p @ q) j = xor_byte s p j"
  by (auto simp: xor_byte_def nth_append)

lemma case_xor_append:
  "j < n \<Longrightarrow> left \<le> length p \<Longrightarrow>
   case_from n left (xor_byte s (p @ q) j) = case_from n left (xor_byte s p j)"
  by (rule case_from_cong, rule xor_byte_append) auto

text \<open>
  The three MurmurHash3 functions are functions of the key alone: whatever bytes follow the
  \<^verbatim>\<open>len\<close> bytes of the key in memory, the results are the same, so neither the loops over blocks nor
  the fall-through tails read past the key.
\<close>

theorem MurmurHash3_in_bounds:
  assumes "length m = len"
  shows "MurmurHash3_x86_32 (m @ rest) len seed = MurmurHash3_x86_32 m len seed \<and>
    MurmurHash3_x86_128 (m @ rest) len seed = MurmurHash3_x86_128 m len seed \<and>
    MurmurHash3_x64_128 (m @ rest) len seed = MurmurHash3_x64_128 m len seed"
proof -
  have d: "4 * (len div 4) + len mod 4 = len" "16 * (len div 16) + len mod 16 = len" by simp_all
  have l: "len mod 4 \<le> length (drop (4 * (len div 4)) m)"
    "len mod 16 \<le> length (drop (16 * (len div 16)) m)"
    using assms by (simp_all add: minus_mult_div_eq_mod)
  have a: "drop (4 * (len div 4)) (m @ rest) = drop (4 * (len div 4)) m @ rest"
    "drop (16 * (len div 16)) (m @ rest) = drop (16 * (len div 16)) m @ rest"
    using assms by simp_all
  have w: "word32_at (m @ rest) j = word32_at m j" if "4 * j + 4 \<le> len" for j
    using that assms by (simp add: word32_at_append)
  have w': "word64_at (m @ rest) j = word64_at m j" if "8 * j + 8 \<le> len" for j
    using that assms by (simp add: word64_at_append)
  have "fold (\<lambda>i. x86_32_body (word32_at (m @ rest) i)) [0..<len div 4] h
      = fold (\<lambda>i. x86_32_body (word32_at m i)) [0..<len div 4] h" for h
    by (rule fold_cong) (auto simp: w)
  moreover have "fold (x86_128_body (m @ rest)) [0..<len div 16] h
      = fold (x86_128_body m) [0..<len div 16] h" for h
    by (rule fold_cong) (auto simp: w x86_128_body_def fun_eq_iff)
  moreover have "fold (x64_128_body (m @ rest)) [0..<len div 16] h
      = fold (x64_128_body m) [0..<len div 16] h" for h
    by (rule fold_cong) (auto simp: w' x64_128_body_def fun_eq_iff)
  moreover have "x86_32_tail (len mod 4) (drop (4 * (len div 4)) m @ rest)
      = x86_32_tail (len mod 4) (drop (4 * (len div 4)) m)"
    using l(1) unfolding x86_32_tail_def by (simp add: case_xor_append fun_eq_iff del: drop_append)
  moreover have "x86_128_tail (len mod 16) (drop (16 * (len div 16)) m @ rest)
      = x86_128_tail (len mod 16) (drop (16 * (len div 16)) m)"
    using l(2) unfolding x86_128_tail_def by (simp add: case_xor_append)
  moreover have "x64_128_tail (len mod 16) (drop (16 * (len div 16)) m @ rest)
      = x64_128_tail (len mod 16) (drop (16 * (len div 16)) m)"
    using l(2) unfolding x64_128_tail_def by (simp add: case_xor_append)
  ultimately show ?thesis
    unfolding MurmurHash3_x86_32_def MurmurHash3_x86_128_def MurmurHash3_x64_128_def Let_def a
    by metis
qed

theorem MurmurHash3_in_bounds_witness:
  "MurmurHash3_x86_32 ([1, 2, 3] @ [9]) 3 7 = MurmurHash3_x86_32 [1, 2, 3] 3 7 \<and>
   MurmurHash3_x86_128 ([1, 2, 3] @ [9]) 3 7 = MurmurHash3_x86_128 [1, 2, 3] 3 7 \<and>
   MurmurHash3_x64_128 ([1, 2, 3] @ [9]) 3 7 = MurmurHash3_x64_128 [1, 2, 3] 3 7"
  by (rule MurmurHash3_in_bounds) simp

end
