(* ===== verification/Toeplitz.thy ===== *)
theory Toeplitz
  imports Murmur3_Correct Spooky_Correct
begin

text \<open>
  The hash benchmark (\<^verbatim>\<open>toeplitz/main.c\<close>): hash a 5-tuple with the hash chosen at compile time, count
  or time the call, and fill the tuple with the next random values, for ever. The Toeplitz hashes of
  DPDK, the random numbers and the clock are parameters.
\<close>

section \<open>Configuration and state\<close>

text \<open>The macros of \<^verbatim>\<open>toeplitz/main.h\<close>: which hash is compiled in, and what is measured.\<close>

datatype hash_kind = TOE | TOE_BE | ADD | XOR_FOLD | MURMUR | BOB

datatype measure_kind = INC | RAND

record ipv4_5tuple =
  proto :: u8
  src_addr :: u32
  dst_addr :: u32
  sport :: u16
  dport :: u16

record bench =
  tup :: ipv4_5tuple
  hash_val :: u32
  murmur :: "u32 list"
  bob1 :: u64
  bob2 :: u64
  bench_ctr :: u64
  tot_inter :: real
  ib :: "u64 list"
  drawn :: nat

text \<open>
  The 16 bytes of the structure: three bytes of padding after \<open>proto\<close>, which the zero initialiser
  leaves zero and the assignments to the members do not touch.
\<close>

definition bytes_of_word :: "nat \<Rightarrow> 'w::len word \<Rightarrow> u8 list" where
  "bytes_of_word n w = map (\<lambda>k. ucast (drop_bit (8 * k) w)) [0..<n]"

definition tuple_bytes :: "ipv4_5tuple \<Rightarrow> u8 list" where
  "tuple_bytes t = [proto t, 0, 0, 0] @ bytes_of_word 4 (src_addr t) @ bytes_of_word 4 (dst_addr t)
     @ bytes_of_word 2 (sport t) @ bytes_of_word 2 (dport t)"

text \<open>The tuple as \<^verbatim>\<open>rte_softrss\<close> reads it: words of four bytes in the order of memory, little-endian.\<close>

definition tuple_words :: "ipv4_5tuple \<Rightarrow> u32 list" where
  "tuple_words t = [ucast (proto t), src_addr t, dst_addr t, ucast (sport t) + push_bit 16 (ucast (dport t))]"

text \<open>DPDK's lengths of the addresses, and of the addresses with the ports, in words.\<close>

definition RTE_THASH_V4_L3_LEN :: nat where
  "RTE_THASH_V4_L3_LEN = 2"

definition RTE_THASH_V4_L4_LEN :: nat where
  "RTE_THASH_V4_L4_LEN = 3"

section \<open>One iteration\<close>

text \<open>The two DPDK hashes, with the default key and the converted key, are parameters.\<close>

definition bench_hash ::
  "hash_kind \<Rightarrow> (u32 list \<Rightarrow> u32) \<Rightarrow> (u32 list \<Rightarrow> u32) \<Rightarrow> bench \<Rightarrow> bench"
where
  "bench_hash kind rte_softrss rte_softrss_be s =
    (let t = tup s; key = tuple_bytes t in
     case kind of
       TOE \<Rightarrow> s\<lparr>hash_val := rte_softrss (take RTE_THASH_V4_L4_LEN (tuple_words t))\<rparr>
     | TOE_BE \<Rightarrow> s\<lparr>hash_val := rte_softrss_be (take RTE_THASH_V4_L3_LEN (tuple_words t))\<rparr>
     | ADD \<Rightarrow> s\<lparr>hash_val := ucast (proto t) + src_addr t + dst_addr t + ucast (sport t) + ucast (dport t)\<rparr>
     | XOR_FOLD \<Rightarrow> s\<lparr>hash_val := ucast (proto t) XOR src_addr t XOR dst_addr t XOR ucast (sport t) XOR ucast (dport t)\<rparr>
     | MURMUR \<Rightarrow> (let (a, b) = MurmurHash3_x64_128 key 16 42
                  in s\<lparr>murmur := [ucast a, ucast (drop_bit 32 a), ucast b, ucast (drop_bit 32 b)]\<rparr>)
     | BOB \<Rightarrow> (let (a, b) = spooky_hash128 key 16 (bob1 s) (bob2 s) in s\<lparr>bob1 := a, bob2 := b\<rparr>))"

text \<open>The test \<open>hash % 2\<close>: the remainder of a C \<open>int\<close> is non-zero exactly for the odd values.\<close>

definition bench_odd :: "hash_kind \<Rightarrow> bench \<Rightarrow> bool" where
  "bench_odd kind s = (case kind of
     MURMUR \<Rightarrow> bit (murmur s ! 3) 0
   | BOB \<Rightarrow> bit (bob2 s) 0
   | _ \<Rightarrow> bit (hash_val s) 0)"

text \<open>
  The measurement: \<open>INC\<close> adds the elapsed time in seconds (the clock values before and after are
  \<open>(seconds, nanoseconds)\<close>) and counts; \<open>RAND\<close> counts the parity and overwrites \<^verbatim>\<open>ctr\<close> with a
  random number. The \<open>k\<close>-th call of \<^verbatim>\<open>rand\<close> returns \<open>rand k\<close>.
\<close>

definition bench_measure ::
  "fpu \<Rightarrow> hash_kind \<Rightarrow> measure_kind \<Rightarrow> (nat \<Rightarrow> u32) \<Rightarrow> int \<times> int \<Rightarrow> int \<times> int \<Rightarrow> bench \<Rightarrow> bench"
where
  "bench_measure fp kind meas rand ts t s = (case meas of
     INC \<Rightarrow> s\<lparr>tot_inter := rnd64 fp (tot_inter s
               + rnd64 fp (rnd64 fp (1.0 * rnd64 fp (of_int ((fst t - fst ts) * 1000000000 + snd t - snd ts)))
                   / 1000000000)),
             bench_ctr := bench_ctr s + 1\<rparr>
   | RAND \<Rightarrow>
       (let b = (if bench_odd kind s then 1 else 0)
        in s\<lparr>ib := (ib s)[b := ib s ! b + 1], bench_ctr := ucast (rand (drawn s)), drawn := drawn s + 1\<rparr>))"

definition bench_next :: "(nat \<Rightarrow> u32) \<Rightarrow> bench \<Rightarrow> bench" where
  "bench_next rand s = (let k = drawn s in s\<lparr>
     tup := \<lparr>proto = ucast (rand k), src_addr = rand (k + 1), dst_addr = rand (k + 2),
             sport = ucast (rand (k + 3)), dport = ucast (rand (k + 4))\<rparr>,
     drawn := k + 5\<rparr>)"

text \<open>The body of \<^verbatim>\<open>while(1)\<close> in \<^verbatim>\<open>lcore_hello\<close>; the event is the pair of clock readings.\<close>

definition lcore_hello_step ::
  "fpu \<Rightarrow> hash_kind \<Rightarrow> measure_kind \<Rightarrow> (u32 list \<Rightarrow> u32) \<Rightarrow> (u32 list \<Rightarrow> u32) \<Rightarrow> (nat \<Rightarrow> u32) \<Rightarrow>
   (int \<times> int) \<times> (int \<times> int) \<Rightarrow> bench \<Rightarrow> bench"
where
  "lcore_hello_step fp kind meas rte_softrss rte_softrss_be rand clk s =
     bench_next rand (bench_measure fp kind meas rand (fst clk) (snd clk)
       (bench_hash kind rte_softrss rte_softrss_be s))"

text \<open>The line that the signal handler prints and appends to the file.\<close>

definition bench_report :: "fpu \<Rightarrow> measure_kind \<Rightarrow> bench \<Rightarrow> (u64 \<times> real \<times> real) + (u64 \<times> u64)" where
  "bench_report fp meas s = (case meas of
     INC \<Rightarrow> Inl (bench_ctr s, tot_inter s, rnd64 fp (rnd64 fp (of_nat (unat (bench_ctr s))) / tot_inter s))
   | RAND \<Rightarrow> Inr (ib s ! 0, ib s ! 1))"

text \<open>
  The start: the globals and the tuple are zero, \<^verbatim>\<open>hash\<close>, \<^verbatim>\<open>murmur\<close>, \<^verbatim>\<open>h1\<close> and \<^verbatim>\<open>h2\<close> are uninitialised local
  variables, whose values are parameters.
\<close>

definition bench_start :: "u32 \<Rightarrow> u32 list \<Rightarrow> u64 \<Rightarrow> u64 \<Rightarrow> bench" where
  "bench_start hash mur h1 h2 = \<lparr>tup = \<lparr>proto = 0, src_addr = 0, dst_addr = 0, sport = 0, dport = 0\<rparr>,
     hash_val = hash, murmur = mur, bob1 = h1, bob2 = h2, bench_ctr = 0, tot_inter = 0, ib = [0, 0], drawn = 0\<rparr>"

section \<open>What the benchmark reports\<close>

lemma bench_step_ib:
  assumes "length (ib s) = 2"
  shows "length (ib (lcore_hello_step fp kind RAND f g rand clk s)) = 2 \<and>
    ib (lcore_hello_step fp kind RAND f g rand clk s) ! 0
      + ib (lcore_hello_step fp kind RAND f g rand clk s) ! 1 = ib s ! 0 + ib s ! 1 + 1"
proof -
  have "ib (bench_hash kind f g s) = ib s"
    by (simp add: bench_hash_def Let_def split: hash_kind.split prod.split)
  then show ?thesis
    using assms
    by (simp add: lcore_hello_step_def bench_next_def bench_measure_def Let_def ac_simps)
qed

lemma bench_step_inc:
  "bench_ctr (lcore_hello_step fp kind INC f g rand clk s) = bench_ctr s + 1"
proof -
  have "bench_ctr (bench_hash kind f g s) = bench_ctr s"
    by (simp add: bench_hash_def Let_def split: hash_kind.split prod.split)
  then show ?thesis by (simp add: lcore_hello_step_def bench_next_def bench_measure_def Let_def)
qed

text \<open>
  What the handler reports after any number \<open>n\<close> of iterations, with any hash: in the \<open>RAND\<close> build
  two loads whose sum is \<open>n\<close> modulo 2^64, in the \<open>INC\<close> build the number of iterations modulo 2^64
  (both counters starting at zero, as the globals do).
\<close>

lemma bench_report_counts:
  assumes s: "s = bench_start hash mur h1 h2"
  shows "case bench_report fp meas (fold (lcore_hello_step fp kind meas f g rand) clks s) of
      Inl (n, duration, rate) \<Rightarrow> n = of_nat (length clks)
    | Inr (zeros, ones) \<Rightarrow> zeros + ones = of_nat (length clks)"
proof -
  have rand: "length (ib (fold (lcore_hello_step fp kind RAND f g rand) clks t)) = 2 \<and>
      ib (fold (lcore_hello_step fp kind RAND f g rand) clks t) ! 0
        + ib (fold (lcore_hello_step fp kind RAND f g rand) clks t) ! 1
      = ib t ! 0 + ib t ! 1 + of_nat (length clks)" if "length (ib t) = 2" for t
    using that
  proof (induction clks arbitrary: t)
    case (Cons c clks)
    note step = bench_step_ib [OF Cons.prems, of fp kind f g rand c]
    show ?case
      using Cons.IH [OF conjunct1 [OF step]] conjunct2 [OF step] by (simp add: ac_simps)
  qed simp
  have inc: "bench_ctr (fold (lcore_hello_step fp kind INC f g rand) clks t)
      = bench_ctr t + of_nat (length clks)" for t
    by (induction clks arbitrary: t) (auto simp: bench_step_inc ac_simps)
  show ?thesis
    using rand [of s] inc [of s] by (cases meas) (simp_all add: bench_report_def s bench_start_def)
qed

text \<open>
  The Toeplitz builds do not hash whole flows: with the lengths of DPDK's own tuple, which has no protocol
  field, \<^verbatim>\<open>TOE\<close> leaves out the ports and \<^verbatim>\<open>TOE_BE\<close> also the destination address.
\<close>

lemma bench_toeplitz_reads:
  assumes "proto (tup s) = proto (tup s')" "src_addr (tup s) = src_addr (tup s')"
  shows "hash_val (bench_hash TOE_BE f g s) = hash_val (bench_hash TOE_BE f g s')"
    and "dst_addr (tup s) = dst_addr (tup s') \<Longrightarrow> hash_val (bench_hash TOE f g s) = hash_val (bench_hash TOE f g s')"
  using assms
  by (simp_all add: bench_hash_def tuple_words_def RTE_THASH_V4_L3_LEN_def RTE_THASH_V4_L4_LEN_def Let_def)

section \<open>Flow tuples do not collide\<close>

lemma bytes_of_word_inj:
  assumes "bytes_of_word n w = bytes_of_word n v" "LENGTH('w) \<le> 8 * n"
  shows "w = (v :: 'w::len word)"
proof (rule bit_word_eqI)
  fix k assume k: "k < LENGTH('w)"
  have "k div 8 < n" using k assms(2) by (simp add: less_mult_imp_div_less mult.commute)
  then have "(ucast (drop_bit (8 * (k div 8)) w) :: u8) = ucast (drop_bit (8 * (k div 8)) v)"
    using arg_cong [OF assms(1), of "\<lambda>bs. bs ! (k div 8)"] by (simp add: bytes_of_word_def)
  then have "bit (ucast (drop_bit (8 * (k div 8)) w) :: u8) (k mod 8)
      = bit (ucast (drop_bit (8 * (k div 8)) v) :: u8) (k mod 8)" by simp
  then show "bit w k = bit v k" by (simp add: bit_simps)
qed

lemma bytes_of_word_length [simp]: "length (bytes_of_word n w) = n"
  by (simp add: bytes_of_word_def)

lemma tuple_bytes_length: "length (tuple_bytes t) = 16"
  by (simp add: tuple_bytes_def)

lemma tuple_bytes_inj: "tuple_bytes t = tuple_bytes t' \<longleftrightarrow> t = t'"
proof
  assume "tuple_bytes t = tuple_bytes t'"
  then show "t = t'"
    by (cases t; cases t')
       (auto simp: tuple_bytes_def dest!: bytes_of_word_inj)
qed simp

lemma halves_inj:
  assumes "(ucast a :: u32) = ucast b" "(ucast (drop_bit 32 a) :: u32) = ucast (drop_bit 32 b)"
  shows "a = (b :: u64)"
proof (rule bit_word_eqI)
  fix k assume "k < LENGTH(64)"
  then show "bit a k = bit b k"
    using arg_cong [OF assms(1), of "\<lambda>w. bit w k"] arg_cong [OF assms(2), of "\<lambda>w. bit w (k - 32)"]
    by (cases "k < 32") (auto simp: bit_simps)
qed

text \<open>
  In the MurmurHash3 build of the benchmark the 128-bit values stored in \<^verbatim>\<open>murmur\<close> for two flow
  tuples are equal exactly when the tuples are: the benchmark's hash of the 16-byte \<^verbatim>\<open>ipv4_5tuple\<close>
  has no collisions.
\<close>

theorem bench_murmur_no_collision:
  "murmur (bench_hash MURMUR f g s) = murmur (bench_hash MURMUR f g s') \<longleftrightarrow> tup s = tup s'"
proof
  obtain a b where ab: "MurmurHash3_x64_128 (tuple_bytes (tup s)) 16 42 = (a, b)" by fastforce
  obtain c d where cd: "MurmurHash3_x64_128 (tuple_bytes (tup s')) 16 42 = (c, d)" by fastforce
  assume "murmur (bench_hash MURMUR f g s) = murmur (bench_hash MURMUR f g s')"
  then have "a = c" "b = d" by (auto simp: bench_hash_def ab cd intro: halves_inj)
  then have "tuple_bytes (tup s) = tuple_bytes (tup s')"
    using ab cd MurmurHash3_x64_128_16_inj [OF tuple_bytes_length tuple_bytes_length] by metis
  then show "tup s = tup s'" by (simp add: tuple_bytes_inj)
qed (simp add: bench_hash_def split: prod.split)

end
