(* ===== verification/Hardware.thy ===== *)
theory Hardware
  imports Startup_Correct Statistics
begin

text \<open>
  The hardware version (\<^verbatim>\<open>hardware/main.c\<close>): one receiving loop that reads the addresses and ports of
  every packet, times that access and frees the packet, the report of the average time, and the
  start-up. The clock and the conversion \<^verbatim>\<open>rte_timespec_to_ns\<close> are parameters.
\<close>

section \<open>The receiving loop\<close>

text \<open>
  A received packet: its buffer, the number of bytes of the buffer from the start of the packet data,
  and the two readings of the clock around the access to its headers.
\<close>

record 'ts hw_pkt =
  hp_id :: nat
  hp_room :: nat
  hp_start :: 'ts
  hp_stop :: 'ts

text \<open>The globals \<^verbatim>\<open>diff\<close> and \<^verbatim>\<open>diff_t\<close>, the local counter \<^verbatim>\<open>i\<close> and the buffers freed so far.\<close>

record hw_state =
  diff :: u64
  diff_t :: u64
  hw_i :: u64
  hw_freed :: "nat list"

text \<open>
  The Ethernet header has 14 bytes, the IPv4 header 20 and the two ports 4; the values read are not
  used, only that they are read.
\<close>

definition HW_HEADERS :: nat where
  "HW_HEADERS = 14 + 20 + 4"

definition hw_packet :: "('ts \<Rightarrow> u64) \<Rightarrow> 'ts hw_pkt \<Rightarrow> hw_state \<Rightarrow> fw_error + hw_state" where
  "hw_packet to_ns m s =
     (if hp_room m < HW_HEADERS then Inl (Undefined ''read past the packet buffer'')
      else Inr (s\<lparr>diff := diff s + (to_ns (hp_stop m) - to_ns (hp_start m)),
                  diff_t := diff_t s + 1, hw_freed := hw_freed s @ [hp_id m]\<rparr>))"

text \<open>One turn of the endless loop of \<^verbatim>\<open>lcore_main\<close>, built with \<^verbatim>\<open>SOFT\<close>.\<close>

definition hw_lcore_main :: "('ts \<Rightarrow> u64) \<Rightarrow> 'ts hw_pkt list \<Rightarrow> hw_state \<Rightarrow> fw_error + hw_state" where
  "hw_lcore_main to_ns bufs s =
     (if bufs = [] then Inr s
      else run (hw_packet to_ns) bufs (s\<lparr>hw_i := hw_i s + of_nat (length bufs)\<rparr>))"

section \<open>The signal handler\<close>

text \<open>
  The average access time, a quotient of doubles (\<open>None\<close>: not a number, when no packet was
  received), and the line appended to the file.
\<close>

definition hw_handler :: "fpu \<Rightarrow> eth_stats \<Rightarrow> hw_state \<Rightarrow> real option \<times> u64 list" where
  "hw_handler fp st s =
     (if diff_t s = 0 then None
      else Some (rnd64 fp (rnd64 fp (real (unat (diff s))) / rnd64 fp (real (unat (diff_t s))))),
      [dpdk_total st, imissed st])"

section \<open>Start-up\<close>

definition HW_RX_RINGS :: nat where
  "HW_RX_RINGS = 1"

definition hw_port_init :: "dev_api \<Rightarrow> nat \<Rightarrow> u8 \<Rightarrow> nat option \<Rightarrow> dev_log \<Rightarrow> fw_error + dev_log" where
  "hw_port_init api dev_count port mbuf_pool tr =
     (if unat port \<ge> dev_count then Inl (Failed ''no such port'')
      else
        sbind (dev api (Dev_configure port (of_nat HW_RX_RINGS) 0) (\<lambda>r. r = 0) (Failed ''rte_eth_dev_configure'') tr) (\<lambda>tr.
        sbind (run (\<lambda>q. dev api (Rx_queue_setup port (of_nat q) 4096 mbuf_pool) (\<lambda>r. 0 \<le> r) (Failed ''rte_eth_rx_queue_setup''))
                 [0..<HW_RX_RINGS] tr) (\<lambda>tr.
        sbind (dev api (Dev_start port) (\<lambda>r. 0 \<le> r) (Failed ''rte_eth_dev_start'') tr) (\<lambda>tr.
        Inr (tr @ [Promiscuous_enable port])))))"

fun hw_launch :: "nat list \<Rightarrow> nat \<Rightarrow> (nat \<times> nat) list" where
  "hw_launch [] q = []"
| "hw_launch (l # ls) q = (l, q) # (if q = HW_RX_RINGS - 1 then [] else hw_launch ls (q + 1))"

text \<open>The only pool, \<^verbatim>\<open>MBUF_POOL\<close>, has the number 0 in the log; the port is 0.\<close>

definition hw_main :: "int \<Rightarrow> dev_api \<Rightarrow> nat \<Rightarrow> nat list \<Rightarrow> fw_error + dev_log \<times> (nat \<times> nat) list" where
  "hw_main eal_ret api dev_count slaves =
     (if eal_ret < 0 then Inl (Exit_failure ''Error with EAL initialization'')
      else
        sbind (dev api (Pool_create 0) (\<lambda>r. r \<noteq> 0) (Exit_failure ''Cannot create mbuf pool'') []) (\<lambda>tr.
        sbind (or_exit ''Cannot init port'' (hw_port_init api dev_count 0 (Some 0) tr)) (\<lambda>tr.
        Inr (tr, hw_launch slaves 0))))"

section \<open>What the loop counts\<close>

text \<open>The time of one access in nanoseconds, as the 64-bit difference the code adds.\<close>

definition elapsed :: "('ts \<Rightarrow> u64) \<Rightarrow> 'ts hw_pkt \<Rightarrow> u64" where
  "elapsed to_ns m = to_ns (hp_stop m) - to_ns (hp_start m)"

lemma hw_packets:
  assumes "\<forall>m \<in> set ms. HW_HEADERS \<le> hp_room m"
  shows "run (hw_packet to_ns) ms s = Inr (s\<lparr>diff := diff s + sum_list (map (elapsed to_ns) ms),
    diff_t := diff_t s + of_nat (length ms), hw_freed := hw_freed s @ map hp_id ms\<rparr>)"
  using assms
  by (induction ms arbitrary: s) (simp_all add: hw_packet_def elapsed_def ac_simps)

lemma hw_bursts:
  assumes "\<forall>m \<in> set (concat bs). HW_HEADERS \<le> hp_room m"
  shows "run (hw_lcore_main to_ns) bs s = Inr (s\<lparr>diff := diff s + sum_list (map (elapsed to_ns) (concat bs)),
    diff_t := diff_t s + of_nat (length (concat bs)), hw_i := hw_i s + of_nat (length (concat bs)),
    hw_freed := hw_freed s @ map hp_id (concat bs)\<rparr>)"
  using assms
proof (induction bs arbitrary: s)
  case (Cons b bs)
  have "hw_lcore_main to_ns b s = Inr (s\<lparr>diff := diff s + sum_list (map (elapsed to_ns) b),
    diff_t := diff_t s + of_nat (length b), hw_i := hw_i s + of_nat (length b),
    hw_freed := hw_freed s @ map hp_id b\<rparr>)"
    using Cons.prems by (cases "b = []") (simp_all add: hw_lcore_main_def hw_packets)
  then show ?case using Cons by (simp add: ac_simps)
qed simp

text \<open>A sum of words is the sum of their values as long as that stays in range.\<close>

lemma unat_sum_list:
  "sum_list (map unat ws) < 2 ^ LENGTH('w) \<Longrightarrow> unat (sum_list (ws :: 'w::len word list)) = sum_list (map unat ws)"
proof (induction ws)
  case (Cons w ws)
  then have "unat (sum_list ws) = sum_list (map unat ws)" by simp
  then show ?case using Cons.prems by (simp add: unat_word_ariths)
qed simp

section \<open>The log of a successful start\<close>

lemma hw_main_log:
  assumes "hw_main eal_ret api dev_count slaves = Inr (tr, ls)"
  shows "tr = [Pool_create 0, Dev_configure 0 1 0, Rx_queue_setup 0 0 4096 (Some 0), Dev_start 0,
      Promiscuous_enable 0] \<and> accepted api tr \<and> ls = map (\<lambda>l. (l, 0)) (take 1 slaves)"
proof -
  obtain tr1 where tr1: "dev api (Pool_create 0) (\<lambda>r. r \<noteq> 0) (Exit_failure ''Cannot create mbuf pool'') [] = Inr tr1"
    and port: "hw_port_init api dev_count 0 (Some 0) tr1 = Inr tr" and ls: "ls = hw_launch slaves 0"
    using assms unfolding hw_main_def by (auto elim!: sbindE split: if_splits)
  have pool: "extends api [] [Pool_create 0]
      (dev api (Pool_create 0) (\<lambda>r. r \<noteq> 0) (Exit_failure ''Cannot create mbuf pool'') [])"
    by (rule extends_dev) (simp add: call_ok_def)
  have dev: "extends api tr1 ([Dev_configure 0 (of_nat HW_RX_RINGS) 0]
      @ concat (map (\<lambda>q. [Rx_queue_setup 0 (of_nat q) 4096 (Some 0)]) [0..<HW_RX_RINGS])
      @ [Dev_start 0] @ [Promiscuous_enable 0]) (hw_port_init api dev_count 0 (Some 0) tr1)"
  proof (cases "dev_count = 0")
    case False
    then have "\<not> unat (0 :: u8) \<ge> dev_count" by simp
    then show ?thesis
      unfolding hw_port_init_def
      by (simp only: if_False)
         (intro extends_sbind extends_dev extends_run extends_promisc; simp add: call_ok_def)
  qed (simp add: hw_port_init_def extends_Inl)
  have "hw_launch slaves 0 = map (\<lambda>l. (l, 0)) (take 1 slaves)"
    by (cases slaves) (simp_all add: HW_RX_RINGS_def)
  then show ?thesis
    using extendsD [OF pool tr1] extendsD [OF dev port] ls by (simp add: HW_RX_RINGS_def)
qed

section \<open>Properties\<close>

text \<open>
  C33: The hardware version measures every packet once: whatever the bursts, as long as the buffers hold
  the headers, the loop never stops, frees every packet once and in order, and the handler reports
  the rounded quotient of the summed access times by the number of packets. That number stays below
  2^64, the times are those of a clock that does not run backwards, and their sum stays below 2^64.
\<close>

theorem hw_average:
  assumes "\<forall>m \<in> set (concat bs). HW_HEADERS \<le> hp_room m"
    and "\<forall>m \<in> set (concat bs). unat (to_ns (hp_start m)) \<le> unat (to_ns (hp_stop m))"
    and "diff s = 0" "diff_t s = 0" "hw_freed s = []"
    and "length (concat bs) < 2 ^ 64"
    and "(\<Sum>m \<leftarrow> concat bs. unat (to_ns (hp_stop m)) - unat (to_ns (hp_start m))) < 2 ^ 64"
  shows "\<exists>s'. run (hw_lcore_main to_ns) bs s = Inr s' \<and> hw_freed s' = map hp_id (concat bs) \<and>
    fst (hw_handler fp st s') = (if concat bs = [] then None else Some (rnd64 fp
      (rnd64 fp (real (\<Sum>m \<leftarrow> concat bs. unat (to_ns (hp_stop m)) - unat (to_ns (hp_start m))))
       / rnd64 fp (real (length (concat bs))))))"
proof -
  let ?ms = "concat bs"
  let ?t = "\<lambda>m. unat (to_ns (hp_stop m)) - unat (to_ns (hp_start m))"
  have elapsed: "map (unat \<circ> elapsed to_ns) ?ms = map ?t ?ms"
    using assms(2) by (auto simp: elapsed_def unat_sub word_le_nat_alt)
  have "unat (sum_list (map (elapsed to_ns) ?ms)) = sum_list (map ?t ?ms)"
    using unat_sum_list [of "map (elapsed to_ns) ?ms"] assms(7) elapsed by simp
  moreover have "unat (of_nat (length ?ms) :: u64) = length ?ms"
    using assms(6) by (simp add: unat_of_nat)
  moreover from this have "(of_nat (length ?ms) :: u64) = 0 \<longleftrightarrow> ?ms = []"
    by (metis length_0_conv unat_eq_zero)
  ultimately show ?thesis
    using hw_bursts [OF assms(1), of to_ns s] assms(3,4,5) by (simp add: hw_handler_def)
qed

theorem hw_average_witness:
  "\<exists>s'. run (hw_lcore_main of_nat) [[\<lparr>hp_id = 7, hp_room = 2048, hp_start = 100, hp_stop = 130\<rparr>], [],
      [\<lparr>hp_id = 9, hp_room = 2048, hp_start = 200, hp_stop = 210\<rparr>]]
      \<lparr>diff = 0, diff_t = 0, hw_i = 5, hw_freed = []\<rparr> = Inr s' \<and> hw_freed s' = [7, 9] \<and>
    fst (hw_handler exact_fpu \<lparr>ipackets = 2, imissed = 0, ierrors = 0\<rparr> s') = Some 20"
  using hw_average [where bs = "[[\<lparr>hp_id = 7, hp_room = 2048, hp_start = 100, hp_stop = 130\<rparr>], [],
      [\<lparr>hp_id = 9, hp_room = 2048, hp_start = 200, hp_stop = 210\<rparr>]]"
    and s = "\<lparr>diff = 0, diff_t = 0, hw_i = 5, hw_freed = []\<rparr>" and to_ns = of_nat and fp = exact_fpu
    and st = "\<lparr>ipackets = 2, imissed = 0, ierrors = 0\<rparr>"]
  by (simp add: HW_HEADERS_def)

end
