(* ===== verification/Spec2Isabelle.thy ===== *)
theory Spec2Isabelle
  imports FW_Prelude Rss Quantile Flow_Bucket Flow_Records Double_Hash Double_Hash_Correct Flow_Lists
    Linked_List Linked_List_Correct Hash_List Hash_List_Correct Thread_Config Thread_Config_Correct
    Pipeline Pipeline_Correct Shared_Table Pth_System Command_Line Command_Line_Correct Startup Startup_Correct
    Startup_Lthread Lthread_System Lthread_Launch Ipg_Mean Sched_Deadline Statistics Timer_Report
    Hash_Words Spooky Spooky_Correct Murmur3 Murmur3_Correct Toeplitz Hardware
begin

text \<open>
  FloWatcher-DPDK: a per-flow packet counter on DPDK, in C.

  \<^bold>\<open>The program.\<close> Five programs. The run-to-completion version
  (\<^verbatim>\<open>src/run_to_completion/main.c\<close>) receives bursts of packets from a NIC queue and counts them in
  one thread. The pthread version (\<^verbatim>\<open>src/pthread/main.c\<close>) has receiving threads, which put the
  packets into rings, and counting threads, which take them out. The L-thread version
  (\<^verbatim>\<open>src/lthread/main.c\<close>) does the same with cooperative threads, several rings per receiving thread
  and a wake-up per 256 packets. A hash benchmark (\<^verbatim>\<open>src/toeplitz/main.c\<close>) calls MurmurHash3 and
  SpookyHash (\<^verbatim>\<open>murmur3.c\<close>, \<^verbatim>\<open>spooky.c\<close>, also linked by the last two versions), and
  \<^verbatim>\<open>src/hardware/main.c\<close> measures the time of header accesses. The flow table is an array of
  \<^verbatim>\<open>FLOW_NUM\<close> = 65536 buckets, indexed by the low half of a packet's RSS hash; the high half is the
  tag of the flow in the bucket, and a tag of zero marks an empty place. Which data structure a
  bucket is, and whether inter-packet gaps and their quantiles are kept, is chosen by
  preprocessor switches, which are flags of the record \<open>cfg\<close> or separate definitions here.

  \<^bold>\<open>Shared theories.\<close> \<open>FW_Prelude\<close>: machine words, \<open>fw_error\<close> (the ways a run ends: \<^verbatim>\<open>rte_exit\<close>,
  an undefined access, a return of -1), \<open>run\<close> (a C loop whose body may leave the program), arrays of
  counters, floating-point rounding as the parameter \<open>fpu\<close>. \<open>Rss\<close>: the split of the hash and the masks
  the pthread version computes. \<open>Quantile\<close>: \<^verbatim>\<open>init\<close>, \<^verbatim>\<open>insertSort\<close>, \<^verbatim>\<open>get_qt\<close>. \<open>Flow_Bucket\<close>: the locales
  \<open>flow_bucket\<close>, \<open>audited_bucket\<close>, \<open>exact_bucket\<close>, the contract of a bucket and what follows for runs of
  packets over the table. \<open>Flow_Records\<close>: the structures of the table, the gap arithmetic, the state
  \<open>mon_state\<close> of a monitoring loop, the locales of the burst loops (\<open>hashed_loop\<close>, \<open>burst_loop\<close>) and of
  two-slot buckets. \<open>Flow_Lists\<close>: lists of flows, abstractly, and their locales.

  \<^bold>\<open>Flow tables.\<close> \<open>Double_Hash\<close>, \<open>Linked_List\<close>, \<open>Hash_List\<close>: the per-packet code, the burst loops
  (\<^verbatim>\<open>double_hash\<close>, \<^verbatim>\<open>linked_list\<close>, \<^verbatim>\<open>hash_list\<close>, \<^verbatim>\<open>lcore_main_count_...\<close>, \<^verbatim>\<open>lthread_tx_per_ring\<close>), the initialisation
  and the reports of each build, with an interpretation of the contract for every version. The
  theories \<open>..._Correct\<close> state what the loops compute: exact counts for the first two flows of a
  bucket or for all flows, every buffer freed once, where the code stops, what the reports add up, and the
  behaviour for zero tags and failed allocations.

  \<^bold>\<open>Threads.\<close> \<open>Thread_Config\<close>: \<^verbatim>\<open>init_rx_queues\<close>, \<^verbatim>\<open>init_tx_threads\<close>, \<^verbatim>\<open>init_rx_rings\<close>, \<^verbatim>\<open>init_mem1\<close>,
  \<^verbatim>\<open>check_lcore_params\<close>. \<open>Pipeline\<close>: \<^verbatim>\<open>lcore_main_rx\<close>, \<^verbatim>\<open>lthread_rx\<close> and the system of a receiving and a
  counting thread, whose interleavings are lists of steps. \<open>Shared_Table\<close>: the counting threads
  at the level of single reads and writes of the shared table, as a step relation for the pthread and the L-thread version: every run ends, threads with buckets of their own refine the sequential code, counters are
  never too high, and updates are lost when threads share a bucket, as in the L-thread version. \<open>Pth_System\<close>: the pthread version at run time, with
  all its threads: because the NIC steers by hash bits that are part of the bucket index, its table is
  exact under every interleaving of accesses, and the counting threads empty the rings. \<open>Lthread_System\<close>: the L-thread
  version at run time, one receiving and several counting threads that wait for signals, in any order of
  steps: no packet is lost on the way, no wake-up is lost on one core, and one can be lost between two cores.
  \<open>Lthread_Launch\<close>: \<^verbatim>\<open>lthread_spawner\<close> and the first steps of \<^verbatim>\<open>lthread_rx\<close>, \<^verbatim>\<open>lthread_tx\<close> and
  \<^verbatim>\<open>lthread_tx_per_ring\<close>, in any order of turns: what is prepared before what, and that the launch ends.
  \<open>Ipg_Mean\<close>: the mean gap the two-slot builds keep, compared with the gaps of the flow's packets, through
  the locale \<open>mean_slots\<close>. \<open>Sched_Deadline\<close>: \<^verbatim>\<open>set_affinity\<close> of \<^verbatim>\<open>sched_deadline_init.h\<close>.

  \<^bold>\<open>Start and end.\<close> \<open>Command_Line\<close>: \<^verbatim>\<open>strtoul\<close> and \<^verbatim>\<open>parse_args\<close> with its parsers; the theorems are the round
  trip of thread tuples, the well-formedness of the globals, and which malformed values pass.
  \<open>Startup\<close>: \<^verbatim>\<open>port_init\<close>, \<^verbatim>\<open>main\<close>, \<^verbatim>\<open>pthread_run\<close>, \<^verbatim>\<open>lthread_spawner\<close>; every call of the device interface is an
  entry of a log, and the theorems describe the logs of successful starts (\<open>Startup_Lthread\<close> for the L-thread
  version, which with its default parameters cannot start). \<open>Statistics\<close>: the sum in \<^verbatim>\<open>timer_cb\<close> and
  the counters the signal handlers print. \<open>Timer_Report\<close>: the lines of the three callbacks, and the callback as
  it runs beside the counting threads, reading their counters one by one.

  \<^bold>\<open>Hashes and small programs.\<close> \<open>Hash_Words\<close>, \<open>Spooky\<close>, \<open>Murmur3\<close>: the hash functions on byte lists,
  little-endian as on the machines the program runs on; \<open>Spooky_Correct\<close>: the incremental interface
  refines the one-call hash; \<open>Murmur3_Correct\<close>: invertible finalisers, changes that are always seen.
  \<open>Toeplitz\<close>: the benchmark loop. \<open>Hardware\<close>: the access-time measurement.

  \<^bold>\<open>Parameters and hypotheses.\<close> DPDK is not part of the repository. A ring is any type with burst
  functions that satisfy \<open>fifo_ring\<close>, its documented behaviour (\<open>list_enq\<close>, \<open>list_deq\<close> is an instance); the NIC steers by \<open>rss_queue\<close> (some low bits of the hash, through any redirection table); memory
  allocation is a function \<open>mem\<close> from allocations to success; the device calls are answered by any function \<open>api\<close> of the calls
  made so far; the condition variables of the L-thread library satisfy \<open>cond_contract\<close>;
  the software RSS hash, \<^verbatim>\<open>rte_strsplit\<close> (\<open>splits_at_commas\<close>), the clock, and the
  rounding of doubles (\<open>ieee_double\<close>, and exactness on integers below 2^53) are parameters with the hypotheses
  named. Endless loops are modelled by their body, run over a list of any length of bursts; \<open>wait_counter\<close>
  takes fuel for the readings of the counter, and the launch ends after \<open>n_rx + n_tx + 6\<close> rounds of turns. The theorems on 32-bit counters are modulo 2^32, and
  bounds such as fewer than 2^31 packets are stated where the code needs them.

  \<^bold>\<open>Not modelled.\<close> Printed texts, the curses display (\<^verbatim>\<open>NC\<close>), the file output except its numbers,
  when the DPDK timer runs its callback (at any moment here), the schedulers of the L-thread library (the order of turns is arbitrary), the
  NIC configuration structures, the key and tuple declarations of \<^verbatim>\<open>flow_id.h\<close>, and the copies of shared
  functions in the L-thread version (\<^verbatim>\<open>parse_rx_config\<close>, \<^verbatim>\<open>get_qt\<close> and the like) and of the hash
  files, which are modelled once. The scripts
  for the traffic generator are not C code.
\<close>

end
